(* ===== verification/Prelude.thy ===== *)
theory Prelude
  imports Main "HOL-Library.Word"
begin

text \<open>
  Shared vocabulary of the development: the ways a C++ call can stop without a
  value, sequencing of such calls, the \<open>assert\<close> macro, and the lemma
  collections the component theories add to.

  A call that may fail has type \<open>stop + 'a\<close>: \<open>Inl\<close> is the reason it
  stopped, \<open>Inr\<close> its value together with the state it leaves.
\<close>

named_theorems result_simps \<open>unfolding rules for results of calls\<close>
named_theorems gen_defs \<open>definitions of the generators' operations\<close>
named_theorems db_defs \<open>definitions of the database operations\<close>

type_synonym u64 = "64 word"

type_synonym kvpair = "string \<times> string"

section \<open>How a call stops\<close>

text \<open>
  The exceptions the program throws or lets through.  \<open>Utils_Exception\<close> is
  \<open>utils::Exception\<close>; the next three are standard library classes.
  All four derive from \<open>std::exception\<close>, \<open>Foreign_Exception\<close> does not.
\<close>

datatype exn =
    Utils_Exception string
  | Invalid_Argument string
  | Out_Of_Range string
  | Length_Error string
  | Foreign_Exception string

fun is_std_exception :: "exn \<Rightarrow> bool" where
  "is_std_exception (Foreign_Exception _) = False"
| "is_std_exception _ = True"

text \<open>
  \<open>Diverges\<close> is a loop that never ends, \<open>Undefined\<close> is undefined behaviour
  (an out-of-range conversion, a division by zero, an empty distribution),
  \<open>Exit_With\<close> is a call of \<open>exit\<close>.
\<close>

datatype stop =
    Throw exn
  | Assert_Fail
  | Undefined
  | Diverges
  | Exit_With int

section \<open>Sequencing\<close>

definition bind_r :: "'e + 'a \<Rightarrow> ('a \<Rightarrow> 'e + 'b) \<Rightarrow> 'e + 'b" where
  "bind_r m f = (case m of Inl e \<Rightarrow> Inl e | Inr x \<Rightarrow> f x)"

lemma bind_r_Inl [simp, result_simps]: "bind_r (Inl e) f = Inl e"
  by (simp add: bind_r_def)

lemma bind_r_Inr [simp, result_simps]: "bind_r (Inr x) f = f x"
  by (simp add: bind_r_def)

lemma bind_r_eq_Inr [result_simps]:
  "bind_r m f = Inr y \<longleftrightarrow> (\<exists>x. m = Inr x \<and> f x = Inr y)"
  by (cases m) simp_all

lemma bind_r_eq_Inl [result_simps]:
  "bind_r m f = Inl e \<longleftrightarrow> m = Inl e \<or> (\<exists>x. m = Inr x \<and> f x = Inl e)"
  by (cases m) simp_all

lemma bind_r_assoc: "bind_r (bind_r m f) g = bind_r m (\<lambda>x. bind_r (f x) g)"
  by (cases m) simp_all

lemma bind_r_cong [fundef_cong]:
  "m = m' \<Longrightarrow> (\<And>x. m' = Inr x \<Longrightarrow> f x = f' x) \<Longrightarrow> bind_r m f = bind_r m' f'"
  by (cases m') simp_all

text \<open>
  A call that does not stop ends in a state satisfying \<open>P\<close>: the shape in which the
  components state what their operations keep.
\<close>

definition ret_sat :: "('a \<Rightarrow> bool) \<Rightarrow> 'e + 'a \<Rightarrow> bool" where
  "ret_sat P m \<longleftrightarrow> (case m of Inl _ \<Rightarrow> True | Inr x \<Rightarrow> P x)"

lemma ret_sat_Inl [simp]: "ret_sat P (Inl e)"
  by (simp add: ret_sat_def)

lemma ret_sat_Inr [simp]: "ret_sat P (Inr x) \<longleftrightarrow> P x"
  by (simp add: ret_sat_def)

lemma ret_sat_bind:
  "ret_sat P m \<Longrightarrow> (\<And>x. P x \<Longrightarrow> ret_sat Q (f x)) \<Longrightarrow> ret_sat Q (bind_r m f)"
  by (cases m) simp_all

lemma ret_satI: "(\<And>x. m = Inr x \<Longrightarrow> P x) \<Longrightarrow> ret_sat P m"
  by (cases m) simp_all

lemma ret_satD: "ret_sat P m \<Longrightarrow> m = Inr x \<Longrightarrow> P x"
  by simp

section \<open>The \<open>assert\<close> macro\<close>

text \<open>
  \<open>assert(b)\<close> aborts when \<open>b\<close> is false, unless the program is compiled with
  \<open>NDEBUG\<close> (a CMake Release build), where it does nothing.
\<close>

definition cassert :: "bool \<Rightarrow> bool \<Rightarrow> stop + unit" where
  "cassert ndebug b = (if b \<or> ndebug then Inr () else Inl Assert_Fail)"

lemma cassert_True [simp, result_simps]: "cassert nd True = Inr ()"
  by (simp add: cassert_def)

lemma cassert_eq_Inr [result_simps]: "cassert nd b = Inr u \<longleftrightarrow> b \<or> nd"
  by (simp add: cassert_def)

lemma cassert_eq_Inl [result_simps]:
  "cassert nd b = Inl e \<longleftrightarrow> \<not> b \<and> \<not> nd \<and> e = Assert_Fail"
  by (auto simp: cassert_def)

section \<open>Words\<close>

lemma unat_u64_lt: "unat (w :: u64) < 18446744073709551616"
  using unsigned_less [of w] by simp

lemma word_add_mod_range:
  fixes a b r :: u64
  assumes "a \<le> b" "b - a \<noteq> -1"
  shows "a \<le> a + r mod (b - a + 1) \<and> a + r mod (b - a + 1) \<le> b"
proof -
  have s: "unat (b - a + 1) = Suc (unat (b - a))"
    using assms(2) unatSuc [of "b - a"] by (simp add: add.commute eq_neg_iff_add_eq_0)
  have d: "unat (b - a) = unat b - unat a"
    using assms(1) by (simp add: unat_sub)
  have le: "unat a \<le> unat b"
    using assms(1) by (simp add: word_le_nat_alt)
  have m: "unat (r mod (b - a + 1)) \<le> unat b - unat a"
    using s d by (simp add: unat_mod_distrib le_simps(2) mod_less_divisor)
  then have "unat a + unat (r mod (b - a + 1)) < 2 ^ LENGTH(64)"
    using le unat_u64_lt [of b] by simp
  then have "unat (a + r mod (b - a + 1)) = unat a + unat (r mod (b - a + 1))"
    by (simp add: unat_add_lem [THEN iffD1])
  with m le show ?thesis
    by (simp add: word_le_nat_alt)
qed

end
