(* ===== verification/Doubles.thy ===== *)
theory Doubles
  imports Prelude Complex_Main "HOL-Library.Code_Target_Numeral"
begin

text \<open>
  The C++ type \<open>double\<close> as IEEE 754 binary64 with rounding to nearest, ties to
  even.  A finite value is its rational; the result of an operation is the exact
  rational result rounded by \<open>to_dbl\<close>, which also gives the overflow to infinity.
  The sign of a zero is not kept: no operation of the program divides by a negative
  zero.  The lemmas show that rounding is monotone, fixes the dyadic values the
  components compute with, and hence that bounds survive rounding.
\<close>

named_theorems dbl_eval \<open>equations that compute with concrete doubles\<close>

section \<open>Exponents\<close>

fun bit_len :: "nat \<Rightarrow> nat" where
  "bit_len n = (if n = 0 then 0 else Suc (bit_len (n div 2)))"

declare bit_len.simps [simp del]

lemma bit_len_0 [simp]: "bit_len 0 = 0"
  by (simp add: bit_len.simps)

lemma bit_len_upper: "n < 2 ^ bit_len n"
proof (induction n rule: bit_len.induct)
  case (1 n)
  show ?case
  proof (cases "n = 0")
    case False
    with 1 have "n div 2 < 2 ^ bit_len (n div 2)" by simp
    with False show ?thesis by (subst bit_len.simps) simp
  qed simp
qed

lemma bit_len_lower: "0 < n \<Longrightarrow> 2 ^ (bit_len n - 1) \<le> n"
proof (induction n rule: bit_len.induct)
  case (1 n)
  show ?case
  proof (cases "n div 2 = 0")
    case True
    with 1 have "n = 1" by simp
    then show ?thesis by (simp add: bit_len.simps)
  next
    case False
    then have ih: "2 ^ (bit_len (n div 2) - 1) \<le> n div 2"
      using 1 by simp
    have pos: "0 < bit_len (n div 2)"
      using False by (subst bit_len.simps) simp
    have "2 ^ bit_len (n div 2) = 2 * (2::nat) ^ (bit_len (n div 2) - 1)"
      using pos by (metis Suc_diff_1 power_Suc)
    also have "\<dots> \<le> n" using ih by simp
    finally show ?thesis
      using 1 by (subst bit_len.simps) simp
  qed
qed

lemma bit_len_pos: "0 < n \<Longrightarrow> 0 < bit_len n"
  by (subst bit_len.simps) simp

text \<open>The binary exponent of a positive rational: \<open>2 ^ e \<le> x < 2 ^ (e + 1)\<close>.\<close>

definition ilog2 :: "rat \<Rightarrow> int" where
  "ilog2 x =
     (let (p, q) = quotient_of x;
          k = int (bit_len (nat p)) - int (bit_len (nat q))
      in if 2 powi k \<le> x then k else k - 1)"

lemma bit_len_rat:
  assumes "0 < p"
  shows "2 ^ (bit_len (nat p) - 1) \<le> (of_int p :: rat)"
    and "(of_int p :: rat) < 2 ^ bit_len (nat p)"
proof -
  have "int (2 ^ (bit_len (nat p) - 1)) \<le> p"
    using bit_len_lower [of "nat p"] assms by linarith
  then have "(of_int (int (2 ^ (bit_len (nat p) - 1))) :: rat) \<le> of_int p"
    by (simp only: of_int_le_iff)
  then show "2 ^ (bit_len (nat p) - 1) \<le> (of_int p :: rat)" by simp
  have "p < int (2 ^ bit_len (nat p))"
    using bit_len_upper [of "nat p"] assms by linarith
  then have "(of_int p :: rat) < of_int (int (2 ^ bit_len (nat p)))"
    by (simp only: of_int_less_iff)
  then show "(of_int p :: rat) < 2 ^ bit_len (nat p)" by simp
qed

lemma frac_upper:
  fixes p q :: rat
  assumes "p < 2 ^ a" "2 ^ (b - 1) \<le> q" "0 < b" "0 < p"
  shows "p / q < 2 powi (int a - int b + 1)"
proof -
  have q: "0 < q" using assms(2) by (meson less_le_trans zero_less_numeral zero_less_power)
  have "p / q < 2 ^ a / q" using assms(1) q by (rule divide_strict_right_mono)
  also have "\<dots> \<le> 2 ^ a / 2 ^ (b - 1)"
    using assms(2) by (intro frac_le) simp_all
  also have "\<dots> = 2 powi (int a - int (b - 1))"
    by (simp add: power_int_diff del: of_nat_diff)
  also have "int a - int (b - 1) = int a - int b + 1" using assms(3) by simp
  finally show ?thesis .
qed

lemma frac_lower:
  fixes p q :: rat
  assumes "2 ^ (a - 1) \<le> p" "q < 2 ^ b" "0 < a" "0 < q"
  shows "2 powi (int a - int b - 1) \<le> p / q"
proof -
  have p: "0 < p" using assms(1) by (meson less_le_trans zero_less_numeral zero_less_power)
  have "int a - int b - 1 = int (a - 1) - int b"
    using assms(3) by simp
  then have "(2::rat) powi (int a - int b - 1) = 2 powi (int (a - 1) - int b)"
    by (rule arg_cong)
  also have "\<dots> = 2 ^ (a - 1) / 2 ^ b"
    by (simp add: power_int_diff del: of_nat_diff)
  also have "\<dots> \<le> p / q"
    using assms p by (intro frac_le) simp_all
  finally show ?thesis .
qed

lemma ilog2_bounds:
  assumes "0 < x"
  shows "2 powi ilog2 x \<le> x" and "x < 2 powi (ilog2 x + 1)"
proof -
  obtain p q where pq: "quotient_of x = (p, q)" by (cases "quotient_of x")
  have x: "x = of_int p / of_int q" and q: "0 < q"
    using pq quotient_of_div quotient_of_denom_pos by auto
  have p: "0 < p" using assms x q by (simp add: zero_less_divide_iff)
  let ?k = "int (bit_len (nat p)) - int (bit_len (nat q))"
  have up: "x < 2 powi (?k + 1)"
    unfolding x using p q
    by (intro frac_upper bit_len_rat) (simp_all add: bit_len_pos)
  have lo: "2 powi (?k - 1) \<le> x"
    unfolding x using p q
    by (intro frac_lower bit_len_rat) (simp_all add: bit_len_pos)
  have il: "ilog2 x = (if 2 powi ?k \<le> x then ?k else ?k - 1)"
    by (simp add: ilog2_def pq)
  show "2 powi ilog2 x \<le> x"
    unfolding il using lo by simp
  show "x < 2 powi (ilog2 x + 1)"
    unfolding il using up by (cases "2 powi ?k \<le> x") (simp_all del: of_nat_diff)
qed

lemma powi_le_iff: "(2::rat) powi a \<le> 2 powi b \<longleftrightarrow> a \<le> b"
  using power_int_increasing [of a b "2::rat"] power_int_strict_increasing [of b a "2::rat"]
  by (cases "a \<le> b") (simp_all add: linorder_not_le)

lemma powi_less_iff: "(2::rat) powi a < 2 powi b \<longleftrightarrow> a < b"
  using powi_le_iff [of b a] by (simp add: linorder_not_le [symmetric])

lemma ilog2_mono:
  assumes "0 < x" "x \<le> y"
  shows "ilog2 x \<le> ilog2 y"
proof -
  have "2 powi ilog2 x < (2::rat) powi (ilog2 y + 1)"
    using ilog2_bounds [of x] ilog2_bounds [of y] assms by simp
  then show ?thesis by (simp add: powi_less_iff)
qed

lemma ilog2_eqI: "2 powi e \<le> x \<Longrightarrow> x < 2 powi (e + 1) \<Longrightarrow> ilog2 x = e"
proof -
  assume a: "2 powi e \<le> x" "x < 2 powi (e + 1)"
  then have x: "0 < x" by (meson less_le_trans zero_less_power_int zero_less_numeral)
  have "(2::rat) powi e < 2 powi (ilog2 x + 1)" and "(2::rat) powi ilog2 x < 2 powi (e + 1)"
    using a ilog2_bounds [OF x] by simp_all
  then show ?thesis by (simp add: powi_less_iff)
qed


lemma powi_quotient: "a \<le> b \<Longrightarrow> (2::rat) powi b / 2 powi a = of_int (2 ^ nat (b - a))"
proof -
  assume ab: "a \<le> b"
  have "(2::rat) powi b / 2 powi a = 2 powi (b - a)"
    by (rule power_int_diff [symmetric]) simp
  also have "\<dots> = 2 ^ nat (b - a)" using ab by (subst power_int_def) simp
  finally show ?thesis by simp
qed

section \<open>Rounding\<close>

text \<open>Round a rational to an integer: nearest, ties to even.\<close>

definition rne :: "rat \<Rightarrow> int" where
  "rne x =
     (let f = \<lfloor>x\<rfloor>; d = x - of_int f
      in if d < 1/2 then f else if d > 1/2 then f + 1
         else if even f then f else f + 1)"

lemma rne_of_int [simp]: "rne (of_int n) = n"
  by (simp add: rne_def Let_def)

lemma rne_floor: "\<lfloor>x\<rfloor> \<le> rne x" "rne x \<le> \<lfloor>x\<rfloor> + 1"
  by (simp_all add: rne_def Let_def)

lemma rne_mono: "x \<le> y \<Longrightarrow> rne x \<le> rne y"
proof -
  assume xy: "x \<le> y"
  then have f: "\<lfloor>x\<rfloor> \<le> \<lfloor>y\<rfloor>" by (rule floor_mono)
  show ?thesis
  proof (cases "\<lfloor>x\<rfloor> = \<lfloor>y\<rfloor>")
    case True
    with xy show ?thesis by (auto simp: rne_def Let_def)
  next
    case False
    with f have "\<lfloor>x\<rfloor> + 1 \<le> \<lfloor>y\<rfloor>" by simp
    with rne_floor [of x] rne_floor [of y] show ?thesis by linarith
  qed
qed

lemma rne_minus: "rne (- x) = - rne x"
proof (cases "x = of_int \<lfloor>x\<rfloor>")
  case True
  then have "- x = of_int (- \<lfloor>x\<rfloor>)" by simp
  then have "rne (- x) = - \<lfloor>x\<rfloor>" by (simp only: rne_of_int)
  moreover have "rne x = \<lfloor>x\<rfloor>" using True rne_of_int by metis
  ultimately show ?thesis by simp
next
  case False
  then have c: "\<lfloor>- x\<rfloor> = - \<lfloor>x\<rfloor> - 1"
    using floor_correct [of x] by (intro floor_unique) (simp_all add: order_less_le)
  show ?thesis by (auto simp: rne_def Let_def c)
qed

text \<open>Round to 53 significant bits, with the smallest step \<open>2 ^ -1074\<close> near zero.\<close>

definition step_exp :: "rat \<Rightarrow> int" where
  "step_exp x = max (ilog2 \<bar>x\<bar> - 52) (-1074)"

definition rnd :: "rat \<Rightarrow> rat" where
  "rnd x = (if x = 0 then 0
     else of_int (rne (x / 2 powi step_exp x)) * 2 powi step_exp x)"

lemma rnd_0 [simp]: "rnd 0 = 0"
  by (simp add: rnd_def)

lemma rnd_minus: "rnd (- x) = - rnd x"
  by (simp add: rnd_def step_exp_def rne_minus)

lemma rnd_grid:
  assumes "x = of_int n * 2 powi e" "step_exp x \<le> e"
  shows "rnd x = x"
proof (cases "x = 0")
  case False
  have "x / 2 powi step_exp x = of_int n * (2 powi e / 2 powi step_exp x)"
    by (subst assms(1)) (rule times_divide_eq_right [symmetric])
  also have "\<dots> = of_int (n * 2 ^ nat (e - step_exp x))"
    using assms(2) by (simp only: powi_quotient of_int_mult)
  finally have q: "x / 2 powi step_exp x = of_int (n * 2 ^ nat (e - step_exp x))" .
  then have "rne (x / 2 powi step_exp x) = n * 2 ^ nat (e - step_exp x)"
    by (simp only: rne_of_int)
  then have "rnd x = x / 2 powi step_exp x * 2 powi step_exp x"
    using False q by (simp add: rnd_def)
  then show ?thesis by simp
qed simp

lemma rnd_mono_pos:
  assumes "0 < x" "x \<le> y"
  shows "rnd x \<le> rnd y"
proof -
  have y: "0 < y" using assms by simp
  have il: "ilog2 x \<le> ilog2 y" using assms by (rule ilog2_mono)
  define a b where "a = step_exp x" and "b = step_exp y"
  have rx: "rnd x = of_int (rne (x / 2 powi a)) * 2 powi a"
    and ry: "rnd y = of_int (rne (y / 2 powi b)) * 2 powi b"
    using assms y by (simp_all add: rnd_def a_def b_def)
  show ?thesis
  proof (cases "a = b")
    case True
    then show ?thesis using assms(2)
      by (simp add: rx ry rne_mono divide_right_mono)
  next
    case False
    with il have lt: "ilog2 x < ilog2 y" "b = ilog2 y - 52" "a \<le> ilog2 y"
      using assms y by (auto simp: a_def b_def step_exp_def)
    define B :: rat where "B = 2 powi ilog2 y"
    have xB: "x \<le> B"
    proof -
      have "(2::rat) powi (ilog2 x + 1) \<le> B" using lt(1) by (simp add: B_def powi_le_iff)
      then show ?thesis using ilog2_bounds(2) [OF assms(1)] by simp
    qed
    have yB: "B \<le> y" using ilog2_bounds(1) [OF y] by (simp add: B_def)
    have "rnd x \<le> B"
    proof -
      have q: "B / 2 powi a = of_int (2 ^ nat (ilog2 y - a))"
        unfolding B_def using lt(3) by (rule powi_quotient)
      have "rne (x / 2 powi a) \<le> rne (B / 2 powi a)"
        using xB by (intro rne_mono divide_right_mono) simp_all
      also have "\<dots> = 2 ^ nat (ilog2 y - a)" by (simp only: q rne_of_int)
      finally have "(of_int (rne (x / 2 powi a)) :: rat) \<le> B / 2 powi a"
        by (simp only: q of_int_le_iff)
      then show ?thesis by (simp add: rx pos_le_divide_eq)
    qed
    moreover have "B \<le> rnd y"
    proof -
      have q: "B / 2 powi b = of_int (2 ^ 52)"
        unfolding B_def using lt(2) by (subst powi_quotient) simp_all
      have "rne (B / 2 powi b) \<le> rne (y / 2 powi b)"
        using yB by (intro rne_mono divide_right_mono) simp_all
      then have "B / 2 powi b \<le> of_int (rne (y / 2 powi b))"
        by (simp only: q rne_of_int of_int_le_iff)
      then show ?thesis by (simp add: ry pos_divide_le_eq)
    qed
    ultimately show ?thesis by simp
  qed
qed

lemma rnd_nonneg: "0 \<le> x \<Longrightarrow> 0 \<le> rnd x"
proof -
  assume "0 \<le> x"
  then have "rne 0 \<le> rne (x / 2 powi step_exp x)"
    by (intro rne_mono) simp
  then show ?thesis
    using rne_of_int [of 0] by (simp add: rnd_def)
qed

lemma rnd_mono: "x \<le> y \<Longrightarrow> rnd x \<le> rnd y"
proof -
  assume xy: "x \<le> y"
  consider "0 < x" | "x \<le> 0" "0 \<le> y" | "y < 0" by linarith
  then show ?thesis
  proof cases
    case 1
    then show ?thesis using xy by (rule rnd_mono_pos)
  next
    case 2
    then show ?thesis
      using rnd_nonneg [of "- x"] rnd_nonneg [of y] by (simp add: rnd_minus)
  next
    case 3
    then show ?thesis
      using xy rnd_mono_pos [of "- y" "- x"] by (simp add: rnd_minus)
  qed
qed

lemma step_exp_le:
  assumes "\<bar>x\<bar> < 2 powi (e + 53)" "-1074 \<le> e" "x \<noteq> 0"
  shows "step_exp x \<le> e"
proof -
  have "2 powi ilog2 \<bar>x\<bar> < (2::rat) powi (e + 53)"
    using ilog2_bounds(1) [of "\<bar>x\<bar>"] assms by simp
  then show ?thesis using assms(2) by (simp add: step_exp_def powi_less_iff)
qed

text \<open>Multiples of \<open>2 ^ e\<close> below \<open>2 ^ (e + 53)\<close> are representable.\<close>

lemma rnd_multiple:
  assumes "\<bar>n\<bar> \<le> 2 ^ 53" "-1074 \<le> e"
  shows "rnd (of_int n * 2 powi e) = of_int n * 2 powi e"
proof (cases "\<bar>n\<bar> = 2 ^ 53")
  case True
  then have n: "n = 2 ^ 53 \<or> n = - (2 ^ 53)" by linarith
  have two: "(2::rat) ^ 53 * 2 powi e = of_int 1 * 2 powi (e + 53)"
    by (simp add: power_int_add)
  have "step_exp (2 ^ 53 * 2 powi e) \<le> e + 53"
    using assms(2) by (intro step_exp_le) (simp_all add: power_int_add abs_mult)
  then have "rnd (2 ^ 53 * 2 powi e) = 2 ^ 53 * 2 powi e"
    by (intro rnd_grid [OF two])
  with n rnd_minus [of "2 ^ 53 * 2 powi e"] show ?thesis by auto
next
  case False
  show ?thesis
  proof (cases "n = 0")
    case nz: False
    have "\<bar>n\<bar> < 2 ^ 53" using False assms(1) by simp
    then have "(of_int \<bar>n\<bar> :: rat) < of_int (2 ^ 53)" by (simp only: of_int_less_iff)
    then have "\<bar>of_int n * 2 powi e\<bar> < (2::rat) powi (e + 53)"
      by (simp add: power_int_add abs_mult)
    then have "step_exp (of_int n * 2 powi e) \<le> e"
      using assms(2) nz by (intro step_exp_le) simp_all
    then show ?thesis by (intro rnd_grid [OF refl])
  qed simp
qed

lemma rnd_of_int: "\<bar>n\<bar> \<le> 2 ^ 53 \<Longrightarrow> rnd (of_int n) = of_int n"
  using rnd_multiple [of n 0] by simp

lemma rnd_1 [simp]: "rnd 1 = 1"
  using rnd_of_int [of 1] by simp

lemma rnd_le_1: "x \<le> 1 \<Longrightarrow> rnd x \<le> 1"
  using rnd_mono [of x 1] by simp

lemma rnd_nonpos: "x \<le> 0 \<Longrightarrow> rnd x \<le> 0"
  using rnd_mono [of x 0] by simp


section \<open>Evaluation on integers\<close>

text \<open>Code equations that round with integer division only.\<close>

definition pow2_le :: "int \<Rightarrow> int \<Rightarrow> int \<Rightarrow> bool" where
  "pow2_le k p q = (if 0 \<le> k then 2 ^ nat k * q \<le> p else q \<le> p * 2 ^ nat (- k))"

definition rne_div :: "int \<Rightarrow> int \<Rightarrow> int" where
  "rne_div a b =
     (let f = a div b; m = 2 * (a mod b)
      in if m < b then f else if b < m then f + 1 else if even f then f else f + 1)"

lemma pow2_le_iff:
  assumes "0 < q"
  shows "2 powi k \<le> (of_int p / of_int q :: rat) \<longleftrightarrow> pow2_le k p q"
proof (cases "0 \<le> k")
  case True
  have "2 powi k \<le> (of_int p / of_int q :: rat) \<longleftrightarrow> of_int (2 ^ nat k * q) \<le> (of_int p :: rat)"
    using True assms by (simp add: power_int_def pos_le_divide_eq)
  then show ?thesis by (simp only: pow2_le_def True of_int_le_iff if_True)
next
  case False
  have "2 powi k \<le> (of_int p / of_int q :: rat) \<longleftrightarrow> of_int q \<le> (of_int (p * 2 ^ nat (- k)) :: rat)"
    using False assms by (simp add: power_int_def field_simps)
  then show ?thesis by (simp only: pow2_le_def False of_int_le_iff if_False)
qed

lemma rne_div: "0 < b \<Longrightarrow> rne (of_int a / of_int b) = rne_div a b"
proof -
  assume b: "0 < b"
  have f: "\<lfloor>of_int a / of_int b :: rat\<rfloor> = a div b" by (rule floor_divide_of_int_eq)
  have "(of_int a :: rat) = of_int (a div b) * of_int b + of_int (a mod b)"
    by (simp flip: of_int_mult of_int_add)
  then have d: "of_int a / of_int b - (of_int (a div b) :: rat) = of_int (a mod b) / of_int b"
    using b by (simp add: field_simps)
  have "of_int (a mod b) / of_int b < (1/2 :: rat) \<longleftrightarrow> of_int (2 * (a mod b)) < (of_int b :: rat)"
    and "(1/2 :: rat) < of_int (a mod b) / of_int b \<longleftrightarrow> (of_int b :: rat) < of_int (2 * (a mod b))"
    using b by (simp_all add: field_simps)
  then show ?thesis
    by (simp only: rne_def rne_div_def Let_def f d of_int_less_iff)
qed

definition ilog2_frac :: "int \<Rightarrow> int \<Rightarrow> int" where
  "ilog2_frac p q =
     (let k = int (bit_len (nat p)) - int (bit_len (nat q))
      in if pow2_le k p q then k else k - 1)"

definition rnd_frac :: "int \<Rightarrow> int \<Rightarrow> rat" where
  "rnd_frac p q =
     (let e = max (ilog2_frac \<bar>p\<bar> q - 52) (-1074)
      in if p = 0 then 0
         else if 0 \<le> e then of_int (rne_div p (q * 2 ^ nat e) * 2 ^ nat e)
         else of_int (rne_div (p * 2 ^ nat (- e)) q) / of_int (2 ^ nat (- e)))"

lemma ilog2_frac:
  assumes "0 < p" "0 < q"
  shows "ilog2 (of_int p / of_int q) = ilog2_frac p q"
proof -
  let ?k = "int (bit_len (nat p)) - int (bit_len (nat q))" and ?x = "of_int p / of_int q :: rat"
  have "?x < 2 powi (?k + 1)" "2 powi (?k - 1) \<le> ?x"
    using assms by (intro frac_upper frac_lower bit_len_rat; simp add: bit_len_pos)+
  then show ?thesis
    using assms(2)
    by (intro ilog2_eqI) (simp_all add: ilog2_frac_def Let_def flip: pow2_le_iff)
qed

lemma rnd_frac:
  assumes q: "0 < q"
  shows "rnd (of_int p / of_int q) = rnd_frac p q"
proof (cases "p = 0")
  case False
  let ?x = "of_int p / of_int q :: rat"
  define e where "e = max (ilog2_frac \<bar>p\<bar> q - 52) (-1074)"
  have e: "step_exp ?x = e"
    using ilog2_frac [of "\<bar>p\<bar>" q] False q by (simp add: step_exp_def e_def)
  have pe: "(2::rat) powi e = (if 0 \<le> e then of_int (2 ^ nat e) else 1 / of_int (2 ^ nat (- e)))"
    by (simp add: power_int_def field_simps)
  have A: "rne (?x / 2 powi e) =
      (if 0 \<le> e then rne_div p (q * 2 ^ nat e) else rne_div (p * 2 ^ nat (- e)) q)"
    using q by (simp add: pe flip: rne_div)
  have "rnd ?x = of_int (rne (?x / 2 powi e)) * 2 powi e"
    using False q by (simp add: rnd_def e)
  moreover have "rnd_frac p q =
      (if 0 \<le> e then of_int (rne_div p (q * 2 ^ nat e) * 2 ^ nat e)
       else of_int (rne_div (p * 2 ^ nat (- e)) q) / of_int (2 ^ nat (- e)))"
    using False by (simp only: rnd_frac_def Let_def if_False flip: e_def)
  ultimately show ?thesis
    unfolding A by (cases "0 \<le> e") (simp_all add: pe)
qed (simp add: rnd_frac_def)

lemma ilog2_code [code]: "ilog2 x = (let (p, q) = quotient_of x in
    if 0 < p then ilog2_frac p q else
      (let k = int (bit_len (nat p)) - int (bit_len (nat q)) in if 2 powi k \<le> x then k else k - 1))"
proof -
  obtain p q where pq: "quotient_of x = (p, q)" by (cases "quotient_of x")
  then have "x = of_int p / of_int q" "0 < q"
    using quotient_of_div quotient_of_denom_pos by auto
  then have "0 < p \<Longrightarrow> ilog2 x = ilog2_frac p q" by (simp add: ilog2_frac)
  then show ?thesis by (auto simp: pq) (simp add: ilog2_def pq)
qed

lemma rnd_code [code]: "rnd x = (let (p, q) = quotient_of x in rnd_frac p q)"
proof -
  obtain p q where pq: "quotient_of x = (p, q)" by (cases "quotient_of x")
  then have "rnd x = rnd_frac p q"
    using quotient_of_div [of x p q] quotient_of_denom_pos [of x p q] by (simp add: rnd_frac)
  then show ?thesis by (simp add: pq)
qed

text \<open>Equations by which the simplifier rounds a numeral or a fraction of numerals.\<close>

lemma bit_len_num:
  "bit_len 1 = 1"
  "bit_len (numeral num.One) = 1"
  "bit_len (numeral (num.Bit0 n)) = Suc (bit_len (numeral n))"
  "bit_len (numeral (num.Bit1 n)) = Suc (bit_len (numeral n))"
  by (simp_all add: bit_len.simps [of "Suc 0"] bit_len.simps [of "numeral (num.Bit0 n)"]
      bit_len.simps [of "numeral (num.Bit1 n)"])

lemma rnd_num:
  "rnd (numeral a) = rnd_frac (numeral a) 1"
  "rnd (numeral a / numeral b) = rnd_frac (numeral a) (numeral b)"
  "rnd (1 / numeral b) = rnd_frac 1 (numeral b)"
  "rnd (- numeral a) = rnd_frac (- numeral a) 1"
  "rnd (- (numeral a / numeral b)) = rnd_frac (- numeral a) (numeral b)"
  "rnd (- (1 / numeral b)) = rnd_frac (- 1) (numeral b)"
  using rnd_frac [of 1 "numeral a"] rnd_frac [of "numeral b" "numeral a"]
    rnd_frac [of "numeral b" 1] rnd_frac [of 1 "- numeral a"]
    rnd_frac [of "numeral b" "- numeral a"] rnd_frac [of "numeral b" "- 1"]
  by simp_all

lemmas [dbl_eval] =
  bit_len_num rnd_num rnd_frac_def ilog2_frac_def pow2_le_def rne_div_def Let_def

section \<open>The type \<open>double\<close>\<close>

text \<open>\<open>Inf True\<close> is minus infinity.\<close>

datatype double = Fin rat | Inf bool | NaN

definition to_dbl :: "rat \<Rightarrow> double" where
  "to_dbl x =
     (let r = rnd x
      in if 2 ^ 1024 \<le> r then Inf False else if r \<le> - (2 ^ 1024) then Inf True else Fin r)"

text \<open>An equation that compares exponents, for evaluation.\<close>

lemma powi_le_ilog2:
  assumes "0 < x"
  shows "2 powi e \<le> x \<longleftrightarrow> e \<le> ilog2 x"
proof
  assume "2 powi e \<le> x"
  then have "2 powi e < (2::rat) powi (ilog2 x + 1)"
    using ilog2_bounds(2) [OF assms] by simp
  then show "e \<le> ilog2 x" by (simp add: powi_less_iff)
next
  assume "e \<le> ilog2 x"
  then have "(2::rat) powi e \<le> 2 powi ilog2 x" by (simp add: powi_le_iff)
  then show "2 powi e \<le> x" using ilog2_bounds(1) [OF assms] by simp
qed

lemma to_dbl_code [code]:
  "to_dbl x =
     (let r = rnd x
      in if r \<noteq> 0 \<and> 1024 \<le> ilog2 \<bar>r\<bar> then Inf (r < 0) else Fin r)"
proof -
  define B :: rat where "B = 2 ^ 1024"
  have B: "0 < B" "B = 2 powi 1024" by (simp_all add: B_def)
  show ?thesis
  proof (cases "rnd x = 0")
    case False
    then have iff: "1024 \<le> ilog2 \<bar>rnd x\<bar> \<longleftrightarrow> B \<le> \<bar>rnd x\<bar>"
      using powi_le_ilog2 [of "\<bar>rnd x\<bar>" 1024] by (simp only: B(2))
    have "to_dbl x = (if B \<le> rnd x then Inf False else if rnd x \<le> - B then Inf True else Fin (rnd x))"
      by (simp only: to_dbl_def Let_def B_def)
    with False B(1) iff show ?thesis
      by (cases "rnd x < 0") (auto simp: Let_def)
  next
    case True
    with B show ?thesis
      by (simp add: to_dbl_def Let_def flip: B_def)
  qed
qed

fun dadd :: "double \<Rightarrow> double \<Rightarrow> double" where
  "dadd (Fin a) (Fin b) = to_dbl (a + b)"
| "dadd (Inf s) (Inf t) = (if s = t then Inf s else NaN)"
| "dadd (Inf s) (Fin _) = Inf s"
| "dadd (Fin _) (Inf t) = Inf t"
| "dadd _ _ = NaN"

fun dneg :: "double \<Rightarrow> double" where
  "dneg (Fin a) = Fin (- a)"
| "dneg (Inf s) = Inf (\<not> s)"
| "dneg NaN = NaN"

fun dmul :: "double \<Rightarrow> double \<Rightarrow> double" where
  "dmul (Fin a) (Fin b) = to_dbl (a * b)"
| "dmul (Inf s) (Inf t) = Inf (s \<noteq> t)"
| "dmul (Inf s) (Fin b) = (if b = 0 then NaN else Inf (s \<noteq> (b < 0)))"
| "dmul (Fin a) (Inf t) = (if a = 0 then NaN else Inf (t \<noteq> (a < 0)))"
| "dmul _ _ = NaN"

fun ddiv :: "double \<Rightarrow> double \<Rightarrow> double" where
  "ddiv (Fin a) (Fin b) =
     (if b = 0 then (if a = 0 then NaN else Inf (a < 0)) else to_dbl (a / b))"
| "ddiv (Inf s) (Fin b) = Inf (s \<noteq> (b < 0))"
| "ddiv (Fin _) (Inf _) = Fin 0"
| "ddiv _ _ = NaN"

fun dless :: "double \<Rightarrow> double \<Rightarrow> bool" where
  "dless (Fin a) (Fin b) = (a < b)"
| "dless (Fin _) (Inf t) = (\<not> t)"
| "dless (Inf s) (Fin _) = s"
| "dless (Inf s) (Inf t) = (s \<and> \<not> t)"
| "dless _ _ = False"

fun dle :: "double \<Rightarrow> double \<Rightarrow> bool" where
  "dle (Fin a) (Fin b) = (a \<le> b)"
| "dle (Fin _) (Inf t) = (\<not> t)"
| "dle (Inf s) (Fin _) = s"
| "dle (Inf s) (Inf t) = (s \<or> \<not> t)"
| "dle _ _ = False"

text \<open>The operators of the source, on the classes that only give syntax.\<close>

instantiation double :: "{zero, one, plus, minus, uminus, times, inverse, ord}"
begin

definition "0 = Fin 0"
definition "1 = Fin 1"
definition "x + y = dadd x y"
definition "- x = dneg x"
definition "x - y = dadd x (dneg y)"
definition "x * y = dmul x y"
definition "x div y = ddiv x y"
definition "inverse x = ddiv (Fin 1) x"
definition "x < y = dless x y"
definition "x \<le> y = dle x y"

instance ..

end

lemmas double_ops =
  zero_double_def one_double_def plus_double_def uminus_double_def minus_double_def
  times_double_def divide_double_def inverse_double_def less_double_def less_eq_double_def

section \<open>Conversions\<close>

definition of_u64 :: "u64 \<Rightarrow> double" where
  "of_u64 w = to_dbl (of_int (uint w))"

definition of_cint :: "int \<Rightarrow> double" where
  "of_cint n = to_dbl (of_int n)"

definition trunc_rat :: "rat \<Rightarrow> int" where
  "trunc_rat r = (if 0 \<le> r then \<lfloor>r\<rfloor> else \<lceil>r\<rceil>)"

text \<open>A conversion whose truncated value does not fit the integer type is undefined.\<close>

fun to_u64 :: "double \<Rightarrow> stop + u64" where
  "to_u64 (Fin r) =
     (let t = trunc_rat r in if 0 \<le> t \<and> t < 2 ^ 64 then Inr (of_int t) else Inl Undefined)"
| "to_u64 _ = Inl Undefined"

fun to_cint :: "double \<Rightarrow> stop + int" where
  "to_cint (Fin r) =
     (let t = trunc_rat r in if - (2 ^ 31) \<le> t \<and> t < 2 ^ 31 then Inr t else Inl Undefined)"
| "to_cint _ = Inl Undefined"

section \<open>Bounds through the operations\<close>

lemma to_dbl_Fin:
  assumes "\<bar>x\<bar> \<le> 2 ^ 100"
  shows "to_dbl x = Fin (rnd x)"
proof -
  define B :: rat where "B = 2 ^ 100"
  have p: "rnd B = B"
    using rnd_multiple [of 1 100] by (simp add: B_def)
  have "rnd x \<le> rnd B" using assms by (intro rnd_mono) (simp add: B_def)
  moreover have "rnd (- B) \<le> rnd x" using assms by (intro rnd_mono) (simp add: B_def)
  moreover have "B < 2 ^ 1024" unfolding B_def by (intro power_strict_increasing) simp_all
  ultimately show ?thesis by (simp add: to_dbl_def Let_def p rnd_minus del: power_numeral)
qed

declare to_dbl_Fin [dbl_eval]

lemma to_dbl_int:
  assumes "\<bar>n\<bar> \<le> 2 ^ 53"
  shows "to_dbl (of_int n) = Fin (of_int n)"
proof -
  have "of_int \<bar>n\<bar> \<le> (of_int (2 ^ 53) :: rat)" using assms by (simp only: of_int_le_iff)
  also have "\<dots> \<le> 2 ^ 100" by simp
  finally show ?thesis using rnd_of_int [OF assms] by (simp add: to_dbl_Fin)
qed

lemma of_u64_small: "uint w \<le> 2 ^ 53 \<Longrightarrow> of_u64 w = Fin (of_int (uint w))"
  unfolding of_u64_def by (rule to_dbl_int) simp

lemma to_u64_nonneg:
  "0 \<le> r \<Longrightarrow> r < 2 ^ 64 \<Longrightarrow> to_u64 (Fin r) = Inr (of_int \<lfloor>r\<rfloor>)"
proof -
  assume r: "0 \<le> r" "r < 2 ^ 64"
  then have "\<lfloor>r\<rfloor> < 2 ^ 64" by (simp add: floor_less_iff)
  with r show ?thesis by (simp add: trunc_rat_def)
qed

end
