(* ===== verification/Cstdlib.thy ===== *)
theory Cstdlib
  imports Doubles
begin

text \<open>
  The parts of the C++ standard library the program calls on strings: character
  classes of the C locale, \<open>std::to_string\<close> of an unsigned value, and the parsers
  \<open>std::stoi\<close>, \<open>std::stoull\<close> and \<open>std::stod\<close> with their exceptions.  The parsers
  skip leading white space and ignore what follows the longest numeral, as
  \<open>strtol\<close>, \<open>strtoull\<close> and \<open>strtod\<close> do.  The lemmas give the round trip between
  \<open>to_string\<close> and reading a numeral back, and the order of equally long numerals.
\<close>

section \<open>Characters\<close>

abbreviation nl :: char where "nl \<equiv> CHR 0x0A"

definition cisspace :: "char \<Rightarrow> bool" where
  "cisspace c \<longleftrightarrow> c \<in> {CHR '' '', CHR 0x09, CHR 0x0A, CHR 0x0B, CHR 0x0C, CHR 0x0D}"

definition ctolower :: "char \<Rightarrow> char" where
  "ctolower c =
     (let n = (of_char c :: nat) in if 65 \<le> n \<and> n \<le> 90 then char_of (n + 32) else c)"

definition is_digit :: "char \<Rightarrow> bool" where
  "is_digit c \<longleftrightarrow> (48::nat) \<le> of_char c \<and> of_char c \<le> (57::nat)"

definition digit_char :: "nat \<Rightarrow> char" where
  "digit_char d = char_of (48 + d)"

definition digit_val :: "char \<Rightarrow> nat" where
  "digit_val c = of_char c - 48"

lemma of_char_digit_char: "d < 10 \<Longrightarrow> of_char (digit_char d) = (48 + d :: nat)"
  by (simp add: digit_char_def of_char_of)

lemma is_digit_digit_char [simp]: "d < 10 \<Longrightarrow> is_digit (digit_char d)"
  by (simp add: is_digit_def of_char_digit_char)

lemma digit_val_digit_char [simp]: "d < 10 \<Longrightarrow> digit_val (digit_char d) = d"
  by (simp add: digit_val_def of_char_digit_char)

section \<open>\<open>std::to_string\<close>\<close>

fun dec_string :: "nat \<Rightarrow> string" where
  "dec_string n =
     (if n < 10 then [digit_char n] else dec_string (n div 10) @ [digit_char (n mod 10)])"

declare dec_string.simps [simp del]

definition nat_of_dec :: "string \<Rightarrow> nat" where
  "nat_of_dec s = foldl (\<lambda>a c. 10 * a + digit_val c) 0 s"

lemma nat_of_dec_Nil [simp]: "nat_of_dec [] = 0"
  by (simp add: nat_of_dec_def)

lemma nat_of_dec_snoc [simp]: "nat_of_dec (s @ [c]) = 10 * nat_of_dec s + digit_val c"
  by (simp add: nat_of_dec_def)

lemma nat_of_dec_zeros: "nat_of_dec (replicate n (digit_char 0) @ s) = nat_of_dec s"
proof (induction s rule: rev_induct)
  case Nil
  show ?case by (induction n) (simp_all add: replicate_append_same [symmetric])
next
  case (snoc c s)
  then show ?case by (simp flip: append_assoc)
qed

lemma nat_of_dec_dec_string [simp]: "nat_of_dec (dec_string n) = n"
proof (induction n rule: dec_string.induct)
  case (1 n)
  show ?case
  proof (cases "n < 10")
    case True
    then show ?thesis
      using nat_of_dec_snoc [of "[]" "digit_char n"] by (simp add: dec_string.simps)
  next
    case False
    with 1 show ?thesis by (subst dec_string.simps) simp
  qed
qed

lemma dec_string_inj: "dec_string m = dec_string n \<longleftrightarrow> m = n"
  by (metis nat_of_dec_dec_string)

lemma dec_string_digits: "c \<in> set (dec_string n) \<Longrightarrow> is_digit c"
proof (induction n rule: dec_string.induct)
  case (1 n)
  then show ?case
    by (subst (asm) (2) dec_string.simps) (auto split: if_splits)
qed

lemma dec_string_nonempty [simp]: "dec_string n \<noteq> []"
  by (subst dec_string.simps) simp

lemma length_dec_string_le: "n < 10 ^ k \<Longrightarrow> 0 < k \<Longrightarrow> length (dec_string n) \<le> k"
proof (induction n arbitrary: k rule: dec_string.induct)
  case (1 n)
  show ?case
  proof (cases "n < 10")
    case True
    then show ?thesis using 1 by (simp add: dec_string.simps)
  next
    case False
    then obtain j where j: "k = Suc j" "0 < j"
      using 1 by (cases k; cases "k - 1") auto
    have "n div 10 < 10 ^ j" using 1 j by (simp add: div_less_iff_less_mult)
    with 1 False j show ?thesis by (subst dec_string.simps) simp
  qed
qed

section \<open>Numeric order and string order\<close>

text \<open>Byte-wise order of strings, the order of \<open>std::string::compare\<close> on ASCII text.\<close>

fun str_less :: "string \<Rightarrow> string \<Rightarrow> bool" where
  "str_less _ [] = False"
| "str_less [] (_ # _) = True"
| "str_less (a # s) (b # t) =
     ((of_char a :: nat) < of_char b \<or> (a = b \<and> str_less s t))"

lemma str_less_prefix [simp]: "str_less (p @ s) (p @ t) \<longleftrightarrow> str_less s t"
  by (induction p) simp_all

lemma foldl_dec: "foldl (\<lambda>a c. 10 * a + digit_val c) a s = a * 10 ^ length s + nat_of_dec s"
proof (induction s rule: rev_induct)
  case (snoc c s)
  then show ?case by (simp add: algebra_simps)
qed simp

lemma nat_of_dec_Cons: "nat_of_dec (c # s) = digit_val c * 10 ^ length s + nat_of_dec s"
  using foldl_dec [of "digit_val c" s] by (simp add: nat_of_dec_def)

lemma nat_of_dec_less:
  "(\<And>c. c \<in> set s \<Longrightarrow> is_digit c) \<Longrightarrow> nat_of_dec s < 10 ^ length s"
proof (induction s)
  case (Cons c s)
  then have "digit_val c \<le> 9" and "nat_of_dec s < 10 ^ length s"
    by (force simp: is_digit_def digit_val_def, simp)
  then have "digit_val c * 10 ^ length s + nat_of_dec s < 9 * 10 ^ length s + 10 ^ length s"
    by (meson add_le_less_mono mult_le_mono1)
  then show ?case by (simp add: nat_of_dec_Cons)
qed simp

lemma str_less_numerals:
  assumes "length s = length t"
    and "\<And>c. c \<in> set s \<Longrightarrow> is_digit c" "\<And>c. c \<in> set t \<Longrightarrow> is_digit c"
  shows "str_less s t \<longleftrightarrow> nat_of_dec s < nat_of_dec t"
  using assms
proof (induction s t rule: list_induct2)
  case (Cons a s b t)
  have da: "of_char a = 48 + digit_val a" and db: "of_char b = 48 + digit_val b"
    using Cons.prems by (force simp: is_digit_def digit_val_def)+
  have eq: "a = b \<longleftrightarrow> digit_val a = digit_val b"
    using da db by (metis of_char_eq_iff)
  have ih: "str_less s t \<longleftrightarrow> nat_of_dec s < nat_of_dec t" using Cons by simp
  have bs: "nat_of_dec s < 10 ^ length s" and bt: "nat_of_dec t < 10 ^ length s"
    using nat_of_dec_less [of s] nat_of_dec_less [of t] Cons by simp_all
  consider "digit_val a < digit_val b" | "digit_val a = digit_val b" | "digit_val b < digit_val a"
    by linarith
  then show ?case
  proof cases
    case 1
    then have "(digit_val a + 1) * 10 ^ length s \<le> digit_val b * 10 ^ length s"
      by (intro mult_le_mono1) simp
    with 1 bs Cons.hyps show ?thesis by (simp add: da db nat_of_dec_Cons)
  next
    case 2
    with eq ih Cons.hyps show ?thesis by (simp add: da db nat_of_dec_Cons)
  next
    case 3
    then have "(digit_val b + 1) * 10 ^ length s \<le> digit_val a * 10 ^ length s"
      by (intro mult_le_mono1) simp
    with 3 bt eq Cons.hyps show ?thesis by (simp add: da db nat_of_dec_Cons)
  qed
qed simp

section \<open>\<open>std::stoi\<close> and \<open>std::stoull\<close>\<close>

text \<open>The sign (true for minus) and the rest.\<close>

fun parse_sign :: "string \<Rightarrow> bool \<times> string" where
  "parse_sign [] = (False, [])"
| "parse_sign (c # s) =
     (if c = CHR ''-'' then (True, s) else if c = CHR ''+'' then (False, s)
      else (False, c # s))"

definition int_min :: int where "int_min = - 2147483648"
definition int_max :: int where "int_max = 2147483647"

definition stoi :: "string \<Rightarrow> stop + int" where
  "stoi str =
     (let (neg, r) = parse_sign (dropWhile cisspace str); ds = takeWhile is_digit r;
          v = (if neg then - int (nat_of_dec ds) else int (nat_of_dec ds))
      in if ds = [] then Inl (Throw (Invalid_Argument ''stoi''))
         else if int_min \<le> v \<and> v \<le> int_max then Inr v
         else Inl (Throw (Out_Of_Range ''stoi'')))"

text \<open>A minus sign negates modulo \<open>2 ^ 64\<close>; only the magnitude is checked.\<close>

definition stoull :: "string \<Rightarrow> stop + u64" where
  "stoull str =
     (let (neg, r) = parse_sign (dropWhile cisspace str); ds = takeWhile is_digit r;
          v = nat_of_dec ds
      in if ds = [] then Inl (Throw (Invalid_Argument ''stoull''))
         else if v < 2 ^ 64 then Inr (if neg then - of_nat v else of_nat v)
         else Inl (Throw (Out_Of_Range ''stoull'')))"

lemma stoi_range: "stoi s = Inr v \<Longrightarrow> int_min \<le> v \<and> v \<le> int_max"
  by (auto simp: stoi_def Let_def split: if_splits prod.splits)

lemma takeWhile_dec_string [simp]: "takeWhile is_digit (dec_string n) = dec_string n"
  using dec_string_digits by (simp add: takeWhile_eq_all_conv)

lemma digit_not_special:
  assumes "is_digit c"
  shows "\<not> cisspace c" "c \<noteq> CHR ''-''" "c \<noteq> CHR ''+''"
  using assms by (auto simp: is_digit_def cisspace_def)

lemma stoi_dec_string:
  assumes "n \<le> 2147483647"
  shows "stoi (dec_string n) = Inr (int n)"
proof -
  obtain c s where cs: "dec_string n = c # s"
    using dec_string_nonempty by (meson list.exhaust)
  then have "is_digit c" using dec_string_digits [of c n] by simp
  then have "parse_sign (dropWhile cisspace (dec_string n)) = (False, dec_string n)"
    using digit_not_special by (simp add: cs)
  with assms show ?thesis
    by (simp add: stoi_def int_min_def int_max_def)
qed

section \<open>\<open>std::stod\<close>\<close>

text \<open>
  The grammar of \<open>strtod\<close> in the C locale: decimal and hexadecimal numerals with
  optional fraction and exponent, \<open>inf\<close>, \<open>infinity\<close> and \<open>nan\<close> in any case.  The
  result is the correctly rounded value.  \<open>std::stod\<close> throws \<open>out_of_range\<close> on
  overflow and on an inexact result below the normal range.
\<close>

definition is_xdigit :: "char \<Rightarrow> bool" where
  "is_xdigit c \<longleftrightarrow> is_digit c \<or> c \<in> set ''abcdefABCDEF''"

definition xdigit_val :: "char \<Rightarrow> nat" where
  "xdigit_val c = (if is_digit c then digit_val c else of_char (ctolower c) - 87)"

definition nat_of_hex :: "string \<Rightarrow> nat" where
  "nat_of_hex s = foldl (\<lambda>a c. 16 * a + xdigit_val c) 0 s"

text \<open>Digits before and after an optional point, and the rest.\<close>

definition split_mantissa :: "(char \<Rightarrow> bool) \<Rightarrow> string \<Rightarrow> string \<times> string \<times> string" where
  "split_mantissa isd s =
     (let ip = takeWhile isd s; r = dropWhile isd s
      in case r of
           c # r' \<Rightarrow> if c = CHR ''.'' then (ip, takeWhile isd r', dropWhile isd r') else (ip, [], r)
         | [] \<Rightarrow> (ip, [], []))"

text \<open>An exponent introduced by one of \<open>marks\<close>; 0 when there is none.\<close>

definition parse_exponent :: "string \<Rightarrow> string \<Rightarrow> int" where
  "parse_exponent marks s =
     (case s of
        [] \<Rightarrow> 0
      | c # r \<Rightarrow>
          if c \<in> set marks then
            (let (neg, r') = parse_sign r; v = int (nat_of_dec (takeWhile is_digit r'))
             in if neg then - v else v)
          else 0)"

definition parse_decimal :: "string \<Rightarrow> rat option" where
  "parse_decimal s =
     (let (ip, fp, r) = split_mantissa is_digit s
      in if ip = [] \<and> fp = [] then None
         else Some (of_nat (nat_of_dec (ip @ fp))
                * 10 powi (parse_exponent ''eE'' r - int (length fp))))"

definition parse_hexadecimal :: "string \<Rightarrow> rat option" where
  "parse_hexadecimal s =
     (let (ip, fp, r) = split_mantissa is_xdigit s
      in if ip = [] \<and> fp = [] then None
         else Some (of_nat (nat_of_hex (ip @ fp))
                * 2 powi (parse_exponent ''pP'' r - 4 * int (length fp))))"

definition round_parsed :: "rat \<Rightarrow> stop + double" where
  "round_parsed v =
     (case to_dbl v of
        Fin r \<Rightarrow>
          if v \<noteq> 0 \<and> (r = 0 \<or> ilog2 \<bar>r\<bar> < -1022) \<and> r \<noteq> v
          then Inl (Throw (Out_Of_Range ''stod'')) else Inr (Fin r)
      | _ \<Rightarrow> Inl (Throw (Out_Of_Range ''stod'')))"

definition stod :: "string \<Rightarrow> stop + double" where
  "stod str =
     (let (neg, r) = parse_sign (dropWhile cisspace str); low = map ctolower r;
          sgned = (\<lambda>v. if neg then - v else v)
      in if take 3 low = ''inf'' then Inr (Inf neg)
         else if take 3 low = ''nan'' then Inr NaN
         else
           (case (if take 2 low = ''0x'' then parse_hexadecimal (drop 2 r) else None) of
              Some v \<Rightarrow> round_parsed (sgned v)
            | None \<Rightarrow>
                (case parse_decimal r of
                   Some v \<Rightarrow> round_parsed (sgned v)
                 | None \<Rightarrow> Inl (Throw (Invalid_Argument ''stod'')))))"

text \<open>Evaluation: a plain numeral is parsed, then rounded.\<close>

lemma stod_plain:
  assumes "dropWhile cisspace s = s" "parse_sign s = (False, s)"
    and "take 3 (map ctolower s) \<notin> {''inf'', ''nan''}" "take 2 (map ctolower s) \<noteq> ''0x''"
    and "parse_decimal s = Some v"
  shows "stod s = round_parsed v"
  using assms by (simp add: stod_def)

lemma ilog2_num:
  "ilog2 (numeral a / numeral b) = ilog2_frac (numeral a) (numeral b)"
  "ilog2 (1 / numeral b) = ilog2_frac 1 (numeral b)"
  "ilog2 (numeral a) = ilog2_frac (numeral a) 1"
  "ilog2 1 = ilog2_frac 1 1"
  using ilog2_frac [of "numeral a" "numeral b"] ilog2_frac [of 1 "numeral b"]
    ilog2_frac [of "numeral a" 1] ilog2_frac [of 1 1] by simp_all

lemma parse_decimals:
  "parse_decimal ''0.95'' = Some (95 / 100)" "parse_decimal ''0.05'' = Some (5 / 100)"
  "parse_decimal ''0.0'' = Some 0" "parse_decimal ''0.1'' = Some (1 / 10)"
  "parse_decimal ''0.2'' = Some (2 / 10)" "parse_decimal ''0.4'' = Some (4 / 10)"
  "parse_decimal ''0.5'' = Some (5 / 10)" "parse_decimal ''0.7'' = Some (7 / 10)"
  "parse_decimal ''0'' = Some 0" "parse_decimal ''1'' = Some 1"
  by code_simp+

lemma stod_rounds:
  "stod ''0.95'' = round_parsed (95 / 100)" "stod ''0.05'' = round_parsed (5 / 100)"
  "stod ''0.0'' = round_parsed 0" "stod ''0.1'' = round_parsed (1 / 10)"
  "stod ''0.2'' = round_parsed (2 / 10)" "stod ''0.4'' = round_parsed (4 / 10)"
  "stod ''0.5'' = round_parsed (5 / 10)" "stod ''0.7'' = round_parsed (7 / 10)"
  "stod ''0'' = round_parsed 0" "stod ''1'' = round_parsed 1"
  by (rule stod_plain [OF _ _ _ _ parse_decimals(1)] stod_plain [OF _ _ _ _ parse_decimals(2)]
      stod_plain [OF _ _ _ _ parse_decimals(3)] stod_plain [OF _ _ _ _ parse_decimals(4)]
      stod_plain [OF _ _ _ _ parse_decimals(5)] stod_plain [OF _ _ _ _ parse_decimals(6)]
      stod_plain [OF _ _ _ _ parse_decimals(7)] stod_plain [OF _ _ _ _ parse_decimals(8)]
      stod_plain [OF _ _ _ _ parse_decimals(9)] stod_plain [OF _ _ _ _ parse_decimals(10)];
      code_simp)+

lemma rnd_zero: "rnd 0 = 0"
  by (simp add: rnd_def)

lemma stod_literals:
  "stod ''0.95'' = Inr (to_dbl (95 / 100))" "stod ''0.05'' = Inr (to_dbl (5 / 100))"
  "stod ''0.0'' = Inr (Fin 0)" "stod ''0.1'' = Inr (to_dbl (1 / 10))"
  "stod ''0.2'' = Inr (to_dbl (2 / 10))" "stod ''0.4'' = Inr (to_dbl (4 / 10))"
  "stod ''0.5'' = Inr (to_dbl (5 / 10))" "stod ''0.7'' = Inr (to_dbl (7 / 10))"
  "stod ''0'' = Inr (Fin 0)" "stod ''1'' = Inr (to_dbl 1)"
  unfolding stod_rounds by (simp_all add: round_parsed_def dbl_eval ilog2_num rnd_zero rnd_1)

lemma stoi_literals:
  "stoi ''0'' = Inr 0" "stoi ''1'' = Inr 1" "stoi ''3'' = Inr 3" "stoi ''5'' = Inr 5"
  "stoi ''10'' = Inr 10" "stoi ''100'' = Inr 100" "stoi ''1000'' = Inr 1000" "stoi ''-1'' = Inr (-1)"
  by (simp_all add: stoi_def cisspace_def is_digit_def digit_val_def nat_of_dec_def int_min_def
      int_max_def)

end
