(* ===== verification/Utils.thy ===== *)
theory Utils
  imports Cstdlib
begin

unbundle bit_operations_syntax

text \<open>
  \<open>core/utils.h\<close>: the FNV hash of a key number, the random draws, the parser of
  boolean property values and \<open>Trim\<close>.  The sources of randomness of the standard
  library are arbitrary sequences, held with \<open>std::pow\<close> and the \<open>NDEBUG\<close> switch
  in the record \<open>env\<close>; the positions reached in the two process-wide sequences
  are the mutable record \<open>rng\<close>.
\<close>

section \<open>The environment\<close>

text \<open>
  \<open>canon n\<close> is what the \<open>n\<close>-th call of \<open>RandomDouble\<close> draws, \<open>crand n\<close> the
  \<open>n\<close>-th result of \<open>rand()\<close>, and \<open>mt64 n\<close> the \<open>n\<close>-th output of a default-seeded
  \<open>std::mt19937_64\<close> (each engine object starts the same sequence).
\<close>

record env =
  ndebug :: bool
  pw :: "double \<Rightarrow> double \<Rightarrow> double"
  canon :: "nat \<Rightarrow> double"
  crand :: "nat \<Rightarrow> nat"
  mt64 :: "nat \<Rightarrow> u64"

record rng =
  canon_pos :: nat
  crand_pos :: nat

text \<open>
  What \<open>std::uniform_real_distribution<double>(0.0, 1.0)\<close> promises of a draw: a
  representable value of the half-open unit interval.
\<close>

definition unit_draw :: "double \<Rightarrow> bool" where
  "unit_draw d = (case d of Fin r \<Rightarrow> 0 \<le> r \<and> r < 1 \<and> rnd r = r | _ \<Rightarrow> False)"

definition draws_ok :: "env \<Rightarrow> bool" where
  "draws_ok E \<longleftrightarrow> (\<forall>n. unit_draw (canon E n))"

section \<open>The FNV hash\<close>

definition kFNVOffsetBasis64 :: u64 where "kFNVOffsetBasis64 = 0xCBF29CE484222325"
definition kFNVPrime64 :: u64 where "kFNVPrime64 = 1099511628211"

text \<open>One round of the loop, on the pair of \<open>hash\<close> and what is left of \<open>val\<close>.\<close>

fun fnv_round :: "u64 \<times> u64 \<Rightarrow> u64 \<times> u64" where
  "fnv_round (hash, val) =
     (let octet = val AND 0x00ff; val = drop_bit 8 val; hash = hash XOR octet;
          hash = hash * kFNVPrime64
      in (hash, val))"

fun fnv_loop :: "nat \<Rightarrow> u64 \<times> u64 \<Rightarrow> u64 \<times> u64" where
  "fnv_loop 0 s = s"
| "fnv_loop (Suc n) s = fnv_loop n (fnv_round s)"

definition FNVHash64 :: "u64 \<Rightarrow> u64" where
  "FNVHash64 val = fst (fnv_loop 8 (kFNVOffsetBasis64, val))"

definition Hash :: "u64 \<Rightarrow> u64" where
  "Hash val = FNVHash64 val"

section \<open>Random draws\<close>

definition RandomDouble :: "env \<Rightarrow> rng \<Rightarrow> double \<times> rng" where
  "RandomDouble E g = (canon E (canon_pos g), g\<lparr>canon_pos := Suc (canon_pos g)\<rparr>)"

definition RandomPrintChar :: "env \<Rightarrow> rng \<Rightarrow> char \<times> rng" where
  "RandomPrintChar E g =
     (char_of (crand E (crand_pos g) mod 94 + 33), g\<lparr>crand_pos := Suc (crand_pos g)\<rparr>)"

section \<open>Strings\<close>

definition StrToBool :: "string \<Rightarrow> stop + bool" where
  "StrToBool str0 =
     (let str = map ctolower str0
      in if str = ''true'' \<or> str = ''1'' then Inr True
         else if str = ''false'' \<or> str = ''0'' then Inr False
         else Inl (Throw (Utils_Exception (''Invalid bool string: '' @ str))))"

definition Trim :: "string \<Rightarrow> string" where
  "Trim str =
     (let front = dropWhile cisspace str in rev (dropWhile cisspace (rev front)))"

section \<open>Lemmas: the hash\<close>

text \<open>The reference FNV-1a: fold over the octets of the value, least significant first.\<close>

definition octet :: "nat \<Rightarrow> u64 \<Rightarrow> u64" where
  "octet i val = drop_bit (8 * i) val AND 255"

definition fnv1a_step :: "u64 \<Rightarrow> u64 \<Rightarrow> u64" where
  "fnv1a_step h b = (h XOR b) * 0x100000001B3"

definition fnv1a :: "u64 list \<Rightarrow> u64" where
  "fnv1a bs = foldl fnv1a_step 14695981039346656037 bs"

lemma fnv_round_step: "fnv_round (h, v) = (fnv1a_step h (octet 0 v), drop_bit 8 v)"
  by (simp add: octet_def fnv1a_step_def kFNVPrime64_def Let_def)

lemma fnv_loop_fold:
  "fst (fnv_loop n (h, v)) = foldl fnv1a_step h (map (\<lambda>i. octet i v) [0..<n])"
proof (induction n arbitrary: h v)
  case (Suc n)
  have "octet i (drop_bit 8 v) = octet (Suc i) v" for i
    by (simp add: octet_def add.commute)
  then have sh: "map (\<lambda>i. octet i (drop_bit 8 v)) [0..<n] = map (\<lambda>i. octet i v) [1..<Suc n]"
    by (simp flip: map_Suc_upt del: upt_Suc)
  have "fst (fnv_loop (Suc n) (h, v)) =
      foldl fnv1a_step (fnv1a_step h (octet 0 v)) (map (\<lambda>i. octet i (drop_bit 8 v)) [0..<n])"
    by (simp add: Suc fnv_round_step del: fnv_round.simps)
  then show ?case by (simp only: sh upt_conv_Cons [of 0 "Suc n"]) simp
qed simp

lemma octets_eq_imp:
  assumes "\<And>i. i < 8 \<Longrightarrow> octet i a = octet i b"
  shows "a = b"
proof (rule bit_word_eqI)
  fix n assume n: "n < LENGTH(64)"
  then have "octet (n div 8) a = octet (n div 8) b"
    by (intro assms) simp
  then have "bit (octet (n div 8) a) (n mod 8) = bit (octet (n div 8) b) (n mod 8)"
    by simp
  moreover have "bit (octet (n div 8) c) (n mod 8) = bit c n" for c
  proof -
    have m: "(255::u64) = mask 8" by (simp add: mask_eq_exp_minus_1)
    have "bit (octet (n div 8) c) (n mod 8) = bit c (8 * (n div 8) + n mod 8)"
      using n less_le_trans [of "n mod 8" 8 64]
      by (simp add: octet_def m bit_and_iff bit_mask_iff bit_drop_bit_eq)
    then show ?thesis by simp
  qed
  ultimately show "bit a n = bit b n" by simp
qed

lemma fnv_prime_cancel: "(x :: u64) * 0x100000001B3 = y * 0x100000001B3 \<longleftrightarrow> x = y"
proof
  assume "x * 0x100000001B3 = y * 0x100000001B3"
  then have "x * (0x100000001B3 * 0xCE965057AFF6957B) = y * (0x100000001B3 * 0xCE965057AFF6957B)"
    by (simp only: mult.assoc [symmetric])
  moreover have "(0x100000001B3 :: u64) * 0xCE965057AFF6957B = 1" by simp
  ultimately show "x = y" by (simp only: mult_1_right)
qed simp

lemma xor_cancel_left: "(h :: u64) XOR a = h XOR b \<longleftrightarrow> a = b"
proof
  assume "h XOR a = h XOR b"
  then have "h XOR (h XOR a) = h XOR (h XOR b)" by simp
  then show "a = b" by (simp flip: xor.assoc)
qed simp

lemma fnv1a_step_left: "fnv1a_step g b = fnv1a_step h b \<longleftrightarrow> g = h"
  using xor_cancel_left [of b g h]
  by (simp add: fnv1a_step_def fnv_prime_cancel xor.commute)

lemma fnv1a_step_right: "fnv1a_step h a = fnv1a_step h b \<longleftrightarrow> a = b"
  by (simp add: fnv1a_step_def fnv_prime_cancel xor_cancel_left)

lemma fnv1a_fold_left: "foldl fnv1a_step g bs = foldl fnv1a_step h bs \<longleftrightarrow> g = h"
  by (induction bs arbitrary: g h) (simp_all add: fnv1a_step_left)

lemma fnv1a_one_octet:
  "foldl fnv1a_step h (xs @ a # ys) = foldl fnv1a_step h (xs @ b # ys) \<longleftrightarrow> a = b"
  by (simp add: fnv1a_fold_left fnv1a_step_right)

text \<open>
  C38: the rotating loop of \<open>FNVHash64\<close> computes the published FNV-1a hash, the fold of
  "xor the octet, multiply by the prime" over the eight octets of the value, least
  significant first.
\<close>

theorem FNVHash64_fnv1a: "FNVHash64 val = fnv1a (map (\<lambda>i. octet i val) [0..<8])"
  by (simp only: FNVHash64_def fnv_loop_fold fnv1a_def kFNVOffsetBasis64_def)

lemma octets_split:
  "i < 8 \<Longrightarrow> map (\<lambda>j. octet j v) [0..<8] =
     map (\<lambda>j. octet j v) [0..<i] @ octet i v # map (\<lambda>j. octet j v) [Suc i..<8]"
  using upt_add_eq_append [of 0 i "8 - i"] upt_conv_Cons [of i 8] by simp

text \<open>
  key numbers that differ in a single octet never collide under the hash.  In
  particular the hashed names of 256 consecutive key numbers that share their upper
  octets are pairwise different.
\<close>

theorem FNVHash64_one_octet:
  assumes "a \<noteq> b" "i < 8" "\<And>j. j < 8 \<Longrightarrow> j \<noteq> i \<Longrightarrow> octet j a = octet j b"
  shows "FNVHash64 a \<noteq> FNVHash64 b"
proof -
  have "octet i a \<noteq> octet i b"
    using octets_eq_imp [of a b] assms by metis
  moreover have "map (\<lambda>j. octet j a) [0..<i] = map (\<lambda>j. octet j b) [0..<i]"
    and "map (\<lambda>j. octet j a) [Suc i..<8] = map (\<lambda>j. octet j b) [Suc i..<8]"
    using assms(2,3) by simp_all
  ultimately show ?thesis
    unfolding FNVHash64_def fnv_loop_fold octets_split [OF assms(2)]
    by (simp only: fnv1a_one_octet not_False_eq_True)
qed

theorem FNVHash64_one_octet_witness: "FNVHash64 7 \<noteq> FNVHash64 9"
proof (rule FNVHash64_one_octet [where i = 0])
  fix j :: nat assume "j < 8" "j \<noteq> 0"
  then have "j = 1 \<or> j = 2 \<or> j = 3 \<or> j = 4 \<or> j = 5 \<or> j = 6 \<or> j = 7" by linarith
  then show "octet j 7 = octet j 9" by (elim disjE) (simp_all add: octet_def)
qed simp_all

section \<open>Lemmas: draws and strings\<close>

lemma unit_draw_Fin:
  "unit_draw d \<longleftrightarrow> (\<exists>r. d = Fin r \<and> 0 \<le> r \<and> r < 1 \<and> rnd r = r)"
  by (auto simp: unit_draw_def split: double.splits)

text \<open>A representable value below 1 is at most the predecessor of 1.\<close>

lemma rnd_below_1:
  assumes "rnd r = r" "r < 1" "0 \<le> r"
  shows "r \<le> 1 - 1 / 2 ^ 53"
proof (cases "1 / 2 < r")
  case True
  then have "ilog2 r = -1" using assms(2) by (intro ilog2_eqI) simp_all
  then have "step_exp r = -53" using assms(3) by (simp add: step_exp_def)
  then have "r = of_int (rne (r / 2 powi (-53))) * 2 powi (-53)"
    using assms(1) True by (simp add: rnd_def)
  then obtain n where n: "r = of_int n / 2 ^ 53"
    by (simp add: power_int_minus divide_inverse del: power_numeral)
  then have "of_int n < (of_int (2 ^ 53) :: rat)" using assms(2) by simp
  then have "n < 2 ^ 53" by (simp only: of_int_less_iff)
  then have "n \<le> 2 ^ 53 - 1" by simp
  then have "of_int n \<le> (of_int (2 ^ 53 - 1) :: rat)" by (simp only: of_int_le_iff)
  then show ?thesis by (simp add: n)
qed simp

lemma unit_draw_le: "unit_draw d \<Longrightarrow> \<exists>r. d = Fin r \<and> 0 \<le> r \<and> r \<le> 1 - 1 / 2 ^ 53"
  using rnd_below_1 by (auto simp: unit_draw_Fin)

lemma RandomDouble_eq [simp]:
  "RandomDouble E g = (d, g') \<longleftrightarrow> d = canon E (canon_pos g) \<and> g' = g\<lparr>canon_pos := Suc (canon_pos g)\<rparr>"
  by (auto simp: RandomDouble_def)

lemma ctolower_idem [simp]: "ctolower (ctolower c) = ctolower c"
proof (cases "65 \<le> (of_char c :: nat) \<and> of_char c \<le> (90::nat)")
  case True
  then have "of_char (char_of (of_char c + 32 :: nat)) = (of_char c + 32 :: nat)"
    by (simp add: of_char_of)
  with True show ?thesis by (simp add: ctolower_def Let_def)
qed (auto simp: ctolower_def Let_def)

lemma StrToBool_lower: "StrToBool (map ctolower s) = StrToBool s"
  by (simp add: StrToBool_def Let_def comp_def)

lemma Trim_dropWhile_rev: "Trim s = rev (dropWhile cisspace (rev (dropWhile cisspace s)))"
  by (simp add: Trim_def Let_def)

lemma Trim_no_space:
  assumes "s \<noteq> [] \<Longrightarrow> \<not> cisspace (hd s) \<and> \<not> cisspace (last s)"
  shows "Trim s = s"
  using assms
  by (cases "s = []") (simp_all add: Trim_dropWhile_rev dropWhile_eq_self_iff [THEN iffD2] hd_rev)

text \<open>
  \<open>Trim\<close> removes exactly the white space at both ends: the argument is its result
  between two runs of white space, and a non-empty result neither starts nor ends
  with white space.
\<close>

theorem Trim_spec:
  "\<exists>pre post. s = pre @ Trim s @ post \<and> list_all cisspace pre \<and> list_all cisspace post
     \<and> (Trim s = [] \<or> \<not> cisspace (hd (Trim s)) \<and> \<not> cisspace (last (Trim s)))"
proof -
  define f where "f = dropWhile cisspace s"
  have s: "s = takeWhile cisspace s @ f" by (simp add: f_def)
  have "rev f = takeWhile cisspace (rev f) @ dropWhile cisspace (rev f)" by simp
  then have f: "f = Trim s @ rev (takeWhile cisspace (rev f))"
    by (metis Trim_dropWhile_rev f_def rev_append rev_rev_ident)
  have l: "Trim s \<noteq> [] \<Longrightarrow> \<not> cisspace (last (Trim s))"
    using hd_dropWhile [of cisspace "rev f"] by (simp add: Trim_dropWhile_rev last_rev flip: f_def)
  have h: "\<not> cisspace (hd (Trim s))" if ne: "Trim s \<noteq> []"
  proof -
    have "f \<noteq> []" using f ne by fastforce
    then have "\<not> cisspace (hd f)" unfolding f_def by (rule hd_dropWhile)
    moreover have "hd f = hd (Trim s)" using f ne by (metis hd_append2)
    ultimately show ?thesis by simp
  qed
  have "list_all cisspace (takeWhile cisspace s)"
    and "list_all cisspace (rev (takeWhile cisspace (rev f)))"
    by (auto simp: list_all_iff dest: set_takeWhileD)
  with s f l h show ?thesis by (metis append_assoc)
qed

end
