(* ===== verification/Properties.thy ===== *)
theory Properties
  imports Utils
begin

text \<open>
  \<open>core/properties.h\<close>: the property map and its loader.  A \<open>Properties\<close> object is
  its \<open>std::map\<close>, a partial function on strings; an \<open>ifstream\<close> that opened is the
  text of its file.  The lemmas show that the loop over \<open>getline\<close> visits the lines
  of the text in order, and that a written property file is read back.
\<close>

type_synonym properties = "string \<rightharpoonup> string"

definition GetProperty :: "properties \<Rightarrow> string \<Rightarrow> string \<Rightarrow> string" where
  "GetProperty p key default_value =
     (case p key of None \<Rightarrow> default_value | Some v \<Rightarrow> v)"

text \<open>\<open>operator[]\<close> uses \<open>map::at\<close>, which throws on a missing key.\<close>

definition property_at :: "properties \<Rightarrow> string \<Rightarrow> stop + string" where
  "property_at p key =
     (case p key of None \<Rightarrow> Inl (Throw (Out_Of_Range ''map::at'')) | Some v \<Rightarrow> Inr v)"

definition SetProperty :: "properties \<Rightarrow> string \<Rightarrow> string \<Rightarrow> properties" where
  "SetProperty p key value = p(key \<mapsto> value)"

text \<open>\<open>std::string::find\<close> of one character.\<close>

definition find_char :: "char \<Rightarrow> string \<Rightarrow> nat option" where
  "find_char c s =
     (let n = length (takeWhile (\<lambda>x. x \<noteq> c) s) in if n < length s then Some n else None)"

text \<open>\<open>std::getline\<close>: the line, the unread text, and whether the end was reached.\<close>

definition getline :: "string \<Rightarrow> string \<times> string \<times> bool" where
  "getline input =
     (case dropWhile (\<lambda>c. c \<noteq> nl) input of
        [] \<Rightarrow> (input, [], True)
      | _ # rest \<Rightarrow> (takeWhile (\<lambda>c. c \<noteq> nl) input, rest, False))"

text \<open>The body of the loop of \<open>Load\<close>; both \<open>continue\<close>s leave the map as it is.\<close>

definition load_line :: "properties \<Rightarrow> string \<Rightarrow> properties" where
  "load_line p line =
     (if line \<noteq> [] \<and> hd line = CHR ''#'' then p
      else case find_char CHR ''='' line of
             None \<Rightarrow> p
           | Some pos \<Rightarrow> SetProperty p (Trim (take pos line)) (Trim (drop (pos + 1) line)))"

lemma getline_rest_less:
  "getline input = (line, rest, False) \<Longrightarrow> length rest < length input"
  using length_dropWhile_le [of "\<lambda>c. c \<noteq> nl" input]
  by (auto simp: getline_def split: list.splits)

function load_loop :: "properties \<Rightarrow> string \<Rightarrow> properties" where
  "load_loop p input =
     (let (line, rest, eof) = getline input; p' = load_line p line
      in if eof then p' else load_loop p' rest)"
  by pat_completeness auto
termination
  by (relation "measure (\<lambda>(p, input). length input)") (auto dest: getline_rest_less [OF sym])

declare load_loop.simps [simp del]

definition Load :: "properties \<Rightarrow> string option \<Rightarrow> stop + properties" where
  "Load p input =
     (case input of
        None \<Rightarrow> Inl (Throw (Utils_Exception ''File not open!''))
      | Some content \<Rightarrow> Inr (load_loop p content))"

section \<open>Lemmas\<close>

lemma GetProperty_SetProperty [simp]:
  "GetProperty (SetProperty p k v) k' d = (if k = k' then v else GetProperty p k' d)"
  by (simp add: GetProperty_def SetProperty_def)

lemma property_at_Inr [result_simps]: "property_at p k = Inr v \<longleftrightarrow> p k = Some v"
  by (simp add: property_at_def split: option.splits)

lemma find_char_prefix: "c \<notin> set k \<Longrightarrow> find_char c (k @ c # v) = Some (length k)"
proof -
  assume "c \<notin> set k"
  then have "takeWhile (\<lambda>x. x \<noteq> c) (k @ c # v) = k"
    by (subst takeWhile_append2) auto
  then show ?thesis by (simp add: find_char_def)
qed

text \<open>The lines of a text, the last one possibly empty.\<close>

fun split_lines :: "string \<Rightarrow> string list" where
  "split_lines [] = [[]]"
| "split_lines (c # s) =
     (if c = nl then [] # split_lines s
      else (c # hd (split_lines s)) # tl (split_lines s))"

lemma split_lines_nonempty [simp]: "split_lines s \<noteq> []"
  by (induction s) auto

lemma split_lines_line:
  "nl \<notin> set l \<Longrightarrow> split_lines (l @ nl # s) = l # split_lines s"
  by (induction l) auto

lemma split_lines_last: "nl \<notin> set l \<Longrightarrow> split_lines l = [l]"
  by (induction l) auto

lemma getline_line: "nl \<notin> set l \<Longrightarrow> getline (l @ nl # s) = (l, s, False)"
proof -
  assume "nl \<notin> set l"
  then have "dropWhile (\<lambda>c. c \<noteq> nl) (l @ nl # s) = nl # s"
    and "takeWhile (\<lambda>c. c \<noteq> nl) (l @ nl # s) = l"
    by (subst dropWhile_append2 takeWhile_append2; auto)+
  then show ?thesis by (simp add: getline_def)
qed

lemma getline_last: "nl \<notin> set l \<Longrightarrow> getline l = (l, [], True)"
proof -
  assume "nl \<notin> set l"
  then have "dropWhile (\<lambda>c. c \<noteq> nl) l = []" by auto
  then show ?thesis by (simp only: getline_def list.case)
qed

lemma load_loop_fold: "load_loop p s = fold (\<lambda>l p. load_line p l) (split_lines s) p"
proof (induction "length s" arbitrary: s p rule: less_induct)
  case less
  show ?case
  proof (cases "nl \<in> set s")
    case True
    then obtain l r where s: "s = l @ nl # r" "nl \<notin> set l"
      by (meson split_list_first)
    with less show ?thesis
      by (subst load_loop.simps) (simp add: getline_line split_lines_line)
  next
    case False
    then show ?thesis
      by (subst load_loop.simps) (simp add: getline_last split_lines_last)
  qed
qed

text \<open>
  the loop of \<open>Load\<close> over \<open>getline\<close>, \<open>eof\<close> and \<open>continue\<close> handles every line of the
  file once, in order, the text after the last newline included.
\<close>

theorem Load_lines:
  "Load p (Some content) = Inr (fold (\<lambda>l p. load_line p l) (split_lines content) p)"
  by (simp only: Load_def option.case load_loop_fold)

section \<open>Reading back a written property file\<close>

definition clean_key :: "string \<Rightarrow> bool" where
  "clean_key k \<longleftrightarrow> nl \<notin> set k \<and> CHR ''='' \<notin> set k \<and>
     (k \<noteq> [] \<longrightarrow> hd k \<noteq> CHR ''#'' \<and> \<not> cisspace (hd k) \<and> \<not> cisspace (last k))"

definition clean_value :: "string \<Rightarrow> bool" where
  "clean_value v \<longleftrightarrow> nl \<notin> set v \<and> (v \<noteq> [] \<longrightarrow> \<not> cisspace (hd v) \<and> \<not> cisspace (last v))"

definition spec_line :: "string \<times> string \<Rightarrow> string" where
  "spec_line kv = fst kv @ ''='' @ snd kv @ [nl]"

definition spec_text :: "(string \<times> string) list \<Rightarrow> string" where
  "spec_text kvs = concat (map spec_line kvs)"

lemma load_line_entry:
  assumes "clean_key k" "clean_value v"
  shows "load_line p (k @ ''='' @ v) = p(k \<mapsto> v)"
proof -
  have "find_char CHR ''='' (k @ ''='' @ v) = Some (length k)"
    using assms(1) by (simp add: find_char_prefix clean_key_def)
  moreover have "hd (k @ ''='' @ v) \<noteq> CHR ''#''"
    using assms(1) by (cases k) (auto simp: clean_key_def)
  moreover have "Trim k = k" "Trim v = v"
    using assms by (auto intro!: Trim_no_space simp: clean_key_def clean_value_def)
  ultimately show ?thesis by (simp add: load_line_def SetProperty_def)
qed

lemma split_spec_text:
  "\<forall>(k, v) \<in> set kvs. clean_key k \<and> clean_value v \<Longrightarrow>
   split_lines (spec_text kvs) = map (\<lambda>(k, v). k @ ''='' @ v) kvs @ [[]]"
proof (induction kvs)
  case (Cons kv kvs)
  obtain k v where kv: "kv = (k, v)" by (cases kv)
  have n: "nl \<notin> set (k @ ''='' @ v)"
    using Cons.prems by (auto simp: kv clean_key_def clean_value_def)
  have t: "spec_text (kv # kvs) = (k @ ''='' @ v) @ nl # spec_text kvs"
    by (simp add: spec_text_def spec_line_def kv)
  have "split_lines (spec_text (kv # kvs)) = (k @ ''='' @ v) # split_lines (spec_text kvs)"
    unfolding t by (rule split_lines_line [OF n])
  with Cons show ?case by (simp add: kv)
qed (simp add: spec_text_def)

lemma fold_load_entries:
  "\<forall>(k, v) \<in> set kvs. clean_key k \<and> clean_value v \<Longrightarrow>
   fold (\<lambda>l p. load_line p l) (map (\<lambda>(k, v). k @ ''='' @ v) kvs) p = p ++ map_of (rev kvs)"
proof (induction kvs arbitrary: p)
  case (Cons kv kvs)
  obtain k v where kv: "kv = (k, v)" by (cases kv)
  have "load_line p (k @ ''='' @ v) = p(k \<mapsto> v)"
    using Cons.prems by (intro load_line_entry) (auto simp: kv)
  with Cons show ?case by (simp add: kv map_add_assoc)
qed simp

text \<open>
  a property file written one \<open>key=value\<close> per line is read back: every pair is in
  the map afterwards, a later line for a key overrides an earlier one, and properties
  set before the file is loaded stay unless it names them.  Keys and values carry no
  surrounding white space and no newline, keys no \<open>=\<close> and no leading \<open>#\<close>.
\<close>

theorem Load_spec_text:
  assumes "\<forall>(k, v) \<in> set kvs. clean_key k \<and> clean_value v"
  shows "Load p (Some (spec_text kvs)) = Inr (p ++ map_of (rev kvs))"
proof -
  have "load_line q [] = q" for q
    by (simp add: load_line_def find_char_def)
  then show ?thesis
    using fold_load_entries [OF assms, of p]
    by (simp add: Load_def load_loop_fold split_spec_text [OF assms])
qed

theorem Load_spec_text_witness:
  "Load Map.empty (Some (''recordcount=10'' @ [nl] @ ''table=t=1'' @ [nl])) =
     Inr [''recordcount'' \<mapsto> ''10'', ''table'' \<mapsto> ''t=1'']"
proof -
  let ?kvs = "[(''recordcount'', ''10''), (''table'', ''t=1'')]"
  have "\<forall>(k, v) \<in> set ?kvs. clean_key k \<and> clean_value v"
    by (simp add: clean_key_def clean_value_def cisspace_def)
  from Load_spec_text [OF this, of Map.empty] show ?thesis
    by (simp add: spec_text_def spec_line_def fun_upd_twist)
qed

end
