(* ===== verification/Generators.thy ===== *)
theory Generators
  imports Utils
begin

text \<open>
  \<open>core/generator.h\<close>, \<open>counter_generator.h\<close>, \<open>const_generator.h\<close> and
  \<open>uniform_generator.h\<close>.  The abstract class \<open>Generator\<close> is the locale \<open>generator\<close>:
  what its clients rely on, that \<open>Last\<close> repeats the latest value of \<open>Next\<close> and that
  drawn values stay within what the object was constructed for.  Every generator of
  the program interprets it.
\<close>

section \<open>The interface\<close>

text \<open>\<open>n\<close> calls of \<open>Next\<close>: the values drawn, oldest first.\<close>

fun draws :: "('g \<Rightarrow> 'c \<Rightarrow> stop + ('v \<times> 'g \<times> 'c)) \<Rightarrow> nat \<Rightarrow> 'g \<Rightarrow> 'c \<Rightarrow>
    stop + ('v list \<times> 'g \<times> 'c)" where
  "draws nxt 0 g r = Inr ([], g, r)"
| "draws nxt (Suc n) g r =
     bind_r (nxt g r) (\<lambda>(v, g, r). bind_r (draws nxt n g r) (\<lambda>(vs, g, r). Inr (v # vs, g, r)))"

lemma draws_Suc_Inr [result_simps]:
  "draws nxt (Suc n) g r = Inr (vs, g'', r'') \<longleftrightarrow>
     (\<exists>v g' r' ws. nxt g r = Inr (v, g', r') \<and> draws nxt n g' r' = Inr (ws, g'', r'') \<and> vs = v # ws)"
  by (auto simp: bind_r_eq_Inr split: prod.splits)

locale generator =
  fixes nxt :: "'g \<Rightarrow> 'c \<Rightarrow> stop + ('v \<times> 'g \<times> 'c)"
    and lst :: "'g \<Rightarrow> stop + 'v"
    and ok :: "'g \<Rightarrow> bool"
    and outs :: "'g \<Rightarrow> 'v \<Rightarrow> bool"
  assumes last_next: "nxt g r = Inr (v, g', r') \<Longrightarrow> lst g' = Inr v"
    and ok_next: "ok g \<Longrightarrow> nxt g r = Inr (v, g', r') \<Longrightarrow> ok g'"
    and outs_next: "ok g \<Longrightarrow> nxt g r = Inr (v, g', r') \<Longrightarrow> outs g v"
    and outs_same: "ok g \<Longrightarrow> nxt g r = Inr (v, g', r') \<Longrightarrow> outs g' = outs g"
begin

lemma draws_outs:
  "ok g \<Longrightarrow> draws nxt n g r = Inr (vs, g', r') \<Longrightarrow>
   length vs = n \<and> list_all (outs g) vs \<and> ok g' \<and> outs g' = outs g"
proof (induction n arbitrary: g r vs)
  case (Suc n)
  then obtain v h s ws where st: "nxt g r = Inr (v, h, s)" "draws nxt n h s = Inr (ws, g', r')"
    "vs = v # ws" unfolding draws_Suc_Inr by blast
  have "ok h" "outs g v" "outs h = outs g"
    using Suc.prems(1) st(1) by (auto dest: ok_next outs_next outs_same)
  with Suc.IH [OF _ st(2)] st(3) show ?case by simp
qed simp

lemma draws_last:
  "draws nxt n g r = Inr (vs, g', r') \<Longrightarrow> 0 < n \<Longrightarrow> lst g' = Inr (last vs)"
proof (induction n arbitrary: g r vs)
  case (Suc n)
  then obtain v h s ws where st: "nxt g r = Inr (v, h, s)" "draws nxt n h s = Inr (ws, g', r')"
    "vs = v # ws" unfolding draws_Suc_Inr by blast
  show ?case
  proof (cases n)
    case 0
    with st show ?thesis by (auto dest: last_next)
  next
    case (Suc m)
    with st(2) have "ws \<noteq> []" unfolding Suc draws_Suc_Inr by blast
    with Suc.IH [OF st(2)] Suc st(3) show ?thesis by simp
  qed
qed simp

end

section \<open>Counter\<close>

text \<open>The atomic counter; \<open>fetch_add\<close> wraps at \<open>2 ^ 64\<close>.\<close>

record counter =
  counter_val :: u64

definition counter_new :: "u64 \<Rightarrow> counter" where
  "counter_new start = \<lparr>counter_val = start\<rparr>"

definition counter_next :: "counter \<Rightarrow> u64 \<times> counter" where
  "counter_next c = (counter_val c, c\<lparr>counter_val := counter_val c + 1\<rparr>)"

definition counter_last :: "counter \<Rightarrow> u64" where
  "counter_last c = counter_val c - 1"

definition counter_set :: "u64 \<Rightarrow> counter \<Rightarrow> counter" where
  "counter_set start c = c\<lparr>counter_val := start\<rparr>"

definition counter_gen :: "counter \<Rightarrow> rng \<Rightarrow> stop + (u64 \<times> counter \<times> rng)" where
  "counter_gen c r = (let (v, c') = counter_next c in Inr (v, c', r))"

interpretation counter_i: generator counter_gen "\<lambda>c. Inr (counter_last c)" "\<lambda>_. True" "\<lambda>_ _. True"
  by unfold_locales (auto simp: counter_gen_def counter_next_def counter_last_def)

lemma counter_draws_nth:
  "draws counter_gen n c r =
     Inr (map (\<lambda>i. counter_val c + of_nat i) [0..<n], c\<lparr>counter_val := counter_val c + of_nat n\<rparr>, r)"
proof (induction n arbitrary: c)
  case (Suc n)
  have "map (\<lambda>i. counter_val c + of_nat i) [0..<Suc n] =
      counter_val c # map (\<lambda>i. (counter_val c + 1) + of_nat i) [0..<n]"
    by (simp add: map_upt_Suc add.assoc del: upt_Suc)
  with Suc show ?case
    by (simp add: counter_gen_def counter_next_def algebra_simps)
qed simp

text \<open>
  the counter hands out consecutive values from its start, wrapping modulo
  \<open>2 ^ 64\<close>, and up to \<open>2 ^ 64\<close> calls never hand out the same value twice.
\<close>

theorem counter_draws_distinct:
  assumes "draws counter_gen n c r = Inr (vs, c', r')" "n \<le> 2 ^ 64"
  shows "distinct vs \<and> (\<forall>i < n. vs ! i = counter_val c + of_nat i)"
proof -
  have vs: "vs = map (\<lambda>i. counter_val c + of_nat i) [0..<n]"
    using assms(1) by (simp add: counter_draws_nth)
  have "i = j" if "i < n" "j < n" "(of_nat i :: u64) = of_nat j" for i j
  proof -
    have "i < 2 ^ LENGTH(64)" "j < 2 ^ LENGTH(64)" using that assms(2) by simp_all
    moreover have "unat (of_nat i :: u64) = unat (of_nat j :: u64)" using that(3) by simp
    ultimately show ?thesis unfolding unat_of_nat by simp
  qed
  then have "inj_on (\<lambda>i. counter_val c + of_nat i :: u64) {0..<n}"
    by (intro inj_onI) simp
  then show ?thesis by (simp add: vs distinct_map)
qed

theorem counter_draws_distinct_witness:
  "distinct [-1, 0, 1 :: u64] \<and> [-1, 0, 1] ! 2 = (-1 :: u64) + of_nat 2"
proof -
  have dr: "draws counter_gen 3 (counter_new (-1)) \<lparr>canon_pos = 0, crand_pos = 0\<rparr> =
      Inr ([-1, 0, 1], counter_new 2, \<lparr>canon_pos = 0, crand_pos = 0\<rparr>)"
    by (simp add: numeral_eq_Suc counter_gen_def counter_next_def counter_new_def)
  from counter_draws_distinct [OF dr] show ?thesis by simp
qed

section \<open>Constant\<close>

record const_gen =
  const_val :: u64

text \<open>The constructor takes an \<open>int\<close>, converted to \<open>uint64_t\<close>.\<close>

definition const_new :: "int \<Rightarrow> const_gen" where
  "const_new c = \<lparr>const_val = of_int c\<rparr>"

definition const_next :: "const_gen \<Rightarrow> u64" where
  "const_next g = const_val g"

definition const_last :: "const_gen \<Rightarrow> u64" where
  "const_last g = const_val g"

interpretation const_i: generator "\<lambda>g r. Inr (const_next g, g, r :: rng)" "\<lambda>g. Inr (const_last g)"
    "\<lambda>_. True" "\<lambda>g v. v = const_val g"
  by unfold_locales (auto simp: const_next_def const_last_def)

section \<open>Uniform\<close>

text \<open>
  \<open>std::uniform_int_distribution(a, b)\<close> maps raw engine output to \<open>{a..b}\<close>.  The
  standard leaves the mapping to the implementation; reducing modulo the number of
  values is one, and by \<open>uid_onto\<close> every sequence of values in the range arises from
  some raw sequence, so what holds for all raw sequences holds for all outcomes.
\<close>

definition uid :: "u64 \<Rightarrow> u64 \<Rightarrow> u64 \<Rightarrow> u64" where
  "uid a b raw = (if b - a = -1 then a + raw else a + raw mod (b - a + 1))"

record uniform_gen =
  u_min :: u64
  u_max :: u64
  u_pos :: nat
  u_last :: u64

definition uniform_next :: "env \<Rightarrow> uniform_gen \<Rightarrow> u64 \<times> uniform_gen" where
  "uniform_next E g =
     (let v = uid (u_min g) (u_max g) (mt64 E (u_pos g))
      in (v, g\<lparr>u_pos := Suc (u_pos g), u_last := v\<rparr>))"

definition uniform_last :: "uniform_gen \<Rightarrow> u64" where
  "uniform_last g = u_last g"

text \<open>The constructor draws once.  A distribution with \<open>max < min\<close> is undefined.\<close>

definition uniform_new :: "env \<Rightarrow> u64 \<Rightarrow> u64 \<Rightarrow> stop + uniform_gen" where
  "uniform_new E lo hi =
     (if hi < lo then Inl Undefined
      else Inr (snd (uniform_next E \<lparr>u_min = lo, u_max = hi, u_pos = 0, u_last = 0\<rparr>)))"

lemma full_range: "a \<le> b \<Longrightarrow> b - a = -1 \<Longrightarrow> a = 0 \<and> b = -1" for a b :: u64
proof -
  assume ab: "a \<le> b" "b - a = -1"
  have e: "unat b - unat a = 18446744073709551615"
    using ab unat_sub [OF ab(1)] by (simp add: unsigned_minus_1_eq_mask mask_eq_exp_minus_1)
  have "unat a = 0" using e unat_u64_lt [of b] by linarith
  moreover have "unat b = 18446744073709551615" using e unat_u64_lt [of b] by linarith
  ultimately show ?thesis
    by (simp add: word_unat_eq_iff unsigned_minus_1_eq_mask mask_eq_exp_minus_1)
qed

lemma uid_range:
  assumes "a \<le> b"
  shows "a \<le> uid a b raw \<and> uid a b raw \<le> b"
proof (cases "b - a = -1")
  case True
  with full_range [OF assms] show ?thesis by (simp add: uid_def)
next
  case False
  with assms word_add_mod_range [of a b raw] show ?thesis by (simp add: uid_def)
qed

lemma uid_onto:
  assumes "a \<le> v" "v \<le> b"
  shows "uid a b (v - a) = v"
proof (cases "b - a = -1")
  case False
  have "v - a < b - a + 1"
  proof -
    have "unat (v - a) \<le> unat (b - a)"
      using assms by (simp add: unat_sub word_le_nat_alt order_trans)
    moreover have "unat (b - a + 1) = Suc (unat (b - a))"
      using False unatSuc [of "b - a"] by (simp add: add.commute eq_neg_iff_add_eq_0)
    ultimately show ?thesis by (simp add: word_less_nat_alt)
  qed
  then have "(v - a) mod (b - a + 1) = v - a"
    by (simp add: word_unat_eq_iff unat_mod_distrib word_less_nat_alt)
  with False show ?thesis by (simp add: uid_def)
qed (simp add: uid_def)

definition uniform_gen_next :: "env \<Rightarrow> uniform_gen \<Rightarrow> rng \<Rightarrow> stop + (u64 \<times> uniform_gen \<times> rng)" where
  "uniform_gen_next E g r = (let (v, g') = uniform_next E g in Inr (v, g', r))"

definition uniform_ok :: "uniform_gen \<Rightarrow> bool" where
  "uniform_ok g \<longleftrightarrow> u_min g \<le> u_max g"

interpretation uniform_i: generator "uniform_gen_next E" "\<lambda>g. Inr (uniform_last g)" uniform_ok
    "\<lambda>g v. u_min g \<le> v \<and> v \<le> u_max g" for E
  by unfold_locales
     (auto simp: uniform_gen_next_def uniform_next_def uniform_last_def uniform_ok_def Let_def
       dest: uid_range)

lemma uniform_new_ok:
  "uniform_new E a b = Inr g \<Longrightarrow> uniform_ok g \<and> u_min g = a \<and> u_max g = b"
  by (auto simp: uniform_new_def uniform_next_def uniform_ok_def Let_def split: if_splits)

text \<open>
  a generator built for \<open>[min, max]\<close> returns only values of that closed range, on
  every one of any number of calls, whatever the engine produces; and \<open>Last\<close> is the
  value of the latest call.
\<close>

theorem uniform_draws_range:
  assumes "uniform_new E a b = Inr g" "draws (uniform_gen_next E) n g r = Inr (vs, g', r')"
  shows "length vs = n \<and> (\<forall>i < n. a \<le> vs ! i \<and> vs ! i \<le> b) \<and>
    (n \<noteq> 0 \<longrightarrow> uniform_last g' = last vs)"
  using uniform_new_ok [OF assms(1)] uniform_i.draws_outs [OF _ assms(2)]
    uniform_i.draws_last [OF assms(2)]
  by (auto simp: list_all_length)

theorem uniform_draws_range_witness:
  "\<exists>E g r vs g' r'. uniform_new E 3 5 = Inr g \<and>
     draws (uniform_gen_next E) 2 g r = Inr (vs, g', r') \<and>
     length vs = 2 \<and> 3 \<le> vs ! 0 \<and> vs ! 0 \<le> 5"
proof -
  let ?E = "\<lparr>ndebug = False, pw = \<lambda>x y. x, canon = \<lambda>n. Fin 0, crand = \<lambda>n. 0,
      mt64 = \<lambda>n. of_nat (7 * n)\<rparr>" and ?r = "\<lparr>canon_pos = 0, crand_pos = 0\<rparr>"
  obtain g where g: "uniform_new ?E 3 5 = Inr g"
    by (simp add: uniform_new_def)
  obtain vs g' where d: "draws (uniform_gen_next ?E) 2 g ?r = Inr (vs, g', ?r)"
    by (simp add: numeral_eq_Suc uniform_gen_next_def uniform_next_def Let_def)
  have c: "length vs = 2 \<and> 3 \<le> vs ! 0 \<and> vs ! 0 \<le> 5"
    using uniform_draws_range [OF g d] by simp
  show ?thesis by (intro exI conjI) (rule g, rule d, use c in simp_all)
qed

end
