(* ===== verification/Zipfian.thy ===== *)
theory Zipfian
  imports Generators
begin

unbundle bit_operations_syntax

text \<open>
  \<open>core/zipfian_generator.h\<close>.  The state of a \<open>ZipfianGenerator\<close> is a record; the
  mutex makes each \<open>Next\<close> one atomic step and is not part of it.  \<open>std::pow\<close> is the
  parameter \<open>pw\<close> of the environment: the C++ standard does not fix its last bits.
  The lemmas show that the zeta loop ends and accumulates incrementally without
  changing the result, that \<open>zeta_n_\<close> is always the zeta of \<open>n_for_zeta_\<close>, and
  which values \<open>Next\<close> can return.
\<close>

section \<open>State and operations\<close>

definition kZipfianConst :: double where
  "kZipfianConst = to_dbl (99 / 100)"

definition kMaxNumItems :: u64 where
  "kMaxNumItems = drop_bit 24 (-1)"

record zipf =
  z_num_items :: u64
  z_base :: u64
  z_theta :: double
  z_zeta_n :: double
  z_eta :: double
  z_alpha :: double
  z_zeta_2 :: double
  z_n_for_zeta :: u64
  z_last_value :: u64

text \<open>
  The \<open>for\<close> loop of \<open>Zeta\<close>.  With \<open>cur_num\<close> the largest \<open>uint64_t\<close> the guard
  \<open>i <= cur_num\<close> never fails and the loop does not end.
\<close>

partial_function (option) zeta_loop :: "env \<Rightarrow> u64 \<Rightarrow> u64 \<Rightarrow> double \<Rightarrow> double \<Rightarrow> double option" where
  "zeta_loop E i cur_num theta zeta =
     (if i \<le> cur_num
      then zeta_loop E (i + 1) cur_num theta (zeta + 1 / pw E (of_u64 i) theta)
      else Some zeta)"

declare zeta_loop.simps [code]

definition Zeta_from :: "env \<Rightarrow> u64 \<Rightarrow> u64 \<Rightarrow> double \<Rightarrow> double \<Rightarrow> stop + double" where
  "Zeta_from E last_num cur_num theta last_zeta =
     (case zeta_loop E (last_num + 1) cur_num theta last_zeta of
        None \<Rightarrow> Inl Diverges | Some z \<Rightarrow> Inr z)"

definition Zeta :: "env \<Rightarrow> u64 \<Rightarrow> double \<Rightarrow> stop + double" where
  "Zeta E num theta = Zeta_from E 0 num theta 0"

definition RaiseZeta :: "env \<Rightarrow> u64 \<Rightarrow> zipf \<Rightarrow> stop + zipf" where
  "RaiseZeta E num g =
     bind_r (cassert (ndebug E) (z_n_for_zeta g \<le> num)) (\<lambda>_.
     bind_r (Zeta_from E (z_n_for_zeta g) num (z_theta g) (z_zeta_n g)) (\<lambda>z.
     Inr (g\<lparr>z_zeta_n := z, z_n_for_zeta := num\<rparr>)))"

definition Eta :: "env \<Rightarrow> zipf \<Rightarrow> double" where
  "Eta E g =
     (1 - pw E (Fin 2 / of_u64 (z_num_items g)) (1 - z_theta g)) / (1 - z_zeta_2 g / z_zeta_n g)"

text \<open>
  \<open>Next(num)\<close>: raise the zeta if the range grew, then draw.  \<open>zipf_draw\<close> is the value
  of the three returns, each of which also stores it in \<open>last_value_\<close>.
\<close>

definition zipf_draw :: "env \<Rightarrow> u64 \<Rightarrow> zipf \<Rightarrow> double \<Rightarrow> stop + u64" where
  "zipf_draw E num g u =
     (let uz = u * z_zeta_n g
      in if uz < 1 then Inr 0
         else if uz < 1 + pw E (Fin (1/2)) (z_theta g) then Inr 1
         else to_u64 (of_u64 (z_base g)
                + of_u64 num * pw E (z_eta g * u - z_eta g + 1) (z_alpha g)))"

definition zipf_next :: "env \<Rightarrow> u64 \<Rightarrow> zipf \<Rightarrow> rng \<Rightarrow> stop + (u64 \<times> zipf \<times> rng)" where
  "zipf_next E num g0 r0 =
     bind_r (cassert (ndebug E) (2 \<le> num \<and> num < kMaxNumItems)) (\<lambda>_.
     bind_r (if num > z_n_for_zeta g0
             then bind_r (RaiseZeta E num g0) (\<lambda>g. Inr (g\<lparr>z_eta := Eta E g\<rparr>))
             else Inr g0) (\<lambda>g.
     (let (u, r) = RandomDouble E r0
      in bind_r (zipf_draw E num g u) (\<lambda>v. Inr (v, g\<lparr>z_last_value := v\<rparr>, r)))))"

definition zipf_Next :: "env \<Rightarrow> zipf \<Rightarrow> rng \<Rightarrow> stop + (u64 \<times> zipf \<times> rng)" where
  "zipf_Next E g r = zipf_next E (z_num_items g) g r"

definition zipf_Last :: "zipf \<Rightarrow> u64" where
  "zipf_Last g = z_last_value g"

text \<open>The constructor over \<open>[min, max]\<close>; it draws once at its end.\<close>

definition zipf_new :: "env \<Rightarrow> u64 \<Rightarrow> u64 \<Rightarrow> double \<Rightarrow> rng \<Rightarrow> stop + (zipf \<times> rng)" where
  "zipf_new E lo hi zipfian_const r =
     (let num = hi - lo + 1;
          g = \<lparr>z_num_items = num, z_base = lo, z_theta = zipfian_const, z_zeta_n = 0,
               z_eta = 0, z_alpha = 0, z_zeta_2 = 0, z_n_for_zeta = 0, z_last_value = 0\<rparr>
      in bind_r (cassert (ndebug E) (2 \<le> num \<and> num < kMaxNumItems)) (\<lambda>_.
         bind_r (Zeta E 2 (z_theta g)) (\<lambda>z2.
         bind_r (RaiseZeta E num (g\<lparr>z_zeta_2 := z2, z_alpha := 1 / (1 - z_theta g)\<rparr>)) (\<lambda>g.
         bind_r (zipf_Next E (g\<lparr>z_eta := Eta E g\<rparr>) r) (\<lambda>(_, g, r). Inr (g, r))))))"

definition zipf_new_items :: "env \<Rightarrow> u64 \<Rightarrow> rng \<Rightarrow> stop + (zipf \<times> rng)" where
  "zipf_new_items E num_items r = zipf_new E 0 (num_items - 1) kZipfianConst r"

section \<open>The zeta sum\<close>

text \<open>The sum over a range of naturals, added in increasing order.\<close>

definition zeta_sum :: "env \<Rightarrow> double \<Rightarrow> nat list \<Rightarrow> double \<Rightarrow> double" where
  "zeta_sum E theta ks z = foldl (\<lambda>z k. z + 1 / pw E (of_u64 (of_nat k)) theta) z ks"

lemma zeta_sum_append:
  "zeta_sum E th (ks @ ls) z = zeta_sum E th ls (zeta_sum E th ks z)"
  by (simp add: zeta_sum_def)

lemma zeta_loop_sum:
  assumes "cur \<noteq> -1"
  shows "zeta_loop E i cur th z = Some (zeta_sum E th [unat i..<Suc (unat cur)] z)"
proof (induction "Suc (unat cur) - unat i" arbitrary: i z)
  case 0
  then have "\<not> i \<le> cur" by (simp add: word_le_nat_alt)
  with 0 show ?case
    by (simp add: zeta_loop.simps [of E i] zeta_sum_def)
next
  case (Suc n)
  then have le: "unat i \<le> unat cur" by simp
  then have i: "i \<le> cur" by (simp add: word_le_nat_alt)
  have "i \<noteq> -1" using assms i by (metis word_order.extremum_unique)
  then have s: "unat (i + 1) = Suc (unat i)"
    using unatSuc [of i] by (simp add: add.commute eq_neg_iff_add_eq_0)
  have "zeta_loop E i cur th z = zeta_loop E (i + 1) cur th (z + 1 / pw E (of_u64 i) th)"
    using i by (simp add: zeta_loop.simps [of E i])
  also have "\<dots> = Some (zeta_sum E th [Suc (unat i)..<Suc (unat cur)] (z + 1 / pw E (of_u64 i) th))"
    using Suc by (simp add: s)
  also have "\<dots> = Some (zeta_sum E th [unat i..<Suc (unat cur)] z)"
    using le by (simp add: upt_conv_Cons [of "unat i"] zeta_sum_def del: upt_Suc)
  finally show ?case .
qed

lemma Zeta_from_sum:
  assumes "m \<noteq> -1" "cur \<noteq> -1"
  shows "Zeta_from E m cur th z = Inr (zeta_sum E th [Suc (unat m)..<Suc (unat cur)] z)"
proof -
  have "unat (m + 1) = Suc (unat m)"
    using unatSuc [of m] assms(1) by (simp add: add.commute eq_neg_iff_add_eq_0)
  then show ?thesis by (simp add: Zeta_from_def zeta_loop_sum [OF assms(2)])
qed

lemma Zeta_sum:
  "num \<noteq> -1 \<Longrightarrow> Zeta E num th = Inr (zeta_sum E th [1..<Suc (unat num)] 0)"
  using Zeta_from_sum [of 0 num E th 0] by (simp add: Zeta_def del: upt_Suc)

lemma less_kMax: "num < kMaxNumItems \<Longrightarrow> num \<noteq> -1 \<and> uint num < 2 ^ 40"
proof -
  assume "num < kMaxNumItems"
  then have "uint num < uint kMaxNumItems" by (simp add: word_less_def)
  moreover have "uint kMaxNumItems = 2 ^ 40 - 1"
    by (simp add: kMaxNumItems_def mask_eq_exp_minus_1)
  ultimately have u: "uint num < 2 ^ 40" by simp
  then have "num \<noteq> -1" by (auto simp: unsigned_minus_1_eq_mask mask_eq_exp_minus_1)
  with u show ?thesis by simp
qed

lemma zeta_loop_returns:
  assumes "zeta_loop E i cur th z = Some y"
  shows "cur \<noteq> -1"
proof (rule zeta_loop.raw_induct [where P = "\<lambda>E i cur th z y. cur \<noteq> -1", OF _ assms])
  fix f E i cur th z y
  assume IH: "\<And>E i cur th z y. f E i cur th z = Some y \<Longrightarrow> cur \<noteq> (-1 :: u64)"
    and eq: "(if i \<le> cur then f E (i + 1) cur th (z + 1 / pw E (of_u64 i) th) else Some z) = Some y"
  show "cur \<noteq> -1"
  proof (cases "i \<le> cur")
    case True
    with eq show ?thesis by (auto dest: IH)
  next
    case False
    then show ?thesis by auto
  qed
qed

text \<open>
  C30: the zeta loop ends for every bound but the largest \<open>uint64_t\<close>, for which it runs
  for ever; where it ends it has added \<open>1 / i ^ theta\<close> for every \<open>i\<close> from
  \<open>last_num + 1\<close> up to \<open>cur_num\<close>, once each and in increasing order.
\<close>

theorem Zeta_from_result:
  "Zeta_from E m cur th z =
     (if cur = -1 then Inl Diverges else Inr (zeta_sum E th [unat (m + 1)..<Suc (unat cur)] z))"
proof (cases "cur = -1")
  case True
  then have "zeta_loop E (m + 1) cur th z = None"
    using zeta_loop_returns by (cases "zeta_loop E (m + 1) cur th z") blast+
  with True show ?thesis by (simp add: Zeta_from_def)
next
  case False
  then show ?thesis by (simp add: Zeta_from_def zeta_loop_sum del: upt_Suc)
qed

text \<open>
  accumulating the sum in two steps, as \<open>RaiseZeta\<close> does when the range grows, gives
  exactly the double that one loop over the whole range gives.
\<close>

theorem Zeta_incremental:
  assumes "Zeta E m th = Inr z" "m \<le> n"
  shows "Zeta_from E m n th z = Zeta E n th"
proof (cases "n = -1")
  case False
  have m: "m \<noteq> -1"
    using assms False by (metis word_order.extremum_unique)
  have z: "z = zeta_sum E th [1..<Suc (unat m)] 0"
    using assms(1) Zeta_sum [OF m] by simp
  have "unat m \<le> unat n" using assms(2) by (simp add: word_le_nat_alt)
  then have "[1..<Suc (unat n)] = [1..<Suc (unat m)] @ [Suc (unat m)..<Suc (unat n)]"
    by (metis le_add1 le_add_diff_inverse plus_1_eq_Suc upt_add_eq_append Suc_le_mono)
  then show ?thesis
    by (simp add: Zeta_sum [OF False] Zeta_from_sum [OF m False] z zeta_sum_append del: upt_Suc)
qed (simp add: Zeta_from_result Zeta_def)

section \<open>The invariant of the state\<close>

definition zipf_inv :: "env \<Rightarrow> zipf \<Rightarrow> bool" where
  "zipf_inv E g \<longleftrightarrow> Zeta E (z_n_for_zeta g) (z_theta g) = Inr (z_zeta_n g)"

lemma RaiseZeta_inv:
  assumes "zipf_inv E g" "z_n_for_zeta g \<le> num" "RaiseZeta E num g = Inr g'"
  shows "zipf_inv E g' \<and> g' = g\<lparr>z_zeta_n := z_zeta_n g', z_n_for_zeta := num\<rparr>"
proof -
  obtain z where z: "Zeta_from E (z_n_for_zeta g) num (z_theta g) (z_zeta_n g) = Inr z"
    and g': "g' = g\<lparr>z_zeta_n := z, z_n_for_zeta := num\<rparr>"
    using assms(3) by (auto simp: RaiseZeta_def bind_r_eq_Inr)
  have "Zeta_from E (z_n_for_zeta g) num (z_theta g) (z_zeta_n g) = Zeta E num (z_theta g)"
    using assms(1,2) by (intro Zeta_incremental) (simp_all add: zipf_inv_def)
  with z g' show ?thesis by (simp add: zipf_inv_def)
qed

lemma zipf_next_eq:
  "zipf_next E num g0 r =
     bind_r (cassert (ndebug E) (2 \<le> num \<and> num < kMaxNumItems)) (\<lambda>_.
     bind_r (if num > z_n_for_zeta g0
             then bind_r (RaiseZeta E num g0) (\<lambda>g. Inr (g\<lparr>z_eta := Eta E g\<rparr>))
             else Inr g0) (\<lambda>g.
     bind_r (zipf_draw E num g (canon E (canon_pos r))) (\<lambda>v.
     Inr (v, g\<lparr>z_last_value := v\<rparr>, r\<lparr>canon_pos := Suc (canon_pos r)\<rparr>))))"
  by (simp add: zipf_next_def RandomDouble_def)

lemma zipf_next_no_raise:
  "num \<le> z_n_for_zeta g \<Longrightarrow> zipf_next E num g r =
     bind_r (cassert (ndebug E) (2 \<le> num \<and> num < kMaxNumItems)) (\<lambda>_.
     bind_r (zipf_draw E num g (canon E (canon_pos r))) (\<lambda>v.
     Inr (v, g\<lparr>z_last_value := v\<rparr>, r\<lparr>canon_pos := Suc (canon_pos r)\<rparr>)))"
  by (auto simp: zipf_next_eq)

lemma zipf_next_inv:
  assumes "zipf_inv E g" "zipf_next E num g r = Inr (v, g', r')"
  shows "zipf_inv E g' \<and> z_n_for_zeta g' = max num (z_n_for_zeta g) \<and> z_last_value g' = v
    \<and> z_num_items g' = z_num_items g \<and> z_base g' = z_base g \<and> z_theta g' = z_theta g"
proof -
  obtain h where h: "(if num > z_n_for_zeta g
        then bind_r (RaiseZeta E num g) (\<lambda>g. Inr (g\<lparr>z_eta := Eta E g\<rparr>)) else Inr g) = Inr h"
    and g': "g' = h\<lparr>z_last_value := v\<rparr>"
    using assms(2) by (auto simp: zipf_next_eq bind_r_eq_Inr)
  show ?thesis
  proof (cases "num > z_n_for_zeta g")
    case True
    then obtain k where k: "RaiseZeta E num g = Inr k" "h = k\<lparr>z_eta := Eta E k\<rparr>"
      using h by (auto simp: bind_r_eq_Inr)
    have inv: "zipf_inv E k" and upd: "k = g\<lparr>z_zeta_n := z_zeta_n k, z_n_for_zeta := num\<rparr>"
      using RaiseZeta_inv [OF assms(1) _ k(1)] True by simp_all
    have "z_n_for_zeta k = num" "z_num_items k = z_num_items g" "z_base k = z_base g"
      "z_theta k = z_theta g"
      by (subst upd; simp)+
    with inv True show ?thesis by (auto simp: g' k(2) zipf_inv_def max_def)
  next
    case False
    with h assms(1) show ?thesis by (auto simp: g' zipf_inv_def max_def)
  qed
qed

lemma zipf_new_made:
  assumes "zipf_new E lo hi th r = Inr (g, r')"
  shows "zipf_inv E g \<and> z_num_items g = hi - lo + 1 \<and> z_base g = lo
    \<and> z_n_for_zeta g = hi - lo + 1"
proof -
  define num where "num = hi - lo + 1"
  obtain z2 where "Zeta E 2 th = Inr z2"
    using Zeta_sum [of 2 E th] by simp
  define g0 where "g0 = \<lparr>z_num_items = num, z_base = lo, z_theta = th, z_zeta_n = 0,
     z_eta = 0, z_alpha = 1 / (1 - th), z_zeta_2 = z2, z_n_for_zeta = 0, z_last_value = 0\<rparr>"
  have inv0: "zipf_inv E g0"
    using Zeta_sum [of 0 E th] by (simp add: zipf_inv_def g0_def zeta_sum_def)
  obtain k v where k: "RaiseZeta E num g0 = Inr k"
    and n: "zipf_Next E (k\<lparr>z_eta := Eta E k\<rparr>) r = Inr (v, g, r')"
    using assms \<open>Zeta E 2 th = Inr z2\<close>
    by (auto simp: zipf_new_def Let_def bind_r_eq_Inr g0_def num_def)
  have inv: "zipf_inv E k" and upd: "k = g0\<lparr>z_zeta_n := z_zeta_n k, z_n_for_zeta := num\<rparr>"
    using RaiseZeta_inv [OF inv0 _ k] by (simp_all add: g0_def)
  have f: "z_n_for_zeta k = num" "z_num_items k = num" "z_base k = lo"
    by (subst upd; simp add: g0_def)+
  have n: "zipf_next E num (k\<lparr>z_eta := Eta E k\<rparr>) r = Inr (v, g, r')"
    using n by (simp add: zipf_Next_def f)
  from inv have "zipf_inv E (k\<lparr>z_eta := Eta E k\<rparr>)" by (simp add: zipf_inv_def)
  from zipf_next_inv [OF this n] f show ?thesis by (simp add: num_def)
qed

text \<open>
  C26: however \<open>Next\<close> is called, and however its range changes between the calls,
  \<open>zeta_n_\<close> stays the zeta constant of \<open>n_for_zeta_\<close> computed from scratch,
  \<open>n_for_zeta_\<close> is the largest range asked for, and \<open>Last\<close> is the value returned.
\<close>

theorem zipf_next_keeps_zeta:
  assumes "zipf_new E lo hi th r0 = Inr (g0, r1)"
    and "fold (\<lambda>num s. bind_r s (\<lambda>(_, g, r). zipf_next E num g r)) nums (Inr (0, g0, r1)) = Inr (v, g, r)"
  shows "Zeta E (z_n_for_zeta g) (z_theta g) = Inr (z_zeta_n g)
    \<and> z_n_for_zeta g = fold max nums (hi - lo + 1) \<and> (nums \<noteq> [] \<longrightarrow> zipf_Last g = v)"
proof -
  have "zipf_inv E g \<and> z_n_for_zeta g = fold max nums (hi - lo + 1)
      \<and> (nums \<noteq> [] \<longrightarrow> z_last_value g = v)"
    using assms(2)
  proof (induction nums arbitrary: v g r rule: rev_induct)
    case Nil
    with zipf_new_made [OF assms(1)] show ?case by simp
  next
    case (snoc num nums)
    then obtain w h s where h: "fold (\<lambda>num s. bind_r s (\<lambda>(_, g, r). zipf_next E num g r)) nums
          (Inr (0, g0, r1)) = Inr (w, h, s)" "zipf_next E num h s = Inr (v, g, r)"
      by (auto simp: bind_r_eq_Inr)
    from snoc.IH [OF h(1)] zipf_next_inv [OF _ h(2)] show ?case by (simp add: max.commute)
  qed
  then show ?thesis unfolding zipf_inv_def zipf_Last_def .
qed

section \<open>The values of \<open>Next\<close>\<close>

text \<open>
  What \<open>std::pow\<close> documents for a base in the unit interval and a positive exponent.
\<close>

definition pow_unit :: "env \<Rightarrow> bool" where
  "pow_unit E \<longleftrightarrow> (\<forall>x a. 0 \<le> x \<and> x \<le> 1 \<and> 0 < a \<longrightarrow>
     (\<exists>p. pw E (Fin x) (Fin a) = Fin p \<and> 0 \<le> p \<and> p \<le> 1))"

text \<open>The derived constants of a generator over at most \<open>2 ^ 53\<close> values are in order.\<close>

definition zipf_params :: "zipf \<Rightarrow> bool" where
  "zipf_params g \<longleftrightarrow>
     (case (z_eta g, z_alpha g) of
        (Fin e, Fin a) \<Rightarrow> 0 \<le> e \<and> e \<le> 1 \<and> rnd e = e \<and> 0 < a
      | _ \<Rightarrow> False)"

lemma zipf_base_arg:
  assumes "0 \<le> e" "e \<le> 1" "rnd e = e" "0 \<le> u" "u \<le> 1"
  shows "\<exists>x. Fin e * Fin u - Fin e + 1 = Fin x \<and> 0 \<le> x \<and> x \<le> 1"
proof -
  define t where "t = rnd (e * u)"
  have "0 \<le> e * u" "e * u \<le> e" using assms by (simp_all add: mult_left_le)
  then have t: "0 \<le> t" "t \<le> e"
    using rnd_nonneg rnd_mono [of "e * u" e] assms(3) by (simp_all add: t_def)
  define d where "d = rnd (t - e)"
  have d: "-1 \<le> d" "d \<le> 0"
    using t assms(2) rnd_nonpos [of "t - e"] rnd_mono [of "-1" "t - e"] rnd_minus [of 1]
    by (simp_all add: d_def)
  have x: "0 \<le> rnd (d + 1)" "rnd (d + 1) \<le> 1"
    using d by (simp_all add: rnd_nonneg rnd_le_1)
  have "Fin e * Fin u = Fin t"
    using \<open>0 \<le> e * u\<close> \<open>e * u \<le> e\<close> assms(2) by (simp add: double_ops t_def to_dbl_Fin)
  moreover have "Fin t - Fin e = Fin d"
    using t assms(2) by (simp add: double_ops d_def to_dbl_Fin)
  moreover have "Fin d + 1 = Fin (rnd (d + 1))"
    using d by (simp add: double_ops to_dbl_Fin)
  ultimately show ?thesis using x by simp
qed

lemma zipf_scaled:
  assumes "uint b + uint n \<le> 2 ^ 53" "0 \<le> p" "p \<le> 1"
  shows "\<exists>v. to_u64 (of_u64 b + of_u64 n * Fin p) = Inr v \<and> b \<le> v \<and> uint v \<le> uint b + uint n"
proof -
  define bi ni where "bi = uint b" and "ni = uint n"
  have sum: "bi + ni \<le> 2 ^ 53" using assms(1) by (simp add: bi_def ni_def)
  have nn: "0 \<le> bi" "0 \<le> ni" by (simp_all add: bi_def ni_def)
  have b: "0 \<le> bi" "bi \<le> 2 ^ 53" and n: "0 \<le> ni" "ni \<le> 2 ^ 53"
    using sum nn by linarith+
  have conv: "of_u64 b = Fin (of_int bi)" "of_u64 n = Fin (of_int ni)"
    using of_u64_small [of b] of_u64_small [of n] b(2) n(2) by (simp_all only: bi_def ni_def)
  define B N where "B = (of_int bi :: rat)" and "N = (of_int ni :: rat)"
  have N: "0 \<le> N" "N \<le> 2 ^ 53" "rnd N = N"
    using n rnd_of_int [of ni] by (simp_all add: N_def)
  have B: "0 \<le> B" "B \<le> 2 ^ 53" "rnd B = B"
    using b rnd_of_int [of bi] by (simp_all add: B_def)
  have BN: "B + N \<le> 2 ^ 53" "rnd (B + N) = B + N"
    using sum rnd_of_int [of "bi + ni"] b n
    by (simp_all add: B_def N_def flip: of_int_add)
  define m where "m = rnd (N * p)"
  have "0 \<le> N * p" "N * p \<le> N" using N assms by (simp_all add: mult_left_le)
  then have m: "0 \<le> m" "m \<le> N"
    using rnd_nonneg rnd_mono [of "N * p" N] N(3) by (simp_all add: m_def)
  define s where "s = rnd (B + m)"
  have s: "B \<le> s" "s \<le> B + N"
    using m rnd_mono [of B "B + m"] rnd_mono [of "B + m" "B + N"] B(3) BN(2)
    by (simp_all add: s_def)
  have big: "(2::rat) ^ 53 \<le> 2 ^ 100" "(2::rat) ^ 53 < 2 ^ 64" by simp_all
  have "of_u64 n * Fin p = Fin m"
    using conv(2) \<open>0 \<le> N * p\<close> \<open>N * p \<le> N\<close> N(2) big(1)
    by (simp add: double_ops m_def N_def to_dbl_Fin)
  moreover have "of_u64 b + Fin m = Fin s"
    using conv(1) m B(1) BN(1) big(1)
    by (simp add: double_ops s_def B_def to_dbl_Fin)
  moreover have "to_u64 (Fin s) = Inr (of_int \<lfloor>s\<rfloor>)"
    using s B(1) BN(1) big(2) by (intro to_u64_nonneg) linarith+
  moreover have f: "bi \<le> \<lfloor>s\<rfloor>" "\<lfloor>s\<rfloor> \<le> bi + ni"
    using s by (simp_all add: B_def N_def le_floor_iff floor_le_iff flip: of_int_add) linarith?
  moreover have "uint (of_int \<lfloor>s\<rfloor> :: u64) = \<lfloor>s\<rfloor>"
  proof -
    have "(2::int) ^ 53 < 18446744073709551616" by simp
    then have "0 \<le> \<lfloor>s\<rfloor>" "\<lfloor>s\<rfloor> < 18446744073709551616" using f b(1) sum by linarith+
    then show ?thesis by (simp add: uint_word_of_int)
  qed
  ultimately show ?thesis by (simp add: word_le_def flip: bi_def ni_def)
qed

lemma zipf_draw_value:
  assumes "pow_unit E" "zipf_params g" "unit_draw u" "uint (z_base g) + uint num \<le> 2 ^ 53"
  shows "\<exists>v. zipf_draw E num g u = Inr v \<and>
    (v = 0 \<or> v = 1 \<or> z_base g \<le> v \<and> uint v \<le> uint (z_base g) + uint num)"
proof -
  obtain e a where ea: "z_eta g = Fin e" "z_alpha g = Fin a" "0 \<le> e" "e \<le> 1" "rnd e = e" "0 < a"
    using assms(2) by (auto simp: zipf_params_def split: double.splits)
  obtain r where r: "u = Fin r" "0 \<le> r" "r \<le> 1"
    using assms(3) by (auto simp: unit_draw_Fin)
  obtain x where x: "Fin e * Fin r - Fin e + 1 = Fin x" "0 \<le> x" "x \<le> 1"
    using zipf_base_arg [of e r] ea r by auto
  obtain p where p: "pw E (Fin x) (Fin a) = Fin p" "0 \<le> p" "p \<le> 1"
    using assms(1) x ea(6) unfolding pow_unit_def by blast
  obtain v where "to_u64 (of_u64 (z_base g) + of_u64 num * Fin p) = Inr v"
    "z_base g \<le> v" "uint v \<le> uint (z_base g) + uint num"
    using zipf_scaled [OF assms(4) p(2,3)] by blast
  with x(1) p(1) show ?thesis by (simp add: zipf_draw_def Let_def ea(1,2) r(1))
qed

definition zipf_outs :: "zipf \<Rightarrow> u64 \<Rightarrow> bool" where
  "zipf_outs g v \<longleftrightarrow> v = 0 \<or> v = 1
     \<or> z_base g \<le> v \<and> uint v \<le> uint (z_base g) + uint (z_num_items g)"

lemma zipf_next_bounds_aux:
  assumes "pow_unit E" "draws_ok E" "zipf_params g"
    and "2 \<le> num" "num < kMaxNumItems" "num \<le> z_n_for_zeta g"
    and "uint (z_base g) + uint num \<le> 2 ^ 53"
  shows "\<exists>v. zipf_next E num g r =
      Inr (v, g\<lparr>z_last_value := v\<rparr>, r\<lparr>canon_pos := Suc (canon_pos r)\<rparr>) \<and>
    (v = 0 \<or> v = 1 \<or> z_base g \<le> v \<and> uint v \<le> uint (z_base g) + uint num)"
proof -
  have "unit_draw (canon E (canon_pos r))" using assms(2) by (simp add: draws_ok_def)
  from zipf_draw_value [OF assms(1,3) this assms(7)] assms(4-6) show ?thesis
    by (auto simp: zipf_next_eq)
qed

lemma zipf_next_head:
  assumes "canon E (canon_pos r) * z_zeta_n g < 1"
    and "2 \<le> num" "num < kMaxNumItems" "num \<le> z_n_for_zeta g"
  shows "zipf_next E num g r =
    Inr (0, g\<lparr>z_last_value := 0\<rparr>, r\<lparr>canon_pos := Suc (canon_pos r)\<rparr>)"
  using assms by (auto simp: zipf_next_eq zipf_draw_def Let_def)

text \<open>
  C27: a draw of \<open>Next(num)\<close> on a generator whose constants are in order (\<open>zipf_params\<close>: \<open>eta_\<close>
  a double of the unit interval, \<open>alpha_\<close> positive), when \<open>num\<close> is not larger than the range
  zeta is prepared for, \<open>base + num\<close> is at most \<open>2 ^ 53\<close>, \<open>std::pow\<close> stays in the unit interval
  on it and random doubles lie in the unit interval.  For \<open>num\<close> from 2 to below
  \<open>kMaxNumItems\<close> it returns 0, 1 or one of \<open>base\<close>, \dots, \<open>base + num\<close>, consumes exactly one
  random double and changes nothing else; for any other \<open>num\<close> its assertion fails, in a
  build with assertions.
\<close>

theorem zipf_next_bounds:
  assumes "pow_unit E" "draws_ok E" "zipf_params g"
    and "num \<le> z_n_for_zeta g" "uint (z_base g) + uint num \<le> 2 ^ 53"
  shows "if 2 \<le> num \<and> num < kMaxNumItems
    then \<exists>v. zipf_next E num g r =
        Inr (v, g\<lparr>z_last_value := v\<rparr>, r\<lparr>canon_pos := Suc (canon_pos r)\<rparr>) \<and>
      (v = 0 \<or> v = 1 \<or> z_base g \<le> v \<and> uint v \<le> uint (z_base g) + uint num)
    else ndebug E \<or> zipf_next E num g r = Inl Assert_Fail"
proof (cases "2 \<le> num \<and> num < kMaxNumItems")
  case True
  then show ?thesis using zipf_next_bounds_aux [OF assms(1-3) _ _ assms(4,5)] by simp
next
  case False
  then show ?thesis by (auto simp: zipf_next_def cassert_def)
qed

text \<open>The same bounds as a contract of the class.\<close>

definition zipf_ok :: "env \<Rightarrow> zipf \<Rightarrow> bool" where
  "zipf_ok E g \<longleftrightarrow> pow_unit E \<and> draws_ok E \<and> zipf_params g \<and> z_num_items g \<le> z_n_for_zeta g
     \<and> uint (z_base g) + uint (z_num_items g) \<le> 2 ^ 53"

lemma zipf_Next_outs:
  assumes "zipf_ok E g" "zipf_Next E g r = Inr (v, g', r')"
  shows "g' = g\<lparr>z_last_value := v\<rparr> \<and> zipf_outs g v"
proof -
  have "unit_draw (canon E (canon_pos r))" using assms(1) by (simp add: zipf_ok_def draws_ok_def)
  with assms(1) zipf_draw_value [of E g "canon E (canon_pos r)" "z_num_items g"]
  have "\<exists>v. zipf_draw E (z_num_items g) g (canon E (canon_pos r)) = Inr v \<and> zipf_outs g v"
    by (simp add: zipf_ok_def zipf_outs_def)
  then show ?thesis
    using assms by (auto simp: zipf_Next_def zipf_ok_def zipf_next_no_raise bind_r_eq_Inr)
qed

interpretation zipf_i: generator "zipf_Next E" "\<lambda>g. Inr (zipf_Last g)" "zipf_ok E" zipf_outs for E
proof
  fix g r v g' r'
  assume n: "zipf_Next E g r = Inr (v, g', r')"
  then show "Inr (zipf_Last g') = (Inr v :: stop + u64)"
    by (auto simp: zipf_Next_def zipf_next_eq bind_r_eq_Inr zipf_Last_def)
  assume ok: "zipf_ok E g"
  from zipf_Next_outs [OF ok n] show "zipf_outs g v" "zipf_outs g' = zipf_outs g"
    by (simp_all add: zipf_outs_def fun_eq_iff)
  from zipf_Next_outs [OF ok n] ok show "zipf_ok E g'"
    by (simp add: zipf_ok_def zipf_params_def)
qed

text \<open>
  the two most frequent ranks ignore the base of the range: a draw in the head of
  the distribution returns 0 whatever \<open>min\<close> the generator was built with, so a
  generator over \<open>[1, max]\<close>, as used for scan and field lengths, returns 0.
\<close>

theorem zipf_head_ignores_base:
  assumes "canon E (canon_pos r) * z_zeta_n g < 1"
    and "2 \<le> num" "num < kMaxNumItems" "num \<le> z_n_for_zeta g"
  shows "zipf_next E num g r =
    Inr (0, g\<lparr>z_last_value := 0\<rparr>, r\<lparr>canon_pos := Suc (canon_pos r)\<rparr>)"
  using assms by (rule zipf_next_head)

section \<open>A generator over three values\<close>

text \<open>
  \<open>sample_pow\<close> gives the doubles glibc's \<open>pow\<close> returns for the arguments that a
  generator over three values uses, so that the model can be run on it;
  \<open>sample_env u\<close> is an environment in which every random double is \<open>u\<close>.
\<close>

definition sample_pow :: "double \<Rightarrow> double \<Rightarrow> double" where
  "sample_pow x y =
     (if x = Fin 2 then Fin (4472490992394671 / 2251799813685248)
      else if x = Fin 3 then Fin (6681589974947449 / 2251799813685248)
      else if x = Fin (6004799503160661 / 9007199254740992)
        then Fin (8970752144635555 / 9007199254740992)
      else if x = Fin (1 / 2) then Fin (1133731160003523 / 2251799813685248)
      else Fin 1)"

definition sample_env :: "double \<Rightarrow> env" where
  "sample_env u =
     \<lparr>ndebug = False, pw = sample_pow, canon = \<lambda>_. u, crand = \<lambda>n. n, mt64 = \<lambda>n. of_nat n\<rparr>"

definition sample_zipf :: zipf where
  "sample_zipf =
     \<lparr>z_num_items = 3, z_base = 1, z_theta = kZipfianConst,
      z_zeta_n = Fin (8288845115732705 / 4503599627370496),
      z_eta = Fin (6369383071389143 / 288230376151711744),
      z_alpha = 1 / (1 - kZipfianConst),
      z_zeta_2 = Fin (3385530973688771 / 2251799813685248), z_n_for_zeta = 3, z_last_value = 0\<rparr>"

lemma theta_val: "kZipfianConst = Fin (4458563631096791 / 4503599627370496)"
  by (simp add: kZipfianConst_def dbl_eval)

lemma upt_small: "[Suc 0..<3] = [1, 2]" "[Suc 0..<4] = [1, 2, 3]"
  by (simp_all add: upt_rec)

lemma of_u64_123: "of_u64 1 = Fin 1" "of_u64 2 = Fin 2" "of_u64 3 = Fin 3"
  by (simp_all add: of_u64_small)

lemmas sample_eval = sample_env_def sample_pow_def of_u64_123 dbl_eval double_ops

lemma sample_canon [simp]: "canon (sample_env u) n = u" "ndebug (sample_env u) = False"
  by (simp_all add: sample_env_def)

lemma three_lt_kMax [simp]: "2 < kMaxNumItems" "3 < kMaxNumItems"
  by (simp_all add: kMaxNumItems_def mask_eq_exp_minus_1)

lemma sample_zeta2:
  "Zeta (sample_env u) 2 kZipfianConst = Inr (Fin (3385530973688771 / 2251799813685248))"
  by (simp add: Zeta_def Zeta_from_result zeta_sum_def upt_small sample_eval)

lemma sample_zeta3:
  "Zeta (sample_env u) 3 kZipfianConst = Inr (Fin (8288845115732705 / 4503599627370496))"
  by (simp add: Zeta_def Zeta_from_result zeta_sum_def upt_small sample_eval)

lemma sample_eta:
  "z_num_items g = 3 \<Longrightarrow> z_theta g = kZipfianConst \<Longrightarrow>
   z_zeta_2 g = Fin (3385530973688771 / 2251799813685248) \<Longrightarrow>
   z_zeta_n g = Fin (8288845115732705 / 4503599627370496) \<Longrightarrow>
   Eta (sample_env u) g = Fin (6369383071389143 / 288230376151711744)"
  by (simp add: Eta_def theta_val sample_eval)

lemma sample_new:
  "zipf_draw (sample_env u) 3 sample_zipf u = Inr v \<Longrightarrow>
   zipf_new (sample_env u) 1 3 kZipfianConst r =
     Inr (sample_zipf\<lparr>z_last_value := v\<rparr>, r\<lparr>canon_pos := Suc (canon_pos r)\<rparr>)"
  using sample_zeta2 [of u] sample_zeta3 [of u]
  by (simp add: zipf_new_def RaiseZeta_def sample_eta Zeta_def zipf_Next_def zipf_next_eq
      sample_zipf_def)

lemma sample_draw_top:
  "zipf_draw (sample_env u) 3 sample_zipf (Fin (1 - 1 / 2 ^ 53)) = Inr 4"
  by (simp add: zipf_draw_def sample_zipf_def theta_val sample_eval trunc_rat_def)

lemma sample_draw_0: "zipf_draw E num sample_zipf (Fin 0) = Inr 0"
  by (simp add: zipf_draw_def sample_zipf_def double_ops dbl_eval)

lemma sample_pow_unit: "pow_unit (sample_env u)"
  unfolding pow_unit_def
proof (intro allI impI)
  fix x a :: rat
  assume "0 \<le> x \<and> x \<le> 1 \<and> 0 < a"
  then show "\<exists>p. pw (sample_env u) (Fin x) (Fin a) = Fin p \<and> 0 \<le> p \<and> p \<le> 1"
    by (intro exI [of _ "if x = 6004799503160661 / 9007199254740992
          then 8970752144635555 / 9007199254740992
          else if x = 1 / 2 then 1133731160003523 / 2251799813685248 else 1"])
      (auto simp: sample_env_def sample_pow_def)
qed

lemma sample_draws_ok: "draws_ok (sample_env (Fin 0))"
  by (simp add: draws_ok_def unit_draw_def dbl_eval rnd_def)

lemma sample_params: "zipf_params sample_zipf"
  by (simp add: zipf_params_def sample_zipf_def theta_val dbl_eval double_ops)

text \<open>
  the upper bound of \<open>zipf_next_bounds\<close> is reached: a generator over \<open>[1, 3]\<close> whose
  random double is the largest one below 1 returns 4, one more than its maximum,
  because \<open>eta * u - eta + 1\<close> rounds to 1.
\<close>

theorem zipf_exceeds_max:
  "\<exists>g r'. zipf_new (sample_env (Fin (1 - 1 / 2 ^ 53))) 1 3 kZipfianConst r = Inr (g, r')
     \<and> zipf_Last g = 4"
  unfolding sample_new [OF sample_draw_top] zipf_Last_def by simp

theorem Zeta_incremental_witness:
  "Zeta_from (sample_env (Fin 0)) 2 3 kZipfianConst (Fin (3385530973688771 / 2251799813685248)) =
   Zeta (sample_env (Fin 0)) 3 kZipfianConst"
  using Zeta_incremental [OF sample_zeta2, of 3] by simp

theorem zipf_next_keeps_zeta_witness:
  "z_n_for_zeta sample_zipf = 3 \<and>
   Zeta (sample_env (Fin 0)) 3 kZipfianConst = Inr (z_zeta_n sample_zipf)"
proof -
  let ?r = "\<lparr>canon_pos = 0, crand_pos = 0\<rparr>" and ?g = "sample_zipf\<lparr>z_last_value := 0\<rparr>"
  have g: "?g = sample_zipf" by (simp add: sample_zipf_def)
  have n: "z_n_for_zeta sample_zipf = 3" by (simp add: sample_zipf_def)
  have "fold (\<lambda>num s. bind_r s (\<lambda>(_, g, r). zipf_next (sample_env (Fin 0)) num g r)) [3, 2]
      (Inr (0, ?g, ?r\<lparr>canon_pos := Suc (canon_pos ?r)\<rparr>)) = Inr (0, sample_zipf, ?r\<lparr>canon_pos := 3\<rparr>)"
    by (simp only: g) (simp add: zipf_next_no_raise n sample_draw_0 g)
  from zipf_next_keeps_zeta [OF sample_new [OF sample_draw_0, of ?r] this]
  show ?thesis by (simp add: sample_zipf_def)
qed

theorem zipf_next_bounds_witness:
  "\<exists>v r'. zipf_next (sample_env (Fin 0)) 3 sample_zipf \<lparr>canon_pos = 0, crand_pos = 0\<rparr> =
     Inr (v, sample_zipf\<lparr>z_last_value := v\<rparr>, r') \<and> uint v \<le> 4"
proof -
  have "z_n_for_zeta sample_zipf = 3" "z_base sample_zipf = 1" by (simp_all add: sample_zipf_def)
  moreover have "2 \<le> (3 :: u64) \<and> 3 < kMaxNumItems" by (simp add: kMaxNumItems_def mask_eq_exp_minus_1)
  note zipf_next_bounds [OF sample_pow_unit sample_draws_ok sample_params, of 3, unfolded if_P [OF this]]
  ultimately show ?thesis by fastforce
qed

theorem zipf_head_ignores_base_witness:
  "z_base sample_zipf = 1 \<and>
   zipf_next (sample_env (Fin 0)) 3 sample_zipf \<lparr>canon_pos = 0, crand_pos = 0\<rparr> =
     Inr (0, sample_zipf\<lparr>z_last_value := 0\<rparr>, \<lparr>canon_pos = 1, crand_pos = 0\<rparr>)"
proof -
  have "canon (sample_env (Fin 0)) 0 * z_zeta_n sample_zipf < 1" "z_n_for_zeta sample_zipf = 3"
    "z_base sample_zipf = 1"
    by (simp_all add: sample_zipf_def double_ops dbl_eval)
  then show ?thesis
    using zipf_head_ignores_base [of "sample_env (Fin 0)" "\<lparr>canon_pos = 0, crand_pos = 0\<rparr>"
        sample_zipf 3] by simp
qed

end
