(* ===== verification/Scrambled_Latest.thy ===== *)
theory Scrambled_Latest
  imports Zipfian
begin

text \<open>
  \<open>core/scrambled_zipfian_generator.h\<close> and \<open>core/skewed_latest_generator.h\<close>: the two
  key choosers built on a \<open>ZipfianGenerator\<close>.  Scrambling hashes a rank into the key
  range; the latest generator counts ranks down from the newest key, reading the
  counter it was given by reference, which is an argument of its operations here.
\<close>

section \<open>Scrambled Zipfian\<close>

record scrambled =
  s_base :: u64
  s_num_items :: u64
  s_generator :: zipf

text \<open>A remainder by zero is undefined.\<close>

definition Scramble :: "scrambled \<Rightarrow> u64 \<Rightarrow> stop + u64" where
  "Scramble g val =
     (if s_num_items g = 0 then Inl Undefined
      else Inr (s_base g + FNVHash64 val mod s_num_items g))"

definition scrambled_next :: "env \<Rightarrow> scrambled \<Rightarrow> rng \<Rightarrow> stop + (u64 \<times> scrambled \<times> rng)" where
  "scrambled_next E g r =
     bind_r (zipf_Next E (s_generator g) r) (\<lambda>(v, z, r).
     (let g = g\<lparr>s_generator := z\<rparr>
      in bind_r (Scramble g v) (\<lambda>s. Inr (s, g, r))))"

definition scrambled_last :: "scrambled \<Rightarrow> stop + u64" where
  "scrambled_last g = Scramble g (zipf_Last (s_generator g))"

definition scrambled_new ::
  "env \<Rightarrow> u64 \<Rightarrow> u64 \<Rightarrow> double \<Rightarrow> rng \<Rightarrow> stop + (scrambled \<times> rng)" where
  "scrambled_new E lo hi zipfian_const r =
     bind_r (zipf_new E lo hi zipfian_const r) (\<lambda>(z, r).
     Inr (\<lparr>s_base = lo, s_num_items = hi - lo + 1, s_generator = z\<rparr>, r))"

definition scrambled_new_items :: "env \<Rightarrow> u64 \<Rightarrow> rng \<Rightarrow> stop + (scrambled \<times> rng)" where
  "scrambled_new_items E num_items r = scrambled_new E 0 (num_items - 1) kZipfianConst r"

lemma scrambled_next_Inr [result_simps]:
  "scrambled_next E g r = Inr (s, g', r') \<longleftrightarrow>
     (\<exists>v z. zipf_Next E (s_generator g) r = Inr (v, z, r') \<and> g' = g\<lparr>s_generator := z\<rparr>
        \<and> s_num_items g \<noteq> 0 \<and> s = s_base g + FNVHash64 v mod s_num_items g)"
  by (auto simp: scrambled_next_def Scramble_def bind_r_eq_Inr Let_def split: if_splits)

text \<open>The generator covers \<open>[min, max]\<close>: the range does not wrap.\<close>

definition scrambled_range :: "scrambled \<Rightarrow> u64 \<Rightarrow> u64 \<Rightarrow> bool" where
  "scrambled_range g lo hi \<longleftrightarrow> lo \<le> hi \<and> s_base g = lo \<and> s_num_items g = hi - lo + 1"

lemma scramble_in_range:
  fixes lo hi x :: u64
  assumes "lo \<le> hi" "hi - lo + 1 \<noteq> 0"
  shows "lo \<le> lo + x mod (hi - lo + 1) \<and> lo + x mod (hi - lo + 1) \<le> hi"
proof -
  have "hi - lo \<noteq> -1" using assms(2) by (auto simp: eq_neg_iff_add_eq_0)
  with assms(1) show ?thesis by (rule word_add_mod_range)
qed

interpretation scrambled_i: generator "scrambled_next E" scrambled_last
    "\<lambda>g. scrambled_range g (s_base g) (s_base g + s_num_items g - 1)"
    "\<lambda>g v. s_base g \<le> v \<and> v \<le> s_base g + s_num_items g - 1" for E
proof
  fix g r v g' r'
  assume n: "scrambled_next E g r = Inr (v, g', r')"
  then obtain w z where w: "zipf_Next E (s_generator g) r = Inr (w, z, r')"
    "g' = g\<lparr>s_generator := z\<rparr>" "s_num_items g \<noteq> 0"
    "v = s_base g + FNVHash64 w mod s_num_items g"
    unfolding scrambled_next_Inr by blast
  have "zipf_Last z = w" using zipf_i.last_next [OF w(1)] by simp
  with w show "scrambled_last g' = Inr v" by (simp add: scrambled_last_def Scramble_def)
  assume ok: "scrambled_range g (s_base g) (s_base g + s_num_items g - 1)"
  then show "scrambled_range g' (s_base g') (s_base g' + s_num_items g' - 1)"
    by (simp add: w(2) scrambled_range_def)
  have "s_base g + s_num_items g - 1 - s_base g + 1 = s_num_items g" by simp
  with scramble_in_range [of "s_base g" "s_base g + s_num_items g - 1" "FNVHash64 w"] ok w(3)
  show "s_base g \<le> v \<and> v \<le> s_base g + s_num_items g - 1"
    by (simp add: scrambled_range_def w(4))
  show "(\<lambda>v. s_base g' \<le> v \<and> v \<le> s_base g' + s_num_items g' - 1) =
      (\<lambda>v. s_base g \<le> v \<and> v \<le> s_base g + s_num_items g - 1)"
    by (simp add: w(2))
qed

lemma scrambled_new_range:
  assumes "scrambled_new E lo hi th r = Inr (g, r')" "lo \<le> hi"
  shows "scrambled_range g lo hi \<and> s_base g = lo \<and> s_base g + s_num_items g - 1 = hi"
  using assms by (auto simp: scrambled_new_def bind_r_eq_Inr scrambled_range_def)

text \<open>
  whatever rank the Zipf generator inside returns, even one beyond its range, a
  scrambled generator over \<open>[min, max]\<close> only returns values of \<open>[min, max]\<close>, on any
  number of calls, and \<open>Last\<close> computes the latest of them again.
\<close>

theorem scrambled_draws_range:
  assumes "scrambled_new E lo hi th r0 = Inr (g, r)" "lo \<le> hi"
    and "draws (scrambled_next E) n g r = Inr (vs, g', r')"
  shows "length vs = n \<and> (\<forall>i < n. lo \<le> vs ! i \<and> vs ! i \<le> hi) \<and>
    (n \<noteq> 0 \<longrightarrow> scrambled_last g' = Inr (last vs))"
  using scrambled_new_range [OF assms(1,2)] scrambled_i.draws_outs [OF _ assms(3)]
    scrambled_i.draws_last [OF assms(3)]
  by (auto simp: list_all_length)

text \<open>A scrambled generator whose Zipf generator is within its bounds always returns.\<close>

definition scrambled_ok :: "env \<Rightarrow> scrambled \<Rightarrow> bool" where
  "scrambled_ok E g \<longleftrightarrow> zipf_ok E (s_generator g) \<and>
     2 \<le> z_num_items (s_generator g) \<and> z_num_items (s_generator g) < kMaxNumItems \<and>
     s_num_items g \<noteq> 0 \<and> scrambled_range g (s_base g) (s_base g + s_num_items g - 1)"

definition scrambled_max :: "scrambled \<Rightarrow> u64" where
  "scrambled_max g = s_base g + s_num_items g - 1"

lemma scrambled_next_total:
  assumes "scrambled_ok E g"
  shows "\<exists>v g'. scrambled_next E g r = Inr (v, g', r\<lparr>canon_pos := Suc (canon_pos r)\<rparr>) \<and>
    v \<le> scrambled_max g \<and> scrambled_ok E g' \<and> s_base g' = s_base g \<and> s_num_items g' = s_num_items g \<and>
    z_zeta_n (s_generator g') = z_zeta_n (s_generator g)"
proof -
  let ?z = "s_generator g"
  have z: "zipf_ok E ?z" "2 \<le> z_num_items ?z" "z_num_items ?z < kMaxNumItems" "s_num_items g \<noteq> 0"
    "scrambled_range g (s_base g) (s_base g + s_num_items g - 1)"
    using assms by (simp_all add: scrambled_ok_def)
  obtain v where v: "zipf_Next E ?z r =
      Inr (v, ?z\<lparr>z_last_value := v\<rparr>, r\<lparr>canon_pos := Suc (canon_pos r)\<rparr>)"
    using zipf_next_bounds_aux [of E ?z "z_num_items ?z" r] z(1-3) by (auto simp: zipf_ok_def zipf_Next_def)
  let ?g = "g\<lparr>s_generator := ?z\<lparr>z_last_value := v\<rparr>\<rparr>"
  have n: "scrambled_next E g r = Inr (s_base g + FNVHash64 v mod s_num_items g, ?g,
      r\<lparr>canon_pos := Suc (canon_pos r)\<rparr>)"
    using v z(4) by (simp add: scrambled_next_def Scramble_def Let_def)
  have "zipf_ok E (?z\<lparr>z_last_value := v\<rparr>)" using zipf_i.ok_next [OF z(1) v] .
  then have "scrambled_ok E ?g" using z by (simp add: scrambled_ok_def scrambled_range_def)
  moreover have "s_base g + FNVHash64 v mod s_num_items g \<le> scrambled_max g"
    using scrambled_i.outs_next [OF z(5) n] by (simp add: scrambled_max_def)
  ultimately show ?thesis using n by (auto simp: scrambled_max_def)
qed

section \<open>Skewed towards the latest\<close>

record latest =
  l_zipfian :: zipf
  l_last :: u64

definition latest_next :: "env \<Rightarrow> counter \<Rightarrow> latest \<Rightarrow> rng \<Rightarrow> stop + (u64 \<times> latest \<times> rng)" where
  "latest_next E basis g r =
     (let maximum = counter_last basis
      in bind_r (zipf_next E maximum (l_zipfian g) r) (\<lambda>(v, z, r).
         Inr (maximum - v, g\<lparr>l_zipfian := z, l_last := maximum - v\<rparr>, r)))"

definition latest_last :: "latest \<Rightarrow> u64" where
  "latest_last g = l_last g"

text \<open>The constructor draws twice: once in the \<open>ZipfianGenerator\<close>, once itself.\<close>

definition latest_new :: "env \<Rightarrow> counter \<Rightarrow> rng \<Rightarrow> stop + (latest \<times> rng)" where
  "latest_new E basis r =
     bind_r (zipf_new_items E (counter_last basis) r) (\<lambda>(z, r).
     bind_r (latest_next E basis \<lparr>l_zipfian = z, l_last = 0\<rparr> r) (\<lambda>(_, g, r).
     Inr (g, r)))"

text \<open>
  What the operations keep, for a basis that is at \<open>n\<close>: the Zipf generator starts at
  rank 0, its zeta covers \<open>n\<close> values and its constants are in order.
\<close>

definition latest_ok :: "env \<Rightarrow> counter \<Rightarrow> latest \<Rightarrow> bool" where
  "latest_ok E basis g \<longleftrightarrow>
     pow_unit E \<and> draws_ok E \<and> zipf_params (l_zipfian g) \<and> z_base (l_zipfian g) = 0
     \<and> 2 \<le> counter_last basis \<and> counter_last basis < kMaxNumItems
     \<and> counter_last basis \<le> z_n_for_zeta (l_zipfian g)"

lemma zipf_params_last [simp]: "zipf_params (z\<lparr>z_last_value := v\<rparr>) = zipf_params z"
  by (simp add: zipf_params_def)

lemma zipf_draw_last [simp]: "zipf_draw E n (z\<lparr>z_last_value := v\<rparr>) u = zipf_draw E n z u"
  by (simp add: zipf_draw_def cong: if_cong)

lemma latest_next_total:
  assumes "latest_ok E basis g"
  shows "\<exists>v g'. latest_next E basis g r = Inr (v, g', r\<lparr>canon_pos := Suc (canon_pos r)\<rparr>)
    \<and> v \<le> counter_last basis \<and> latest_ok E basis g' \<and> latest_last g' = v"
proof -
  let ?m = "counter_last basis" and ?z = "l_zipfian g"
  have m: "2 \<le> ?m" "?m < kMaxNumItems" "z_base ?z = 0" using assms by (simp_all add: latest_ok_def)
  have "(2::int) ^ 40 \<le> 2 ^ 53" by simp
  then have "uint (z_base ?z) + uint ?m \<le> 2 ^ 53"
    using less_kMax [OF m(2)] m(3) by simp
  with zipf_next_bounds_aux [of E ?z ?m r] assms
  obtain v where v: "zipf_next E ?m ?z r =
      Inr (v, ?z\<lparr>z_last_value := v\<rparr>, r\<lparr>canon_pos := Suc (canon_pos r)\<rparr>)"
    "v = 0 \<or> v = 1 \<or> uint v \<le> uint ?m"
    by (auto simp: latest_ok_def)
  have "v \<le> ?m"
    using v(2) m(1) by (auto simp: word_le_def)
  then have "?m - v \<le> ?m" by (simp add: word_sub_le)
  with v(1) assms show ?thesis
    by (simp add: latest_next_def latest_ok_def latest_last_def Let_def)
qed

interpretation latest_i: generator "latest_next E basis" "\<lambda>g. Inr (latest_last g)"
    "latest_ok E basis" "\<lambda>_ v. v \<le> counter_last basis" for E basis
proof
  fix g r v g' r'
  assume n: "latest_next E basis g r = Inr (v, g', r')"
  then show "Inr (latest_last g') = (Inr v :: stop + u64)"
    by (auto simp: latest_next_def latest_last_def bind_r_eq_Inr Let_def)
  assume "latest_ok E basis g"
  from latest_next_total [OF this, of r] n
  show "latest_ok E basis g'" "v \<le> counter_last basis" by auto
qed simp

lemma latest_new_made:
  assumes "latest_new E basis r = Inr (g, r')"
  shows "z_base (l_zipfian g) = 0 \<and> counter_last basis \<le> z_n_for_zeta (l_zipfian g)"
proof -
  obtain z s v t where z: "zipf_new_items E (counter_last basis) r = Inr (z, s)"
    and n: "zipf_next E (counter_last basis) z s = Inr (v, l_zipfian g, t)"
    using assms by (auto simp: latest_new_def latest_next_def bind_r_eq_Inr Let_def)
  have made: "zipf_inv E z" "z_base z = 0"
    using zipf_new_made [of E 0 _ kZipfianConst r z s] z by (auto simp: zipf_new_items_def)
  from zipf_next_inv [OF made(1) n] made(2) show ?thesis by simp
qed

text \<open>
  over a counter that has handed out the keys up to \<open>m\<close>, the latest generator
  always returns, and returns a key not above \<open>m\<close>; a draw in the head of the Zipf
  distribution returns \<open>m\<close> itself.
\<close>

theorem latest_next_range:
  assumes "latest_ok E basis g"
  shows "(\<exists>v g' r'. latest_next E basis g r = Inr (v, g', r') \<and> v \<le> counter_last basis) \<and>
    (canon E (canon_pos r) * z_zeta_n (l_zipfian g) < 1 \<longrightarrow>
      (\<exists>g' r'. latest_next E basis g r = Inr (counter_last basis, g', r')))"
  using latest_next_total [OF assms, of r] assms
    zipf_next_head [of E r "l_zipfian g" "counter_last basis"]
  by (auto simp: latest_next_def latest_ok_def Let_def)

theorem scrambled_draws_range_witness:
  "\<exists>v g r g' r'. scrambled_new (sample_env (Fin (1 - 1 / 2 ^ 53))) 1 3 kZipfianConst
       \<lparr>canon_pos = 0, crand_pos = 0\<rparr> = Inr (g, r) \<and>
     draws (scrambled_next (sample_env (Fin (1 - 1 / 2 ^ 53)))) 1 g r = Inr ([v], g', r') \<and>
     1 \<le> v \<and> v \<le> 3 \<and> zipf_Last (s_generator g') = 4"
proof -
  define u where "u = Fin (1 - 1 / 2 ^ 53)"
  let ?r = "\<lparr>canon_pos = 0, crand_pos = 0\<rparr>"
  let ?E = "sample_env u" and ?z = "sample_zipf\<lparr>z_last_value := 4\<rparr>"
  let ?g = "\<lparr>s_base = 1, s_num_items = 3, s_generator = ?z\<rparr>"
  let ?s = "?r\<lparr>canon_pos := Suc (canon_pos ?r)\<rparr>" and ?v = "1 + FNVHash64 4 mod 3"
  have top: "zipf_draw ?E 3 sample_zipf u = Inr 4"
    using sample_draw_top [of u] by (simp only: u_def)
  have "scrambled_new ?E 1 3 kZipfianConst ?r = Inr (?g, ?s)"
    by (simp add: scrambled_new_def sample_new [OF top])
  note new = this
  have pd: "zipf_draw ?E 3 ?z u = Inr 4"
    using top by simp
  have "zipf_Next ?E ?z ?s = Inr (4, ?z, ?s\<lparr>canon_pos := Suc (canon_pos ?s)\<rparr>)"
    using pd by (simp add: zipf_Next_def zipf_next_no_raise sample_zipf_def)
  then have d: "draws (scrambled_next ?E) 1 ?g ?s =
      Inr ([?v], ?g, ?s\<lparr>canon_pos := Suc (canon_pos ?s)\<rparr>)"
    by (simp add: scrambled_next_def Scramble_def Let_def)
  have b: "1 \<le> ?v \<and> ?v \<le> 3"
    using scrambled_draws_range [OF new _ d] by simp
  have l: "zipf_Last (s_generator ?g) = 4" by (simp add: zipf_Last_def)
  show ?thesis unfolding u_def [symmetric]
    by (intro exI conjI) (rule new, rule d, use b l in simp_all)
qed

theorem latest_next_range_witness:
  "\<exists>g' r'. latest_next (sample_env (Fin 0)) (counter_new 4)
     \<lparr>l_zipfian = sample_zipf\<lparr>z_base := 0\<rparr>, l_last = 0\<rparr> \<lparr>canon_pos = 0, crand_pos = 0\<rparr> =
     Inr (3, g', r')"
proof -
  let ?g = "\<lparr>l_zipfian = sample_zipf\<lparr>z_base := 0\<rparr>, l_last = 0\<rparr>" and ?b = "counter_new 4"
  have "zipf_params (sample_zipf\<lparr>z_base := 0\<rparr>)"
    using sample_params by (simp add: zipf_params_def)
  then have "latest_ok (sample_env (Fin 0)) ?b ?g"
    by (simp add: latest_ok_def sample_pow_unit sample_draws_ok counter_new_def counter_last_def)
      (simp add: sample_zipf_def)
  note r = latest_next_range [OF this]
  have c: "canon (sample_env (Fin 0)) 0 * z_zeta_n (l_zipfian ?g) < 1"
    by (simp add: sample_zipf_def double_ops dbl_eval)
  have l: "counter_last ?b = 3" by (simp add: counter_new_def counter_last_def)
  show ?thesis
    using r [of "\<lparr>canon_pos = 0, crand_pos = 0\<rparr>"] c l by simp
qed

end
