(* ===== verification/Discrete.thy ===== *)
theory Discrete
  imports Zipfian
begin

text \<open>
  \<open>core/discrete_generator.h\<close>: the weighted choice that picks the next operation.  The
  lemmas show that a returned value is one that was added, and reduce the question
  whether the loop can run past its end, into \<open>assert(false)\<close>, to a single
  evaluation at the largest random double.
\<close>

section \<open>State and operations\<close>

text \<open>
  Before the first \<open>AddValue\<close> the atomic \<open>last_\<close> holds a value-initialised \<open>Value\<close> (C++20),
  for an enumeration the one numbered 0: the argument of \<open>discrete_new\<close>.
\<close>

record 'v discrete =
  d_values :: "('v \<times> double) list"
  d_sum :: double
  d_last :: 'v

definition discrete_new :: "'v \<Rightarrow> 'v discrete" where
  "discrete_new zero = \<lparr>d_values = [], d_sum = 0, d_last = zero\<rparr>"

definition AddValue :: "'v \<Rightarrow> double \<Rightarrow> 'v discrete \<Rightarrow> 'v discrete" where
  "AddValue val weight d =
     (let d = (if d_values d = [] then d\<lparr>d_last := val\<rparr> else d)
      in d\<lparr>d_values := d_values d @ [(val, weight)], d_sum := d_sum d + weight\<rparr>)"

text \<open>The loop of \<open>Next\<close>; \<open>None\<close> when it runs past the last pair.\<close>

fun choose_loop :: "double \<Rightarrow> double \<Rightarrow> ('v \<times> double) list \<Rightarrow> 'v option" where
  "choose_loop s chooser [] = None"
| "choose_loop s chooser ((v, w) # ps) =
     (if chooser < w / s then Some v else choose_loop s (chooser - w / s) ps)"

definition discrete_next ::
  "env \<Rightarrow> 'v discrete \<Rightarrow> rng \<Rightarrow> stop + ('v \<times> 'v discrete \<times> rng)" where
  "discrete_next E d r0 =
     (let (chooser, r) = RandomDouble E r0
      in case choose_loop (d_sum d) chooser (d_values d) of
           Some v \<Rightarrow> Inr (v, d\<lparr>d_last := v\<rparr>, r)
         | None \<Rightarrow> bind_r (cassert (ndebug E) False) (\<lambda>_. Inr (d_last d, d, r)))"

definition discrete_last :: "'v discrete \<Rightarrow> 'v" where
  "discrete_last d = d_last d"

section \<open>Values come from the table\<close>

lemma choose_loop_mem: "choose_loop s c ps = Some v \<Longrightarrow> v \<in> fst ` set ps"
  by (induction s c ps rule: choose_loop.induct) (auto split: if_splits)

text \<open>The last value was added, once any value was.\<close>

definition discrete_inv :: "'v discrete \<Rightarrow> bool" where
  "discrete_inv d \<longleftrightarrow> d_values d = [] \<or> d_last d \<in> fst ` set (d_values d)"

text \<open>The values \<open>Next\<close> can return: those of the table, or \<open>last_\<close> while it is empty.\<close>

definition discrete_outs :: "'v discrete \<Rightarrow> 'v \<Rightarrow> bool" where
  "discrete_outs d v \<longleftrightarrow> (if d_values d = [] then v = d_last d else v \<in> fst ` set (d_values d))"

lemma discrete_new_inv [simp]: "discrete_inv (discrete_new zero)"
  by (simp add: discrete_inv_def discrete_new_def)

lemma new_values [simp]: "d_values (discrete_new zero) = []" "d_last (discrete_new zero) = zero"
  by (simp_all add: discrete_new_def)

lemma AddValue_inv [simp]: "discrete_inv d \<Longrightarrow> discrete_inv (AddValue v w d)"
  by (auto simp: discrete_inv_def AddValue_def Let_def)

lemma AddValue_values [simp]: "d_values (AddValue v w d) = d_values d @ [(v, w)]"
  by (simp add: AddValue_def Let_def)

lemma discrete_next_cases:
  assumes "discrete_next E d r = Inr (v, d', r')"
  shows "r' = r\<lparr>canon_pos := Suc (canon_pos r)\<rparr> \<and> d' = d\<lparr>d_last := v\<rparr> \<and>
    (choose_loop (d_sum d) (canon E (canon_pos r)) (d_values d) = Some v \<or> d_last d = v \<and> ndebug E)"
  using assms
  by (cases d) (auto simp: discrete_next_def RandomDouble_def result_simps split: option.splits)

interpretation discrete_i: generator "discrete_next E" "\<lambda>d. Inr (discrete_last d)" discrete_inv
    discrete_outs for E
proof
  fix d r v d' r'
  assume n: "discrete_next E d r = Inr (v, d', r')"
  note c = discrete_next_cases [OF this]
  from c show "Inr (discrete_last d') = (Inr v :: stop + _)" by (simp add: discrete_last_def)
  assume i: "discrete_inv d"
  with c show o: "discrete_outs d v"
    by (auto simp: discrete_inv_def discrete_outs_def dest: choose_loop_mem)
  with c show "discrete_inv d'" by (auto simp: discrete_inv_def discrete_outs_def split: if_splits)
  from c o show "discrete_outs d' = discrete_outs d" by (auto simp: discrete_outs_def fun_eq_iff)
qed

lemma fold_AddValue:
  "d_values (fold (\<lambda>(v, w). AddValue v w) ps d) = d_values d @ ps \<and>
   (discrete_inv d \<longrightarrow> discrete_inv (fold (\<lambda>(v, w). AddValue v w) ps d))"
  by (induction ps arbitrary: d) (auto split: prod.splits)

text \<open>
  any sequence of draws from a table built by at least one \<open>AddValue\<close> only yields
  values that were added to it, even where the loop runs past its end in a build
  without assertions.
\<close>

theorem discrete_draws_added:
  assumes "draws (discrete_next E) n (fold (\<lambda>(v, w). AddValue v w) ps (discrete_new zero)) r =
      Inr (vs, d, r')" "ps \<noteq> []"
  shows "length vs = n \<and> set vs \<subseteq> fst ` set ps"
  using discrete_i.draws_outs [OF _ assms(1)] fold_AddValue [of ps "discrete_new zero"] assms(2)
  by (auto simp: list_all_iff discrete_outs_def)

section \<open>The assertion at the end of the loop\<close>

text \<open>
  Every quotient of a weight and the sum is a double of the unit interval.  The loop is
  then monotone: if it finds a value for some \<open>chooser\<close>, it finds one for every smaller
  one, because rounded subtraction is monotone.
\<close>

definition unit_quotients :: "double \<Rightarrow> ('v \<times> double) list \<Rightarrow> bool" where
  "unit_quotients s ps \<longleftrightarrow>
     list_all (\<lambda>(_, w). case w / s of Fin q \<Rightarrow> 0 \<le> q \<and> q \<le> 1 | _ \<Rightarrow> False) ps"

lemma choose_loop_mono:
  assumes "unit_quotients s ps" "choose_loop s (Fin c) ps \<noteq> None"
    and "0 \<le> b" "b \<le> c" "c \<le> 1"
  shows "choose_loop s (Fin b) ps \<noteq> None"
  using assms
proof (induction ps arbitrary: b c)
  case (Cons p ps)
  obtain v w where p: "p = (v, w)" by (cases p)
  obtain q where q: "w / s = Fin q" "0 \<le> q" "q \<le> 1"
    using Cons.prems(1) by (auto simp: unit_quotients_def p split: double.splits)
  show ?case
  proof (cases "b < q")
    case True
    then show ?thesis by (simp add: p q(1) less_double_def)
  next
    case False
    have sub: "Fin x - Fin q = Fin (rnd (x - q))" if "0 \<le> x" "x \<le> 1" for x
      using that q by (simp add: double_ops to_dbl_Fin)
    have "\<not> c < q" using False Cons.prems(4) by simp
    then have "choose_loop s (Fin (rnd (c - q))) ps \<noteq> None"
      using Cons.prems sub [of c] by (simp add: p q(1) less_double_def)
    moreover have "0 \<le> rnd (b - q)" "rnd (b - q) \<le> rnd (c - q)" "rnd (c - q) \<le> 1"
      using False Cons.prems q by (simp_all add: rnd_nonneg rnd_mono rnd_le_1)
    moreover have "unit_quotients s ps"
      using Cons.prems(1) by (simp add: unit_quotients_def)
    ultimately have "choose_loop s (Fin (rnd (b - q))) ps \<noteq> None"
      using Cons.IH by blast
    then show ?thesis using False Cons.prems sub [of b] by (simp add: p q(1) less_double_def)
  qed
qed simp

lemma discrete_next_total_aux:
  assumes "draws_ok E" "unit_quotients (d_sum d) (d_values d)"
    and "choose_loop (d_sum d) (Fin (1 - 1 / 2 ^ 53)) (d_values d) \<noteq> None"
  shows "\<exists>v. discrete_next E d r =
      Inr (v, d\<lparr>d_last := v\<rparr>, r\<lparr>canon_pos := Suc (canon_pos r)\<rparr>) \<and>
    v \<in> fst ` set (d_values d)"
proof -
  obtain u where u: "canon E (canon_pos r) = Fin u" "0 \<le> u" "u \<le> 1 - 1 / 2 ^ 53"
    using assms(1) unit_draw_le by (auto simp: draws_ok_def)
  have "choose_loop (d_sum d) (Fin u) (d_values d) \<noteq> None"
    by (rule choose_loop_mono [OF assms(2,3) u(2,3)]) simp
  then obtain v where v: "choose_loop (d_sum d) (Fin u) (d_values d) = Some v" by blast
  from choose_loop_mem [OF v] v u(1) show ?thesis
    by (simp add: discrete_next_def RandomDouble_def)
qed

text \<open>
  C33: \<open>Next\<close> never reaches its \<open>assert(false)\<close>, on any draw, if the loop finds a value at
  the largest double below 1; and it then always returns one of the added values.
\<close>

theorem discrete_next_total:
  assumes "draws_ok E" "unit_quotients (d_sum d) (d_values d)"
    and "choose_loop (d_sum d) (Fin (1 - 1 / 2 ^ 53)) (d_values d) \<noteq> None"
  shows "\<exists>v. discrete_next E d r =
      Inr (v, d\<lparr>d_last := v\<rparr>, r\<lparr>canon_pos := Suc (canon_pos r)\<rparr>) \<and>
    v \<in> fst ` set (d_values d)"
  by (rule discrete_next_total_aux [OF assms])

section \<open>Two tables\<close>

definition table_of :: "'v \<Rightarrow> ('v \<times> double) list \<Rightarrow> 'v discrete" where
  "table_of zero ps = fold (\<lambda>(v, w). AddValue v w) ps (discrete_new zero)"

text \<open>The default mix of operations: 0.95 and 0.05.\<close>

lemma table_95:
  "table_of zero [(a, to_dbl (95 / 100)), (b, to_dbl (5 / 100))] =
     \<lparr>d_values = [(a, Fin (8556839292003942 / 9007199254740992)), (b, Fin (3602879701896397 / 72057594037927936))],
      d_sum = Fin 1, d_last = a\<rparr>"
  by (simp add: table_of_def AddValue_def discrete_new_def double_ops dbl_eval)

lemma table_37:
  "table_of zero [(a, to_dbl (3 / 10)), (b, to_dbl (7 / 10))] =
     \<lparr>d_values = [(a, Fin (5404319552844595 / 18014398509481984)), (b, Fin (6305039478318694 / 9007199254740992))],
      d_sum = Fin 1, d_last = a\<rparr>"
  by (simp add: table_of_def AddValue_def discrete_new_def double_ops dbl_eval)

text \<open>
  C34: with weights 0.3 and 0.7, whose sum is exactly 1, any first draw \<open>u\<close> up to \<open>1 - 2 ^ -52\<close>
  picks the first value if \<open>u\<close> is below the double 0.3, else the second.  If the next draw
  is the largest double below 1, it runs past the end of the loop: a build with
  assertions aborts, one without returns the value of the draw before instead of one
  chosen by weight.
\<close>

theorem discrete_next_runs_past:
  assumes "canon E (canon_pos r) = Fin u" "0 \<le> u" "u \<le> 1 - 1 / 2 ^ 52"
    and "canon E (Suc (canon_pos r)) = Fin (1 - 1 / 2 ^ 53)"
    and "v = (if Fin u < to_dbl (3 / 10) then a else b)"
  shows "draws (discrete_next E) 2 (table_of zero [(a, to_dbl (3 / 10)), (b, to_dbl (7 / 10))]) r =
    (if ndebug E
     then Inr ([v, v], (table_of zero [(a, to_dbl (3 / 10)), (b, to_dbl (7 / 10))])\<lparr>d_last := v\<rparr>,
        r\<lparr>canon_pos := canon_pos r + 2\<rparr>)
     else Inl Assert_Fail)"
proof -
  let ?ps = "[(a, Fin (5404319552844595 / 18014398509481984)), (b, Fin (6305039478318694 / 9007199254740992))]"
  have q: "unit_quotients (Fin 1) ?ps" "choose_loop (Fin 1) (Fin (1 - 1 / 2 ^ 52)) ?ps \<noteq> None"
    by (simp_all add: unit_quotients_def double_ops dbl_eval)
  have "choose_loop (Fin 1) (Fin u) ?ps \<noteq> None"
    by (rule choose_loop_mono [OF q assms(2,3)]) simp
  then have "choose_loop (Fin 1) (Fin u) ?ps = Some v"
    using assms(5) by (auto simp: double_ops dbl_eval split: if_splits)
  then have first: "discrete_next E \<lparr>d_values = ?ps, d_sum = Fin 1, d_last = a\<rparr> r =
      Inr (v, \<lparr>d_values = ?ps, d_sum = Fin 1, d_last = v\<rparr>, r\<lparr>canon_pos := Suc (canon_pos r)\<rparr>)"
    using assms(1) by (simp add: discrete_next_def RandomDouble_def)
  have "choose_loop (Fin 1) (Fin (1 - 1 / 2 ^ 53)) ?ps = None"
    by (simp add: double_ops dbl_eval)
  then have second: "discrete_next E \<lparr>d_values = ?ps, d_sum = Fin 1, d_last = v\<rparr> (r\<lparr>canon_pos := Suc (canon_pos r)\<rparr>) =
      (if ndebug E then Inr (v, \<lparr>d_values = ?ps, d_sum = Fin 1, d_last = v\<rparr>, r\<lparr>canon_pos := Suc (Suc (canon_pos r))\<rparr>)
       else Inl Assert_Fail)"
    using assms(4) by (simp add: discrete_next_def RandomDouble_def cassert_def del: choose_loop.simps)
  have two: "draws nxt 2 g r = bind_r (nxt g r) (\<lambda>(x, g, r). bind_r (nxt g r) (\<lambda>(y, g, r). Inr ([x, y], g, r)))"
    for nxt :: "'a discrete \<Rightarrow> rng \<Rightarrow> stop + ('a \<times> 'a discrete \<times> rng)" and g r
    by (simp add: numeral_2_eq_2 case_prod_unfold bind_r_assoc)
  show ?thesis
    unfolding table_37 two first bind_r_Inr prod.case second by simp
qed

lemma table_95_total:
  "unit_quotients (d_sum (table_of zero [(a, to_dbl (95 / 100)), (b, to_dbl (5 / 100))]))
     (d_values (table_of zero [(a, to_dbl (95 / 100)), (b, to_dbl (5 / 100))]))"
  "choose_loop (d_sum (table_of zero [(a, to_dbl (95 / 100)), (b, to_dbl (5 / 100))])) (Fin (1 - 1 / 2 ^ 53))
     (d_values (table_of zero [(a, to_dbl (95 / 100)), (b, to_dbl (5 / 100))])) = Some b"
  unfolding table_95 by (simp_all add: unit_quotients_def double_ops dbl_eval)

theorem discrete_next_total_witness:
  "\<exists>v r'. discrete_next (sample_env (Fin 0)) (table_of True [(True, to_dbl (95 / 100)), (False, to_dbl (5 / 100))])
       \<lparr>canon_pos = 0, crand_pos = 0\<rparr> =
     Inr (v, table_of True [(True, to_dbl (95 / 100)), (False, to_dbl (5 / 100))]\<lparr>d_last := v\<rparr>, r')"
proof -
  let ?d = "table_of True [(True, to_dbl (95 / 100)), (False, to_dbl (5 / 100))]"
  have "choose_loop (d_sum ?d) (Fin (1 - 1 / 2 ^ 53)) (d_values ?d) \<noteq> None"
    by (simp only: table_95_total option.distinct not_False_eq_True)
  from discrete_next_total [OF sample_draws_ok table_95_total(1) this] show ?thesis by blast
qed

theorem discrete_next_runs_past_witness:
  "\<exists>d r'. draws (discrete_next ((sample_env (Fin 0))\<lparr>ndebug := True,
         canon := \<lambda>n. if n = 0 then Fin (1 / 2) else Fin (1 - 1 / 2 ^ 53)\<rparr>)) 2
       (table_of True [(True, to_dbl (3 / 10)), (False, to_dbl (7 / 10))]) \<lparr>canon_pos = 0, crand_pos = 0\<rparr> =
     Inr ([False, False], d, r')"
proof -
  have "\<not> Fin (1 / 2) < to_dbl (3 / 10)" by (simp add: dbl_eval less_double_def)
  then show ?thesis
    by (subst discrete_next_runs_past [where u = "1 / 2" and v = False]) simp_all
qed

theorem discrete_draws_added_witness:
  "\<exists>v d r'. draws (discrete_next (sample_env (Fin 0))) 1
       (fold (\<lambda>(v, w). AddValue v w) [(7 :: nat, Fin 1)] (discrete_new 0))
       \<lparr>canon_pos = 0, crand_pos = 0\<rparr> = Inr ([v], d, r') \<and> v = 7"
proof -
  let ?d = "fold (\<lambda>(v, w). AddValue v w) [(7 :: nat, Fin 1)] (discrete_new 0)"
    and ?r = "\<lparr>canon_pos = 0, crand_pos = 0\<rparr>"
  have v: "?d = \<lparr>d_values = [(7, Fin 1)], d_sum = Fin 1, d_last = 7\<rparr>"
    by (simp add: AddValue_def discrete_new_def double_ops dbl_eval)
  have "discrete_next (sample_env (Fin 0)) ?d ?r = Inr (7, ?d, ?r\<lparr>canon_pos := 1\<rparr>)"
    unfolding v by (simp add: discrete_next_def RandomDouble_def double_ops dbl_eval)
  then have "draws (discrete_next (sample_env (Fin 0))) 1 ?d ?r = Inr ([7], ?d, ?r\<lparr>canon_pos := 1\<rparr>)"
    by simp
  note d = this
  from discrete_draws_added [OF d] have "7 \<in> fst ` set [(7 :: nat, Fin 1)]" by simp
  with d show ?thesis by blast
qed

end
