(* ===== verification/Core_Workload.thy ===== *)
theory Core_Workload
  imports Properties Scrambled_Latest Discrete
begin

text \<open>
  \<open>core/core_workload.h\<close> and \<open>core/core_workload.cc\<close>: the state of a \<open>CoreWorkload\<close>,
  \<open>Init\<close>, which reads the properties and builds the generators, and the operations
  the client calls for keys, field names, values and operations.  Virtual dispatch
  on \<open>Generator<uint64_t>*\<close> is a case distinction on the datatype \<open>gen\<close>; the latest
  generator's reference to \<open>insert_key_sequence_\<close> is passed to \<open>gen_next\<close>.
\<close>

section \<open>Data\<close>

datatype operation = INSERT | READ | UPDATE | DELETE | SCAN | READMODIFYWRITE

datatype gen =
    Null_Gen
  | Counter_Gen counter
  | Const_Gen const_gen
  | Uniform_Gen uniform_gen
  | Zipfian_Gen zipf
  | Scrambled_Gen scrambled
  | Latest_Gen latest

fun gen_next :: "env \<Rightarrow> counter \<Rightarrow> gen \<Rightarrow> rng \<Rightarrow> stop + (u64 \<times> gen \<times> rng)" where
  "gen_next E basis Null_Gen r = Inl Undefined"
| "gen_next E basis (Counter_Gen g) r = (let (v, g') = counter_next g in Inr (v, Counter_Gen g', r))"
| "gen_next E basis (Const_Gen g) r = Inr (const_next g, Const_Gen g, r)"
| "gen_next E basis (Uniform_Gen g) r = (let (v, g') = uniform_next E g in Inr (v, Uniform_Gen g', r))"
| "gen_next E basis (Zipfian_Gen g) r =
     bind_r (zipf_Next E g r) (\<lambda>(v, g', r'). Inr (v, Zipfian_Gen g', r'))"
| "gen_next E basis (Scrambled_Gen g) r =
     bind_r (scrambled_next E g r) (\<lambda>(v, g', r'). Inr (v, Scrambled_Gen g', r'))"
| "gen_next E basis (Latest_Gen g) r =
     bind_r (latest_next E basis g r) (\<lambda>(v, g', r'). Inr (v, Latest_Gen g', r'))"

fun gen_last :: "gen \<Rightarrow> stop + u64" where
  "gen_last Null_Gen = Inl Undefined"
| "gen_last (Counter_Gen g) = Inr (counter_last g)"
| "gen_last (Const_Gen g) = Inr (const_last g)"
| "gen_last (Uniform_Gen g) = Inr (uniform_last g)"
| "gen_last (Zipfian_Gen g) = Inr (zipf_Last g)"
| "gen_last (Scrambled_Gen g) = scrambled_last g"
| "gen_last (Latest_Gen g) = Inr (latest_last g)"

record workload =
  w_table_name :: string
  w_field_count :: int
  w_read_all_fields :: bool
  w_write_all_fields :: bool
  w_field_len_generator :: gen
  w_key_generator :: gen
  w_op_chooser :: "operation discrete"
  w_key_chooser :: gen
  w_field_chooser :: gen
  w_scan_len_chooser :: gen
  w_insert_key_sequence :: counter
  w_ordered_inserts :: bool
  w_record_count :: u64
  w_zero_padding :: int

text \<open>The constructor leaves \<open>zero_padding_\<close> uninitialised; \<open>Init\<close> sets it before any use.\<close>

definition workload_new :: workload where
  "workload_new =
     \<lparr>w_table_name = [], w_field_count = 0, w_read_all_fields = False, w_write_all_fields = False,
      w_field_len_generator = Null_Gen, w_key_generator = Null_Gen, w_op_chooser = discrete_new INSERT,
      w_key_chooser = Null_Gen, w_field_chooser = Null_Gen, w_scan_len_chooser = Null_Gen,
      w_insert_key_sequence = counter_new 3, w_ordered_inserts = True, w_record_count = 0,
      w_zero_padding = 0\<rparr>"

section \<open>Property names and defaults\<close>

named_theorems prop_names \<open>the values of the property names and defaults\<close>

definition TABLENAME_PROPERTY :: string where [prop_names]: "TABLENAME_PROPERTY = ''table''"
definition TABLENAME_DEFAULT :: string where [prop_names]: "TABLENAME_DEFAULT = ''usertable''"
definition FIELD_COUNT_PROPERTY :: string where [prop_names]: "FIELD_COUNT_PROPERTY = ''fieldcount''"
definition FIELD_COUNT_DEFAULT :: string where [prop_names]: "FIELD_COUNT_DEFAULT = ''10''"
definition FIELD_LENGTH_DISTRIBUTION_PROPERTY :: string where [prop_names]: "FIELD_LENGTH_DISTRIBUTION_PROPERTY = ''field_len_dist''"
definition FIELD_LENGTH_DISTRIBUTION_DEFAULT :: string where [prop_names]: "FIELD_LENGTH_DISTRIBUTION_DEFAULT = ''constant''"
definition FIELD_LENGTH_PROPERTY :: string where [prop_names]: "FIELD_LENGTH_PROPERTY = ''fieldlength''"
definition FIELD_LENGTH_DEFAULT :: string where [prop_names]: "FIELD_LENGTH_DEFAULT = ''100''"
definition READ_ALL_FIELDS_PROPERTY :: string where [prop_names]: "READ_ALL_FIELDS_PROPERTY = ''readallfields''"
definition READ_ALL_FIELDS_DEFAULT :: string where [prop_names]: "READ_ALL_FIELDS_DEFAULT = ''true''"
definition WRITE_ALL_FIELDS_PROPERTY :: string where [prop_names]: "WRITE_ALL_FIELDS_PROPERTY = ''writeallfields''"
definition WRITE_ALL_FIELDS_DEFAULT :: string where [prop_names]: "WRITE_ALL_FIELDS_DEFAULT = ''false''"
definition READ_PROPORTION_PROPERTY :: string where [prop_names]: "READ_PROPORTION_PROPERTY = ''readproportion''"
definition READ_PROPORTION_DEFAULT :: string where [prop_names]: "READ_PROPORTION_DEFAULT = ''0.95''"
definition UPDATE_PROPORTION_PROPERTY :: string where [prop_names]: "UPDATE_PROPORTION_PROPERTY = ''updateproportion''"
definition UPDATE_PROPORTION_DEFAULT :: string where [prop_names]: "UPDATE_PROPORTION_DEFAULT = ''0.05''"
definition DELETE_PROPORTION_PROPERTY :: string where [prop_names]: "DELETE_PROPORTION_PROPERTY = ''deleteproportion''"
definition DELETE_PROPORTION_DEFAULT :: string where [prop_names]: "DELETE_PROPORTION_DEFAULT = ''0.0''"
definition INSERT_PROPORTION_PROPERTY :: string where [prop_names]: "INSERT_PROPORTION_PROPERTY = ''insertproportion''"
definition INSERT_PROPORTION_DEFAULT :: string where [prop_names]: "INSERT_PROPORTION_DEFAULT = ''0.0''"
definition SCAN_PROPORTION_PROPERTY :: string where [prop_names]: "SCAN_PROPORTION_PROPERTY = ''scanproportion''"
definition SCAN_PROPORTION_DEFAULT :: string where [prop_names]: "SCAN_PROPORTION_DEFAULT = ''0.0''"
definition READMODIFYWRITE_PROPORTION_PROPERTY :: string where [prop_names]: "READMODIFYWRITE_PROPORTION_PROPERTY = ''readmodifywriteproportion''"
definition READMODIFYWRITE_PROPORTION_DEFAULT :: string where [prop_names]: "READMODIFYWRITE_PROPORTION_DEFAULT = ''0.0''"
definition REQUEST_DISTRIBUTION_PROPERTY :: string where [prop_names]: "REQUEST_DISTRIBUTION_PROPERTY = ''requestdistribution''"
definition REQUEST_DISTRIBUTION_DEFAULT :: string where [prop_names]: "REQUEST_DISTRIBUTION_DEFAULT = ''uniform''"
definition ZERO_PADDING_PROPERTY :: string where [prop_names]: "ZERO_PADDING_PROPERTY = ''zeropadding''"
definition ZERO_PADDING_DEFAULT :: string where [prop_names]: "ZERO_PADDING_DEFAULT = ''1''"
definition MAX_SCAN_LENGTH_PROPERTY :: string where [prop_names]: "MAX_SCAN_LENGTH_PROPERTY = ''maxscanlength''"
definition MAX_SCAN_LENGTH_DEFAULT :: string where [prop_names]: "MAX_SCAN_LENGTH_DEFAULT = ''1000''"
definition SCAN_LENGTH_DISTRIBUTION_PROPERTY :: string where [prop_names]: "SCAN_LENGTH_DISTRIBUTION_PROPERTY = ''scanlengthdistribution''"
definition SCAN_LENGTH_DISTRIBUTION_DEFAULT :: string where [prop_names]: "SCAN_LENGTH_DISTRIBUTION_DEFAULT = ''uniform''"
definition INSERT_ORDER_PROPERTY :: string where [prop_names]: "INSERT_ORDER_PROPERTY = ''insertorder''"
definition INSERT_ORDER_DEFAULT :: string where [prop_names]: "INSERT_ORDER_DEFAULT = ''hashed''"
definition INSERT_START_PROPERTY :: string where [prop_names]: "INSERT_START_PROPERTY = ''insertstart''"
definition INSERT_START_DEFAULT :: string where [prop_names]: "INSERT_START_DEFAULT = ''0''"
definition RECORD_COUNT_PROPERTY :: string where [prop_names]: "RECORD_COUNT_PROPERTY = ''recordcount''"
definition OPERATION_COUNT_PROPERTY :: string where [prop_names]: "OPERATION_COUNT_PROPERTY = ''operationcount''"

section \<open>\<open>Init\<close>\<close>

definition GetFieldLenGenerator :: "env \<Rightarrow> properties \<Rightarrow> rng \<Rightarrow> stop + (gen \<times> rng)" where
  "GetFieldLenGenerator E p r =
     (let field_len_dist = GetProperty p FIELD_LENGTH_DISTRIBUTION_PROPERTY FIELD_LENGTH_DISTRIBUTION_DEFAULT
      in bind_r (stoi (GetProperty p FIELD_LENGTH_PROPERTY FIELD_LENGTH_DEFAULT)) (\<lambda>field_len.
         if field_len_dist = ''constant'' \<or> field_len_dist = ''fixed''
           then Inr (Const_Gen (const_new field_len), r)
         else if field_len_dist = ''uniform''
           then bind_r (uniform_new E 1 (of_int field_len)) (\<lambda>g. Inr (Uniform_Gen g, r))
         else if field_len_dist = ''zipfian''
           then bind_r (zipf_new E 1 (of_int field_len) kZipfianConst r) (\<lambda>(g, r).
             Inr (Zipfian_Gen g, r))
         else Inl (Throw (Utils_Exception (''Unknown field length distribution: '' @ field_len_dist)))))"

definition add_op :: "operation \<Rightarrow> double \<Rightarrow> operation discrete \<Rightarrow> operation discrete" where
  "add_op op proportion d = (if 0 < proportion then AddValue op proportion d else d)"

text \<open>The key chooser of a request distribution; \<open>rc\<close> is \<open>record_count_\<close>.\<close>

definition init_key_chooser ::
  "env \<Rightarrow> properties \<Rightarrow> string \<Rightarrow> u64 \<Rightarrow> double \<Rightarrow> counter \<Rightarrow> rng \<Rightarrow> stop + (gen \<times> rng)" where
  "init_key_chooser E p request_dist rc insert_proportion seq r =
     (if request_dist = ''uniform''
        then bind_r (uniform_new E 0 (rc - 1)) (\<lambda>g. Inr (Uniform_Gen g, r))
      else if request_dist = ''zipfian''
        then bind_r (stoi (GetProperty p OPERATION_COUNT_PROPERTY [])) (\<lambda>op_count.
             bind_r (to_cint (of_cint op_count * insert_proportion * Fin 2)) (\<lambda>new_keys.
             bind_r (scrambled_new_items E (rc + of_int new_keys) r) (\<lambda>(g, r).
             Inr (Scrambled_Gen g, r))))
      else if request_dist = ''latest''
        then bind_r (latest_new E seq r) (\<lambda>(g, r). Inr (Latest_Gen g, r))
      else Inl (Throw (Utils_Exception (''Unknown request distribution: '' @ request_dist))))"

definition init_scan_len ::
  "env \<Rightarrow> string \<Rightarrow> int \<Rightarrow> rng \<Rightarrow> stop + (gen \<times> rng)" where
  "init_scan_len E scan_len_dist max_scan_len r =
     (if scan_len_dist = ''uniform''
        then bind_r (uniform_new E 1 (of_int max_scan_len)) (\<lambda>g. Inr (Uniform_Gen g, r))
      else if scan_len_dist = ''zipfian''
        then bind_r (zipf_new E 1 (of_int max_scan_len) kZipfianConst r) (\<lambda>(g, r).
          Inr (Zipfian_Gen g, r))
      else Inl (Throw (Utils_Exception
             (''Distribution not allowed for scan length: '' @ scan_len_dist))))"

text \<open>\<open>field_count_ - 1\<close> overflows \<open>int\<close> for the smallest \<open>int\<close>.\<close>

definition init_field_chooser :: "env \<Rightarrow> int \<Rightarrow> stop + gen" where
  "init_field_chooser E field_count =
     (if field_count = int_min then Inl Undefined
      else bind_r (uniform_new E 0 (of_int (field_count - 1))) (\<lambda>g. Inr (Uniform_Gen g)))"

definition Init :: "env \<Rightarrow> properties \<Rightarrow> workload \<Rightarrow> rng \<Rightarrow> stop + (workload \<times> rng)" where
  "Init E p w r =
     bind_r (stoi (GetProperty p FIELD_COUNT_PROPERTY FIELD_COUNT_DEFAULT)) (\<lambda>field_count.
     bind_r (GetFieldLenGenerator E p r) (\<lambda>(field_len_generator, r).
     bind_r (stod (GetProperty p READ_PROPORTION_PROPERTY READ_PROPORTION_DEFAULT)) (\<lambda>read_proportion.
     bind_r (stod (GetProperty p UPDATE_PROPORTION_PROPERTY UPDATE_PROPORTION_DEFAULT)) (\<lambda>update_proportion.
     bind_r (stod (GetProperty p DELETE_PROPORTION_PROPERTY DELETE_PROPORTION_DEFAULT)) (\<lambda>delete_proportion.
     bind_r (stod (GetProperty p INSERT_PROPORTION_PROPERTY INSERT_PROPORTION_DEFAULT)) (\<lambda>insert_proportion.
     bind_r (stod (GetProperty p SCAN_PROPORTION_PROPERTY SCAN_PROPORTION_DEFAULT)) (\<lambda>scan_proportion.
     bind_r (stod (GetProperty p READMODIFYWRITE_PROPORTION_PROPERTY READMODIFYWRITE_PROPORTION_DEFAULT)) (\<lambda>rmw_proportion.
     bind_r (stoi (GetProperty p RECORD_COUNT_PROPERTY [])) (\<lambda>record_count.
     (let request_dist = GetProperty p REQUEST_DISTRIBUTION_PROPERTY REQUEST_DISTRIBUTION_DEFAULT in
     bind_r (stoi (GetProperty p ZERO_PADDING_PROPERTY ZERO_PADDING_DEFAULT)) (\<lambda>zero_padding.
     bind_r (stoi (GetProperty p MAX_SCAN_LENGTH_PROPERTY MAX_SCAN_LENGTH_DEFAULT)) (\<lambda>max_scan_len.
     (let scan_len_dist = GetProperty p SCAN_LENGTH_DISTRIBUTION_PROPERTY SCAN_LENGTH_DISTRIBUTION_DEFAULT in
     bind_r (stoi (GetProperty p INSERT_START_PROPERTY INSERT_START_DEFAULT)) (\<lambda>insert_start.
     bind_r (StrToBool (GetProperty p READ_ALL_FIELDS_PROPERTY READ_ALL_FIELDS_DEFAULT)) (\<lambda>read_all_fields.
     bind_r (StrToBool (GetProperty p WRITE_ALL_FIELDS_PROPERTY WRITE_ALL_FIELDS_DEFAULT)) (\<lambda>write_all_fields.
     (let ordered_inserts = (GetProperty p INSERT_ORDER_PROPERTY INSERT_ORDER_DEFAULT \<noteq> ''hashed'');
          op_chooser = add_op READMODIFYWRITE rmw_proportion (add_op SCAN scan_proportion
            (add_op INSERT insert_proportion (add_op DELETE delete_proportion
            (add_op UPDATE update_proportion (add_op READ read_proportion (w_op_chooser w))))));
          rc = of_int record_count;
          seq = counter_set rc (w_insert_key_sequence w) in
     bind_r (init_key_chooser E p request_dist rc insert_proportion seq r) (\<lambda>(key_chooser, r).
     bind_r (init_field_chooser E field_count) (\<lambda>field_chooser.
     bind_r (init_scan_len E scan_len_dist max_scan_len r) (\<lambda>(scan_len_chooser, r).
     Inr (\<lparr>w_table_name = GetProperty p TABLENAME_PROPERTY TABLENAME_DEFAULT, w_field_count = field_count,
           w_read_all_fields = read_all_fields, w_write_all_fields = write_all_fields,
           w_field_len_generator = field_len_generator,
           w_key_generator = Counter_Gen (counter_new (of_int insert_start)),
           w_op_chooser = op_chooser, w_key_chooser = key_chooser, w_field_chooser = field_chooser,
           w_scan_len_chooser = scan_len_chooser, w_insert_key_sequence = seq,
           w_ordered_inserts = ordered_inserts, w_record_count = rc,
           w_zero_padding = zero_padding\<rparr>, r)))))))))))))))))))))"

section \<open>Operations\<close>

text \<open>
  \<open>BuildKeyName\<close>: \<open>total_len\<close> is an \<open>int\<close>, so a padding close to the largest \<open>int\<close>
  overflows it.
\<close>

definition key_prefix :: string where
  "key_prefix = ''user''"

definition BuildKeyName :: "workload \<Rightarrow> u64 \<Rightarrow> stop + string" where
  "BuildKeyName w key_num0 =
     (let key_num = (if \<not> w_ordered_inserts w then Hash key_num0 else key_num0);
          key_num_str = dec_string (unat key_num);
          total_len = int (length key_prefix) + max (int (length key_num_str)) (w_zero_padding w);
          zeros = max 0 (total_len - int (length key_prefix + length key_num_str))
      in if total_len > int_max then Inl Undefined
         else Inr (key_prefix @ replicate (nat zeros) CHR ''0'' @ key_num_str))"

definition NextTable :: "workload \<Rightarrow> string" where
  "NextTable w = w_table_name w"

definition NextSequenceKey :: "env \<Rightarrow> workload \<Rightarrow> rng \<Rightarrow> stop + (string \<times> workload \<times> rng)" where
  "NextSequenceKey E w r =
     bind_r (gen_next E (w_insert_key_sequence w) (w_key_generator w) r) (\<lambda>(key_num, g, r).
     bind_r (BuildKeyName w key_num) (\<lambda>key. Inr (key, w\<lparr>w_key_generator := g\<rparr>, r)))"

text \<open>The \<open>do\<close> loop of \<open>NextTransactionKey\<close>: \<open>None\<close> when it never ends.\<close>

partial_function (option) key_loop ::
  "env \<Rightarrow> counter \<Rightarrow> gen \<Rightarrow> rng \<Rightarrow> (stop + (u64 \<times> gen \<times> rng)) option" where
  "key_loop E seq g r =
     (case gen_next E seq g r of
        Inl e \<Rightarrow> Some (Inl e)
      | Inr (key_num, g', r') \<Rightarrow>
          if key_num > counter_last seq then key_loop E seq g' r' else Some (Inr (key_num, g', r')))"

declare key_loop.simps [code]

definition NextTransactionKey :: "env \<Rightarrow> workload \<Rightarrow> rng \<Rightarrow> stop + (string \<times> workload \<times> rng)" where
  "NextTransactionKey E w r =
     bind_r (case key_loop E (w_insert_key_sequence w) (w_key_chooser w) r of
               None \<Rightarrow> Inl Diverges | Some res \<Rightarrow> res) (\<lambda>(key_num, g, r).
     bind_r (BuildKeyName w key_num) (\<lambda>key. Inr (key, w\<lparr>w_key_chooser := g\<rparr>, r)))"

definition NextOperation :: "env \<Rightarrow> workload \<Rightarrow> rng \<Rightarrow> stop + (operation \<times> workload \<times> rng)" where
  "NextOperation E w r =
     bind_r (discrete_next E (w_op_chooser w) r) (\<lambda>(op, d, r). Inr (op, w\<lparr>w_op_chooser := d\<rparr>, r))"

definition NextFieldName :: "env \<Rightarrow> workload \<Rightarrow> rng \<Rightarrow> stop + (string \<times> workload \<times> rng)" where
  "NextFieldName E w r =
     bind_r (gen_next E (w_insert_key_sequence w) (w_field_chooser w) r) (\<lambda>(n, g, r).
     Inr (''field'' @ dec_string (unat n), w\<lparr>w_field_chooser := g\<rparr>, r))"

definition NextScanLength :: "env \<Rightarrow> workload \<Rightarrow> rng \<Rightarrow> stop + (u64 \<times> workload \<times> rng)" where
  "NextScanLength E w r =
     bind_r (gen_next E (w_insert_key_sequence w) (w_scan_len_chooser w) r) (\<lambda>(n, g, r).
     Inr (n, w\<lparr>w_scan_len_chooser := g\<rparr>, r))"

text \<open>
  \<open>std::string().append(n, c)\<close>.  The longest string of libstdc++ has \<open>2 ^ 63 - 1\<close>
  characters; running out of memory before that is not modelled.
\<close>

definition append_fill :: "u64 \<Rightarrow> char \<Rightarrow> stop + string" where
  "append_fill n c =
     (if n > 0x7FFFFFFFFFFFFFFF then Inl (Throw (Length_Error ''basic_string::_M_replace_aux''))
      else Inr (replicate (unat n) c))"

text \<open>
  A fresh field value.  The order in which C++ evaluates the length and the character
  is not fixed, and does not matter: they draw from different sequences.
\<close>

definition next_value :: "env \<Rightarrow> workload \<Rightarrow> rng \<Rightarrow> stop + (string \<times> workload \<times> rng)" where
  "next_value E w r =
     bind_r (gen_next E (w_insert_key_sequence w) (w_field_len_generator w) r) (\<lambda>(n, g, r).
     (let (c, r) = RandomPrintChar E r
      in bind_r (append_fill n c) (\<lambda>s. Inr (s, w\<lparr>w_field_len_generator := g\<rparr>, r))))"

fun values_loop ::
  "env \<Rightarrow> nat list \<Rightarrow> kvpair list \<Rightarrow> workload \<Rightarrow> rng \<Rightarrow> stop + (kvpair list \<times> workload \<times> rng)" where
  "values_loop E [] kvs w r = Inr (kvs, w, r)"
| "values_loop E (i # is) kvs w r =
     bind_r (next_value E w r) (\<lambda>(v, w, r).
     values_loop E is (kvs @ [(''field'' @ dec_string i, v)]) w r)"

definition BuildValues ::
  "env \<Rightarrow> kvpair list \<Rightarrow> workload \<Rightarrow> rng \<Rightarrow> stop + (kvpair list \<times> workload \<times> rng)" where
  "BuildValues E kvs w r = values_loop E [0..<nat (w_field_count w)] kvs w r"

definition BuildUpdate ::
  "env \<Rightarrow> kvpair list \<Rightarrow> workload \<Rightarrow> rng \<Rightarrow> stop + (kvpair list \<times> workload \<times> rng)" where
  "BuildUpdate E update w r =
     bind_r (NextFieldName E w r) (\<lambda>(f, w, r).
     bind_r (next_value E w r) (\<lambda>(v, w, r). Inr (update @ [(f, v)], w, r)))"

section \<open>Lemmas: key names\<close>

text \<open>The key number a name is made from, and the number of padding zeros.\<close>

definition name_number :: "workload \<Rightarrow> u64 \<Rightarrow> nat" where
  "name_number w key_num = unat (if w_ordered_inserts w then key_num else Hash key_num)"

definition padding_ok :: "workload \<Rightarrow> bool" where
  "padding_ok w \<longleftrightarrow> w_zero_padding w \<le> int_max - 4"

lemma dec_string_u64: "length (dec_string (unat (k :: u64))) \<le> 20"
proof (rule length_dec_string_le)
  have "(18446744073709551616 :: nat) < 10 ^ 20" by simp
  then show "unat k < 10 ^ 20" using unat_u64_lt [of k] by (rule less_trans [rotated])
qed simp

lemma BuildKeyName_eq:
  assumes "padding_ok w"
  shows "BuildKeyName w k = Inr (key_prefix @
      replicate (nat (w_zero_padding w - int (length (dec_string (name_number w k))))) (digit_char 0)
      @ dec_string (name_number w k))"
proof -
  let ?s = "dec_string (name_number w k)"
  have len: "length ?s \<le> 20" by (simp add: name_number_def dec_string_u64)
  have z: "nat (max 0 (int 4 + max (int (length ?s)) (w_zero_padding w) - int (4 + length ?s))) =
      nat (w_zero_padding w - int (length ?s))"
    by (simp add: max_def)
  have c: "CHR ''0'' = digit_char 0" by code_simp
  have kp: "length key_prefix = 4" by (simp add: key_prefix_def)
  have fit: "\<not> int 4 + max (int (length ?s)) (w_zero_padding w) > int_max"
    using assms len by (simp add: padding_ok_def int_max_def)
  have num: "unat (if \<not> w_ordered_inserts w then Hash k else k) = name_number w k"
    by (simp add: name_number_def)
  show ?thesis
    unfolding BuildKeyName_def Let_def num kp using fit by (simp only: if_False z c)
qed

lemma BuildKeyName_total: "padding_ok w \<Longrightarrow> \<exists>s. BuildKeyName w k = Inr s"
  by (simp add: BuildKeyName_eq)

lemma BuildKeyName_number:
  assumes "padding_ok w" "BuildKeyName w k = Inr s"
  shows "nat_of_dec (drop 4 s) = name_number w k"
proof -
  have "drop 4 s = replicate (nat (w_zero_padding w - int (length (dec_string (name_number w k)))))
      (digit_char 0) @ dec_string (name_number w k)"
    using assms by (auto simp: BuildKeyName_eq key_prefix_def)
  then show ?thesis by (simp add: nat_of_dec_zeros)
qed

lemma key_name_eq_iff:
  assumes "padding_ok w"
  shows "BuildKeyName w a = BuildKeyName w b \<longleftrightarrow>
    (if w_ordered_inserts w then a = b else Hash a = Hash b)"
proof -
  obtain s t where st: "BuildKeyName w a = Inr s" "BuildKeyName w b = Inr t"
    using BuildKeyName_total [OF assms] by blast
  note n = BuildKeyName_number [OF assms st(1)] BuildKeyName_number [OF assms st(2)]
  have "BuildKeyName w a = BuildKeyName w b \<longleftrightarrow> name_number w a = name_number w b"
    using n st BuildKeyName_eq [OF assms] by auto
  then show ?thesis by (simp add: name_number_def word_unat_eq_iff)
qed

text \<open>
  C35: for a zero padding of at most \<open>int_max - 4\<close>, two key numbers get the same key name
  only if they are equal, under ordered inserts, or have equal hashes, under hashed
  inserts, and for ordered inserts the name reads back as the key number.  For a larger
  zero padding the length of the name overflows an \<open>int\<close>, whatever the key.
\<close>

theorem key_names_distinct:
  "if w_zero_padding w \<le> int_max - 4
   then (BuildKeyName w a = BuildKeyName w b \<longleftrightarrow>
       (if w_ordered_inserts w then a = b else Hash a = Hash b)) \<and>
     (w_ordered_inserts w \<longrightarrow> (\<exists>s. BuildKeyName w a = Inr s \<and> nat_of_dec (drop 4 s) = unat a))
   else BuildKeyName w a = Inl Undefined"
proof (cases "padding_ok w")
  case True
  then show ?thesis
    using key_name_eq_iff [OF True] BuildKeyName_total [OF True, of a] BuildKeyName_number [OF True]
    by (auto simp: name_number_def padding_ok_def)
next
  case False
  then show ?thesis by (auto simp: padding_ok_def BuildKeyName_def Let_def key_prefix_def)
qed

text \<open>
  when the zero padding covers the digits of both numbers and inserts are ordered,
  the lexicographic order of the key names is the order of the key numbers, and all
  names have the same length.
\<close>

theorem key_names_sorted:
  assumes "w_ordered_inserts w" "padding_ok w"
    and "int (length (dec_string (unat a))) \<le> w_zero_padding w"
    and "int (length (dec_string (unat b))) \<le> w_zero_padding w"
    and "BuildKeyName w a = Inr s" "BuildKeyName w b = Inr t"
  shows "(str_less s t \<longleftrightarrow> a < b) \<and> int (length s) = 4 + w_zero_padding w"
proof -
  define pad where "pad n = replicate (nat (w_zero_padding w - int (length (dec_string n))))
      (digit_char 0) @ dec_string n" for n
  have s: "s = key_prefix @ pad (unat a)" and t: "t = key_prefix @ pad (unat b)"
    using assms(1,2,5,6) by (auto simp: BuildKeyName_eq pad_def name_number_def)
  have len: "int (length (pad (unat a))) = w_zero_padding w"
    "int (length (pad (unat b))) = w_zero_padding w"
    using assms(3,4) by (simp_all add: pad_def)
  have dig: "c \<in> set (pad n) \<Longrightarrow> is_digit c" for c n
    using dec_string_digits by (auto simp: pad_def)
  have "length (pad (unat a)) = length (pad (unat b))" using len by linarith
  then have "str_less (pad (unat a)) (pad (unat b)) \<longleftrightarrow>
      nat_of_dec (pad (unat a)) < nat_of_dec (pad (unat b))"
    by (rule str_less_numerals) (auto dest: dig)
  moreover have "nat_of_dec (pad n) = n" for n by (simp add: pad_def nat_of_dec_zeros)
  ultimately show ?thesis using len
    by (simp add: s t word_less_nat_alt key_prefix_def del: append.simps)
qed

theorem key_names_distinct_witness:
  "BuildKeyName (workload_new\<lparr>w_zero_padding := 3\<rparr>) 7 \<noteq>
   BuildKeyName (workload_new\<lparr>w_zero_padding := 3\<rparr>) 8"
  using key_names_distinct [of "workload_new\<lparr>w_zero_padding := 3\<rparr>" 7 8]
  by (simp add: padding_ok_def workload_new_def int_max_def)

theorem key_names_sorted_witness:
  "str_less ''user007'' ''user012'' \<longleftrightarrow> (7 :: u64) < 12"
proof -
  let ?w = "workload_new\<lparr>w_zero_padding := 3\<rparr>"
  have d: "dec_string 7 = ''7''" "dec_string 12 = ''12''"
    by code_simp+
  have r: "replicate 2 CHR ''0'' = ''00''" by (simp add: numeral_2_eq_2)
  have "BuildKeyName ?w 7 = Inr ''user007''" "BuildKeyName ?w 12 = Inr ''user012''"
    by (simp_all add: BuildKeyName_def d workload_new_def int_max_def key_prefix_def Let_def r)
  from key_names_sorted [OF _ _ _ _ this] show ?thesis
    by (simp add: d padding_ok_def workload_new_def int_max_def)
qed

end
