(* ===== verification/Workload_Keys.thy ===== *)
theory Workload_Keys
  imports Core_Workload
begin

text \<open>
  Facts about the keys a workload hands out: the generators behind the base class all
  meet the generator contract, the \<open>do\<close> loop of \<open>NextTransactionKey\<close> returns the first
  draw that does not exceed the newest key, and which keys the load and the
  transaction phase use.
\<close>

section \<open>The generators behind the base class\<close>

fun gen_ok :: "env \<Rightarrow> counter \<Rightarrow> gen \<Rightarrow> bool" where
  "gen_ok E basis (Uniform_Gen g) = uniform_ok g"
| "gen_ok E basis (Zipfian_Gen g) = zipf_ok E g"
| "gen_ok E basis (Scrambled_Gen g) = scrambled_range g (s_base g) (s_base g + s_num_items g - 1)"
| "gen_ok E basis (Latest_Gen g) = latest_ok E basis g"
| "gen_ok E basis _ = True"

fun gen_outs :: "counter \<Rightarrow> gen \<Rightarrow> u64 \<Rightarrow> bool" where
  "gen_outs basis (Const_Gen g) v = (v = const_val g)"
| "gen_outs basis (Uniform_Gen g) v = (u_min g \<le> v \<and> v \<le> u_max g)"
| "gen_outs basis (Zipfian_Gen g) v = zipf_outs g v"
| "gen_outs basis (Scrambled_Gen g) v = (s_base g \<le> v \<and> v \<le> s_base g + s_num_items g - 1)"
| "gen_outs basis (Latest_Gen g) v = (v \<le> counter_last basis)"
| "gen_outs basis _ v = True"

interpretation gen_i: generator "gen_next E basis" gen_last "gen_ok E basis" "gen_outs basis"
  for E basis
proof
  fix g r v g' r'
  assume n: "gen_next E basis g r = Inr (v, g', r')"
  show "gen_last g' = Inr v"
    using n by (cases g) (auto simp: bind_r_eq_Inr counter_next_def counter_last_def const_next_def
        const_last_def uniform_next_def uniform_last_def Let_def
        dest: zipf_i.last_next scrambled_i.last_next latest_i.last_next)
  assume ok: "gen_ok E basis g"
  have u: "uniform_gen_next E u r = Inr (fst (uniform_next E u), snd (uniform_next E u), r)" for u
    by (simp add: uniform_gen_next_def split: prod.splits)
  show "gen_ok E basis g'"
    using n ok by (cases g) (auto simp: bind_r_eq_Inr Let_def split: prod.splits
        dest: zipf_i.ok_next scrambled_i.ok_next latest_i.ok_next uniform_i.ok_next [OF _ u])
  show "gen_outs basis g v"
    using n ok by (cases g) (auto simp: bind_r_eq_Inr const_next_def Let_def split: prod.splits
        dest: zipf_i.outs_next scrambled_i.outs_next latest_i.outs_next uniform_i.outs_next [OF _ u])
  show "gen_outs basis g' = gen_outs basis g"
    using n ok by (cases g) (auto simp: fun_eq_iff bind_r_eq_Inr counter_next_def const_next_def
        uniform_next_def scrambled_next_Inr Let_def dest: zipf_i.outs_same)
qed

section \<open>The \<open>do\<close> loop\<close>

lemma key_loop_skip:
  "gen_next E seq g r = Inr (v, g', r') \<Longrightarrow> counter_last seq < v \<Longrightarrow>
   key_loop E seq g r = key_loop E seq g' r'"
  by (subst key_loop.simps) simp

lemma key_loop_stop:
  "gen_next E seq g r = Inr (v, g', r') \<Longrightarrow> v \<le> counter_last seq \<Longrightarrow>
   key_loop E seq g r = Some (Inr (v, g', r'))"
  by (subst key_loop.simps) (auto dest: leD)

text \<open>
  \<open>key_run n\<close>: the loop body has run \<open>n\<close> times and every key number was beyond the newest.
\<close>

definition key_run :: "env \<Rightarrow> counter \<Rightarrow> nat \<Rightarrow> gen \<Rightarrow> rng \<Rightarrow> gen \<Rightarrow> rng \<Rightarrow> bool" where
  "key_run E seq n g r g' r' \<longleftrightarrow>
     (\<exists>vs. draws (gen_next E seq) n g r = Inr (vs, g', r') \<and> list_all (\<lambda>v. counter_last seq < v) vs)"

lemma key_run_0 [simp]: "key_run E seq 0 g r g' r' \<longleftrightarrow> g' = g \<and> r' = r"
  by (auto simp: key_run_def)

lemma key_run_Suc:
  "key_run E seq (Suc n) g r g' r' \<longleftrightarrow>
     (\<exists>v h s. gen_next E seq g r = Inr (v, h, s) \<and> counter_last seq < v \<and> key_run E seq n h s g' r')"
  unfolding key_run_def draws_Suc_Inr by auto

lemma key_loop_run: "key_run E seq n g r g' r' \<Longrightarrow> key_loop E seq g r = key_loop E seq g' r'"
  by (induction n arbitrary: g r) (auto simp: key_run_Suc key_loop_skip)

lemma key_loop_Some:
  assumes "key_loop E seq g r = Some res"
  shows "\<exists>n g' r'. key_run E seq n g r g' r' \<and>
    (\<forall>k h s. res = Inr (k, h, s) \<longrightarrow> gen_next E seq g' r' = Inr (k, h, s) \<and> k \<le> counter_last seq)"
proof (rule key_loop.raw_induct [where P = "\<lambda>E seq g r res. \<exists>n g' r'. key_run E seq n g r g' r' \<and>
    (\<forall>k h s. res = Inr (k, h, s) \<longrightarrow> gen_next E seq g' r' = Inr (k, h, s) \<and> k \<le> counter_last seq)",
    OF _ assms])
  fix f E seq g r res
  assume IH: "\<And>E seq g r res. f E seq g r = Some res \<Longrightarrow> \<exists>n g' r'. key_run E seq n g r g' r' \<and>
      (\<forall>k h s. res = Inr (k, h, s) \<longrightarrow> gen_next E seq g' r' = Inr (k, h, s) \<and> k \<le> counter_last seq)"
    and eq: "(case gen_next E seq g r of Inl e \<Rightarrow> Some (Inl e)
      | Inr (key_num, g', r') \<Rightarrow>
          if key_num > counter_last seq then f E seq g' r' else Some (Inr (key_num, g', r'))) = Some res"
  show "\<exists>n g' r'. key_run E seq n g r g' r' \<and>
      (\<forall>k h s. res = Inr (k, h, s) \<longrightarrow> gen_next E seq g' r' = Inr (k, h, s) \<and> k \<le> counter_last seq)"
  proof (cases "\<exists>v h s. gen_next E seq g r = Inr (v, h, s) \<and> counter_last seq < v")
    case True
    then obtain v h s where v: "gen_next E seq g r = Inr (v, h, s)" "counter_last seq < v" by blast
    with eq have "f E seq h s = Some res" by simp
    from IH [OF this] v show ?thesis by (meson key_run_Suc)
  next
    case False
    with eq have "\<forall>k h s. res = Inr (k, h, s) \<longrightarrow>
        gen_next E seq g r = Inr (k, h, s) \<and> k \<le> counter_last seq"
      by (auto split: sum.splits if_splits simp: not_less)
    then show ?thesis by (intro exI [of _ 0] exI [of _ g] exI [of _ r]) simp
  qed
qed

text \<open>
  C17: the loop of \<open>NextTransactionKey\<close> returns a key number exactly when the chooser
  draws one that does not exceed the newest inserted key after finitely many that
  do; it returns the first such draw and leaves the generators as that draw does.
\<close>

theorem key_loop_first:
  "key_loop E seq g r = Some (Inr (k, g'', r'')) \<longleftrightarrow>
     (\<exists>n g' r'. key_run E seq n g r g' r' \<and> gen_next E seq g' r' = Inr (k, g'', r'') \<and>
        k \<le> counter_last seq)"
  using key_loop_Some [of E seq g r "Inr (k, g'', r'')"] key_loop_run key_loop_stop by metis

section \<open>Choosers whose loop ends\<close>

text \<open>
  A draw in the head of the Zipf distribution gives rank 0, whose hash is the hottest key.
  If that key is not beyond the newest one and such draws come again and again, the loop
  ends, even where other ranks are hashed to keys that have not been inserted.
\<close>

definition head_recurs :: "env \<Rightarrow> counter \<Rightarrow> scrambled \<Rightarrow> bool" where
  "head_recurs E seq g \<longleftrightarrow>
     s_base g + FNVHash64 0 mod s_num_items g \<le> counter_last seq \<and>
     (\<forall>i. \<exists>j \<ge> i. canon E j * z_zeta_n (s_generator g) < 1)"

fun chooser_returns :: "env \<Rightarrow> counter \<Rightarrow> gen \<Rightarrow> bool" where
  "chooser_returns E seq (Uniform_Gen g) \<longleftrightarrow> uniform_ok g \<and> u_max g \<le> counter_last seq"
| "chooser_returns E seq (Latest_Gen g) \<longleftrightarrow> latest_ok E seq g"
| "chooser_returns E seq (Scrambled_Gen g) \<longleftrightarrow>
     scrambled_ok E g \<and> (scrambled_max g \<le> counter_last seq \<or> head_recurs E seq g)"
| "chooser_returns E seq _ \<longleftrightarrow> False"

lemma scrambled_next_head:
  assumes "scrambled_ok E g" "canon E (canon_pos r) * z_zeta_n (s_generator g) < 1"
  shows "\<exists>z. scrambled_next E g r = Inr (s_base g + FNVHash64 0 mod s_num_items g, g\<lparr>s_generator := z\<rparr>,
      r\<lparr>canon_pos := Suc (canon_pos r)\<rparr>)"
  using assms zipf_next_head [of E r "s_generator g" "z_num_items (s_generator g)"]
  by (auto simp: scrambled_ok_def zipf_ok_def scrambled_next_def zipf_Next_def Scramble_def Let_def)

text \<open>The loop takes draws until the next one in the head, at the latest.\<close>

lemma head_loop:
  assumes "scrambled_ok E g" "head_recurs E seq g" "canon_pos r \<le> j" "canon E j * z_zeta_n (s_generator g) < 1"
  shows "\<exists>k h r'. key_loop E seq (Scrambled_Gen g) r = Some (Inr (k, Scrambled_Gen h, r')) \<and>
    k \<le> counter_last seq \<and> scrambled_ok E h \<and> head_recurs E seq h"
  using assms
proof (induction "j - canon_pos r" arbitrary: g r)
  case (0 r g)
  then have j: "canon_pos r = j" by simp
  obtain v h where n: "scrambled_next E g r = Inr (v, h, r\<lparr>canon_pos := Suc (canon_pos r)\<rparr>)"
    "v = s_base g + FNVHash64 0 mod s_num_items g"
    using scrambled_next_head [OF 0(2)] 0(5) j by blast
  have "scrambled_ok E h" "head_recurs E seq h"
    using scrambled_next_total [OF 0(2), of r] n(1) 0(3) by (auto simp: head_recurs_def)
  moreover have "key_loop E seq (Scrambled_Gen g) r =
      Some (Inr (v, Scrambled_Gen h, r\<lparr>canon_pos := Suc (canon_pos r)\<rparr>))"
    using n 0(3) by (intro key_loop_stop) (simp_all add: head_recurs_def)
  moreover have "v \<le> counter_last seq" using n(2) 0(3) by (simp add: head_recurs_def)
  ultimately show ?case by blast
next
  case (Suc m r g)
  obtain v h where n: "scrambled_next E g r = Inr (v, h, r\<lparr>canon_pos := Suc (canon_pos r)\<rparr>)" "scrambled_ok E h"
    "s_base h = s_base g" "s_num_items h = s_num_items g" "z_zeta_n (s_generator h) = z_zeta_n (s_generator g)"
    using scrambled_next_total [OF Suc.prems(1), of r] by blast
  let ?r = "r\<lparr>canon_pos := Suc (canon_pos r)\<rparr>"
  have h: "head_recurs E seq h" using Suc.prems(2) n(3-5) by (simp add: head_recurs_def)
  have g: "gen_next E seq (Scrambled_Gen g) r = Inr (v, Scrambled_Gen h, ?r)" using n(1) by simp
  show ?case
  proof (cases "v \<le> counter_last seq")
    case True
    with key_loop_stop [OF g] n(2) h show ?thesis by blast
  next
    case False
    then have "key_loop E seq (Scrambled_Gen g) r = key_loop E seq (Scrambled_Gen h) ?r"
      using key_loop_skip [OF g] by simp
    moreover have "m = j - canon_pos ?r" "canon_pos ?r \<le> j" using Suc.hyps(2) Suc.prems(3) by simp_all
    ultimately show ?thesis using Suc.hyps(1) [OF _ n(2) h, of ?r] Suc.prems(4) n(5) by simp
  qed
qed

lemma chooser_loop:
  assumes "chooser_returns E seq g"
  shows "\<exists>k g' r'. key_loop E seq g r = Some (Inr (k, g', r')) \<and> k \<le> counter_last seq \<and>
    chooser_returns E seq g'"
  using assms
proof (cases "(E, seq, g)" rule: chooser_returns.cases)
  case (1 E' seq' u)
  have "u_min u \<le> u_max u" using assms 1 by (simp add: uniform_ok_def)
  note u = uid_range [OF this, of "mt64 E (u_pos u)"]
  let ?v = "uid (u_min u) (u_max u) (mt64 E (u_pos u))"
  have "gen_next E seq g r = Inr (?v, Uniform_Gen (u\<lparr>u_pos := Suc (u_pos u), u_last := ?v\<rparr>), r)"
    using 1 by (simp add: uniform_next_def Let_def)
  from key_loop_stop [OF this] u assms 1 show ?thesis
    by (auto simp: uniform_ok_def intro: order_trans)
next
  case (2 E' seq' l)
  with assms latest_next_total [of E seq l r] obtain v h where
    "gen_next E seq g r = Inr (v, Latest_Gen h, r\<lparr>canon_pos := Suc (canon_pos r)\<rparr>)" "v \<le> counter_last seq"
    "latest_ok E seq h" by auto
  with key_loop_stop [OF this(1,2)] show ?thesis by auto
next
  case (3 E' seq' s)
  show ?thesis
  proof (cases "scrambled_max s \<le> counter_last seq")
    case True
    obtain v h where
      n: "gen_next E seq g r = Inr (v, Scrambled_Gen h, r\<lparr>canon_pos := Suc (canon_pos r)\<rparr>)"
      "v \<le> scrambled_max s" "scrambled_ok E h" "scrambled_max h = scrambled_max s"
      using assms 3 scrambled_next_total [of E s r] by (auto simp: scrambled_max_def)
    have "v \<le> counter_last seq" using n(2) True by (rule order_trans)
    with key_loop_stop [OF n(1) this] n(3,4) True show ?thesis by auto
  next
    case False
    then have s: "scrambled_ok E s" "head_recurs E seq s" using assms 3 by simp_all
    then obtain j where "canon_pos r \<le> j" "canon E j * z_zeta_n (s_generator s) < 1"
      by (auto simp: head_recurs_def)
    from head_loop [OF s this] 3 show ?thesis by fastforce
  qed
qed auto

lemma BuildKeyName_cong:
  "w_ordered_inserts w' = w_ordered_inserts w \<Longrightarrow> w_zero_padding w' = w_zero_padding w \<Longrightarrow>
   BuildKeyName w' k = BuildKeyName w k"
  by (simp add: BuildKeyName_def)

lemma BuildKeyName_upd [simp]:
  "BuildKeyName (w\<lparr>w_key_chooser := g\<rparr>) k = BuildKeyName w k"
  "BuildKeyName (w\<lparr>w_key_generator := g\<rparr>) k = BuildKeyName w k"
  by (simp_all add: BuildKeyName_def)

lemma padding_ok_upd [simp]:
  "padding_ok (w\<lparr>w_key_chooser := g\<rparr>) = padding_ok w"
  "padding_ok (w\<lparr>w_key_generator := g\<rparr>) = padding_ok w"
  by (simp_all add: padding_ok_def)

lemma transaction_key_step:
  assumes "padding_ok w" "chooser_returns E (w_insert_key_sequence w) (w_key_chooser w)"
  shows "\<exists>k s g r'. NextTransactionKey E w r = Inr (s, w\<lparr>w_key_chooser := g\<rparr>, r') \<and>
    BuildKeyName w k = Inr s \<and> k \<le> counter_last (w_insert_key_sequence w) \<and>
    chooser_returns E (w_insert_key_sequence w) g"
proof -
  obtain k g' r' where k: "key_loop E (w_insert_key_sequence w) (w_key_chooser w) r = Some (Inr (k, g', r'))"
    "k \<le> counter_last (w_insert_key_sequence w)" "chooser_returns E (w_insert_key_sequence w) g'"
    using chooser_loop [OF assms(2), of r] by blast
  obtain s where s: "BuildKeyName w k = Inr s" using BuildKeyName_total [OF assms(1)] by blast
  from k s show ?thesis
    by (auto simp: NextTransactionKey_def)
qed

lemma transaction_keys_run:
  assumes "padding_ok w" "chooser_returns E (w_insert_key_sequence w) (w_key_chooser w)"
  shows "\<exists>ks ss g r'. draws (NextTransactionKey E) n w r = Inr (ss, w\<lparr>w_key_chooser := g\<rparr>, r') \<and>
    map Inr ss = map (BuildKeyName w) ks \<and> length ks = n \<and>
    (\<forall>k \<in> set ks. k \<le> counter_last (w_insert_key_sequence w)) \<and>
    chooser_returns E (w_insert_key_sequence w) g"
  using assms
proof (induction n arbitrary: w r)
  case 0
  then show ?case by (intro exI [of _ "[]"] exI [of _ "w_key_chooser w"]) simp
next
  case (Suc n)
  obtain k s g r1 where st: "NextTransactionKey E w r = Inr (s, w\<lparr>w_key_chooser := g\<rparr>, r1)"
    "BuildKeyName w k = Inr s" "k \<le> counter_last (w_insert_key_sequence w)"
    "chooser_returns E (w_insert_key_sequence w) g"
    using transaction_key_step [OF Suc.prems, of r] by blast
  let ?w = "w\<lparr>w_key_chooser := g\<rparr>"
  have "padding_ok ?w" "chooser_returns E (w_insert_key_sequence ?w) (w_key_chooser ?w)"
    using Suc.prems(1) st(4) by simp_all
  from Suc.IH [OF this, of r1] obtain ks ss h r2 where
    "draws (NextTransactionKey E) n ?w r1 = Inr (ss, ?w\<lparr>w_key_chooser := h\<rparr>, r2)"
    "map Inr ss = map (BuildKeyName w) ks" "length ks = n"
    "\<forall>k \<in> set ks. k \<le> counter_last (w_insert_key_sequence w)"
    "chooser_returns E (w_insert_key_sequence w) h"
    by auto
  with st show ?case
    by (intro exI [of _ "k # ks"] exI [of _ "s # ss"] exI [of _ h] exI [of _ r2]) simp
qed

section \<open>The keys of the load phase\<close>

lemma sequence_key_step:
  assumes "padding_ok w" "w_key_generator w = Counter_Gen c"
  shows "\<exists>s. BuildKeyName w (counter_val c) = Inr s \<and>
    NextSequenceKey E w r = Inr (s, w\<lparr>w_key_generator := Counter_Gen (counter_new (counter_val c + 1))\<rparr>, r)"
  using BuildKeyName_total [OF assms(1), of "counter_val c"] assms(2)
  by (auto simp: NextSequenceKey_def counter_next_def counter_new_def)

lemma sequence_keys_run:
  assumes "padding_ok w" "w_key_generator w = Counter_Gen c"
  shows "\<exists>ss. draws (NextSequenceKey E) n w r =
      Inr (ss, w\<lparr>w_key_generator := Counter_Gen (counter_new (counter_val c + of_nat n))\<rparr>, r) \<and>
    map Inr ss = map (\<lambda>i. BuildKeyName w (counter_val c + of_nat i)) [0..<n]"
  using assms
proof (induction n arbitrary: w c)
  case 0
  then show ?case by (cases c) (simp add: counter_new_def)
next
  case (Suc n)
  obtain s where s: "BuildKeyName w (counter_val c) = Inr s"
    "NextSequenceKey E w r = Inr (s, w\<lparr>w_key_generator := Counter_Gen (counter_new (counter_val c + 1))\<rparr>, r)"
    using sequence_key_step [OF Suc.prems] by blast
  let ?c = "counter_new (counter_val c + 1)"
  let ?w = "w\<lparr>w_key_generator := Counter_Gen ?c\<rparr>"
  have "padding_ok ?w" "w_key_generator ?w = Counter_Gen ?c" using Suc.prems by simp_all
  from Suc.IH [OF this] obtain ss where ss: "draws (NextSequenceKey E) n ?w r =
      Inr (ss, ?w\<lparr>w_key_generator := Counter_Gen (counter_new (counter_val ?c + of_nat n))\<rparr>, r)"
    "map Inr ss = map (\<lambda>i. BuildKeyName w (counter_val ?c + of_nat i)) [0..<n]"
    by auto
  have "map (\<lambda>i. BuildKeyName w (counter_val c + of_nat i)) [0..<Suc n] =
      BuildKeyName w (counter_val c) # map (\<lambda>i. BuildKeyName w (counter_val ?c + of_nat i)) [0..<n]"
    by (simp add: map_upt_Suc counter_new_def add.assoc del: upt_Suc)
  with s ss show ?case
    by (intro exI [of _ "s # ss"]) (simp add: counter_new_def algebra_simps del: upt_Suc)
qed

lemma of_nat_u64_inj:
  assumes "i < 2 ^ 64" "j < 2 ^ 64" "(of_nat i :: u64) = of_nat j"
  shows "i = j"
proof -
  have "unat (of_nat i :: u64) = unat (of_nat j :: u64)" using assms(3) by simp
  then show ?thesis using assms(1,2) unfolding unat_of_nat by simp
qed

lemma sequence_names_distinct:
  assumes "padding_ok w" "n \<le> 2 ^ 64" "w_ordered_inserts w"
    and "map Inr ss = map (\<lambda>i. BuildKeyName w (a + of_nat i)) [0..<n]"
  shows "distinct ss"
proof -
  have "inj_on (\<lambda>i. BuildKeyName w (a + of_nat i)) {0..<n}"
  proof (rule inj_onI)
    fix i j
    assume ij: "i \<in> {0..<n}" "j \<in> {0..<n}"
      "BuildKeyName w (a + of_nat i) = BuildKeyName w (a + of_nat j)"
    then have "a + of_nat i = a + of_nat j"
      using key_name_eq_iff [OF assms(1)] assms(3) by auto
    with ij(1,2) assms(2) show "i = j" by (intro of_nat_u64_inj) simp_all
  qed
  then have "distinct (map Inr ss :: (stop + string) list)"
    unfolding assms(4) by (simp add: distinct_map)
  then show ?thesis by (simp add: distinct_map)
qed

text \<open>
  C19: the load phase hands out, in order, the names of \<open>n\<close> consecutive key numbers from
  the start of the key generator, and under ordered inserts no name twice.
\<close>

theorem sequence_keys:
  assumes "padding_ok w" "w_key_generator w = Counter_Gen c" "n \<le> 2 ^ 64"
  shows "\<exists>ss w'. draws (NextSequenceKey E) n w r = Inr (ss, w', r) \<and>
    map Inr ss = map (\<lambda>i. BuildKeyName w (counter_val c + of_nat i)) [0..<n] \<and>
    (w_ordered_inserts w \<longrightarrow> distinct ss)"
  using sequence_keys_run [OF assms(1,2), of E n r] sequence_names_distinct [OF assms(1,3)] by blast

theorem sequence_keys_witness:
  "\<exists>ss w'. draws (NextSequenceKey (sample_env (Fin 0))) 3
       (workload_new\<lparr>w_key_generator := Counter_Gen (counter_new 7)\<rparr>)
       \<lparr>canon_pos = 0, crand_pos = 0\<rparr> = Inr (ss, w', \<lparr>canon_pos = 0, crand_pos = 0\<rparr>) \<and> distinct ss"
  using sequence_keys [of "workload_new\<lparr>w_key_generator := Counter_Gen (counter_new 7)\<rparr>"
      "counter_new 7" 3 "sample_env (Fin 0)" "\<lparr>canon_pos = 0, crand_pos = 0\<rparr>"]
  by (auto simp: padding_ok_def workload_new_def int_max_def)

end
