(* ===== verification/Workload_Init.thy ===== *)
theory Workload_Init
  imports Workload_Keys
begin

text \<open>
  What \<open>CoreWorkload::Init\<close> establishes, and the behaviour of the workload's operations
  afterwards: which keys the transactions pick compared with those that were loaded,
  which operations are chosen, and the shape of generated records.
\<close>

section \<open>The state after \<open>Init\<close>\<close>

lemma Init_fields:
  assumes "Init E p w0 r0 = Inr (w, r')"
  shows "\<exists>rc start ip msl r1 r2.
     stoi (GetProperty p RECORD_COUNT_PROPERTY []) = Inr rc
   \<and> stoi (GetProperty p INSERT_START_PROPERTY INSERT_START_DEFAULT) = Inr start
   \<and> stoi (GetProperty p ZERO_PADDING_PROPERTY ZERO_PADDING_DEFAULT) = Inr (w_zero_padding w)
   \<and> stoi (GetProperty p FIELD_COUNT_PROPERTY FIELD_COUNT_DEFAULT) = Inr (w_field_count w)
   \<and> stoi (GetProperty p MAX_SCAN_LENGTH_PROPERTY MAX_SCAN_LENGTH_DEFAULT) = Inr msl
   \<and> w_record_count w = of_int rc
   \<and> w_insert_key_sequence w = counter_new (of_int rc)
   \<and> w_key_generator w = Counter_Gen (counter_new (of_int start))
   \<and> w_ordered_inserts w = (GetProperty p INSERT_ORDER_PROPERTY INSERT_ORDER_DEFAULT \<noteq> ''hashed'')
   \<and> GetFieldLenGenerator E p r0 = Inr (w_field_len_generator w, r1)
   \<and> init_key_chooser E p (GetProperty p REQUEST_DISTRIBUTION_PROPERTY REQUEST_DISTRIBUTION_DEFAULT)
       (of_int rc) ip (counter_new (of_int rc)) r1 = Inr (w_key_chooser w, r2)
   \<and> init_field_chooser E (w_field_count w) = Inr (w_field_chooser w)
   \<and> init_scan_len E (GetProperty p SCAN_LENGTH_DISTRIBUTION_PROPERTY SCAN_LENGTH_DISTRIBUTION_DEFAULT)
       msl r2 = Inr (w_scan_len_chooser w, r')"
proof -
  have c: "counter_set v c = counter_new v" for v c
    by (simp add: counter_set_def counter_new_def)
  show ?thesis
    using assms unfolding Init_def Let_def bind_r_eq_Inr c
    by (elim exE conjE) (auto simp: bind_r_eq_Inr, blast)
qed

lemma Init_requests:
  assumes "Init E p w0 r0 = Inr (w, r')"
  shows "\<exists>rc ip r1 r2. stoi (GetProperty p RECORD_COUNT_PROPERTY []) = Inr rc
   \<and> stod (GetProperty p INSERT_PROPORTION_PROPERTY INSERT_PROPORTION_DEFAULT) = Inr ip
   \<and> init_key_chooser E p (GetProperty p REQUEST_DISTRIBUTION_PROPERTY REQUEST_DISTRIBUTION_DEFAULT)
       (of_int rc) ip (counter_new (of_int rc)) r1 = Inr (w_key_chooser w, r2)"
proof -
  have c: "counter_set v c = counter_new v" for v c
    by (simp add: counter_set_def counter_new_def)
  show ?thesis
    using assms unfolding Init_def Let_def bind_r_eq_Inr c
    by (elim exE conjE) (auto simp: bind_r_eq_Inr, blast)
qed

lemma Init_ops:
  assumes "Init E p w0 r0 = Inr (w, r')"
  shows "\<exists>rp up dp ip sp mp.
     stod (GetProperty p READ_PROPORTION_PROPERTY READ_PROPORTION_DEFAULT) = Inr rp
   \<and> stod (GetProperty p UPDATE_PROPORTION_PROPERTY UPDATE_PROPORTION_DEFAULT) = Inr up
   \<and> stod (GetProperty p DELETE_PROPORTION_PROPERTY DELETE_PROPORTION_DEFAULT) = Inr dp
   \<and> stod (GetProperty p INSERT_PROPORTION_PROPERTY INSERT_PROPORTION_DEFAULT) = Inr ip
   \<and> stod (GetProperty p SCAN_PROPORTION_PROPERTY SCAN_PROPORTION_DEFAULT) = Inr sp
   \<and> stod (GetProperty p READMODIFYWRITE_PROPORTION_PROPERTY READMODIFYWRITE_PROPORTION_DEFAULT) = Inr mp
   \<and> w_op_chooser w = add_op READMODIFYWRITE mp (add_op SCAN sp (add_op INSERT ip
       (add_op DELETE dp (add_op UPDATE up (add_op READ rp (w_op_chooser w0))))))"
  using assms unfolding Init_def Let_def bind_r_eq_Inr
  by (elim exE conjE) (auto simp: bind_r_eq_Inr)

section \<open>Loaded keys and transaction keys\<close>

lemma counter_last_of_int:
  assumes "1 \<le> n" "n \<le> int_max" "k \<le> counter_last (counter_new (of_int n))"
  shows "unat k < nat n"
proof -
  have n: "uint (of_int n :: u64) = n"
    using assms(1,2) by (simp add: uint_word_of_int int_max_def)
  then have one: "(1 :: u64) \<le> of_int n" using assms(1) by (simp add: word_le_def)
  have "unat k \<le> unat (of_int n - 1 :: u64)"
    using assms(3) by (simp add: counter_last_def counter_new_def word_le_nat_alt)
  also have "\<dots> = unat (of_int n :: u64) - 1" using one by (simp add: unat_sub)
  also have "unat (of_int n :: u64) = nat n" using n by (simp add: unat_eq_nat_uint)
  finally show ?thesis using assms(1) by linarith
qed

text \<open>
  After a load of all \<open>n\<close> records from key number 0, every transaction key is a loaded
  key, if the loop of the key chooser ends.
\<close>

lemma transaction_keys_in_load:
  assumes "padding_ok w" "w_key_generator w = Counter_Gen (counter_new 0)"
    and "w_insert_key_sequence w = counter_new (of_int n)" "1 \<le> n" "n \<le> int_max"
    and "chooser_returns E (w_insert_key_sequence w) (w_key_chooser w)"
    and "draws (NextSequenceKey E) (nat n) w r = Inr (loaded, w1, r1)"
  shows "\<exists>ss w2 r2. draws (NextTransactionKey E) m w1 r1 = Inr (ss, w2, r2) \<and>
    length ss = m \<and> set ss \<subseteq> set loaded"
proof -
  let ?c = "counter_new (counter_val (counter_new 0) + of_nat (nat n))"
  have w1: "w1 = w\<lparr>w_key_generator := Counter_Gen ?c\<rparr>"
    and ld: "map Inr loaded = map (\<lambda>i. BuildKeyName w (of_nat i)) [0..<nat n]"
    using sequence_keys_run [OF assms(1,2), of E "nat n" r] assms(7)
    by (simp_all add: counter_new_def)
  have "padding_ok w1" "chooser_returns E (w_insert_key_sequence w1) (w_key_chooser w1)"
    using assms(1,6) by (simp_all add: w1)
  from transaction_keys_run [OF this, of m r1] obtain ks ss g r2 where
    d: "draws (NextTransactionKey E) m w1 r1 = Inr (ss, w1\<lparr>w_key_chooser := g\<rparr>, r2)"
      "map Inr ss = map (BuildKeyName w1) ks" "length ks = m"
    and ks: "\<forall>k \<in> set ks. k \<le> counter_last (w_insert_key_sequence w1)" by blast
  have "s \<in> set loaded" if "s \<in> set ss" for s
  proof -
    have "Inr s \<in> set (map (BuildKeyName w1) ks)" unfolding d(2) [symmetric] using that by simp
    then obtain k where k: "k \<in> set ks" "BuildKeyName w k = Inr s" by (auto simp: w1)
    then have "unat k < nat n"
      using ks assms(3-5) counter_last_of_int by (simp add: w1)
    then have "BuildKeyName w (of_nat (unat k)) \<in> set (map Inr loaded)"
      unfolding ld by (auto intro: image_eqI [of _ _ "unat k"])
    then show ?thesis using k(2) by auto
  qed
  moreover have "length ss = m" using d(2,3) by (metis length_map)
  ultimately show ?thesis using d(1) by blast
qed

text \<open>
  C18: with a uniform, latest or scrambled chooser over the inserted keys, or a scrambled one
  over more keys whose hottest key is inserted and drawn again and again, the loop ends
  for each of any number of transactions: each gets the name of a key number that is not
  beyond the newest inserted key, and nothing changes but the key chooser.
\<close>

theorem transaction_keys_total:
  assumes "padding_ok w" "chooser_returns E (w_insert_key_sequence w) (w_key_chooser w)"
  shows "\<exists>ks ss g r'. draws (NextTransactionKey E) n w r = Inr (ss, w\<lparr>w_key_chooser := g\<rparr>, r') \<and>
    map Inr ss = map (BuildKeyName w) ks \<and> length ks = n \<and>
    (\<forall>k \<in> set ks. k \<le> counter_last (w_insert_key_sequence w))"
  using transaction_keys_run [OF assms, of n r] by blast

lemma uniform_chooser_returns:
  assumes "init_key_chooser E p ''uniform'' (of_int n) ip seq r = Inr (g, r')"
  shows "chooser_returns E (counter_new (of_int n)) g"
  using assms uniform_new_ok [of E 0 "of_int n - 1"]
  by (auto simp: init_key_chooser_def bind_r_eq_Inr counter_last_def counter_new_def)

text \<open>
  with a uniform request distribution and key numbers starting at 0, after
  \<open>recordcount\<close> load inserts every transaction key, of any number of transactions, is
  the key of a loaded record, and choosing it never loops.
\<close>

theorem uniform_transactions_hit_load:
  assumes "Init E p w0 r0 = Inr (w, r)"
    and "GetProperty p REQUEST_DISTRIBUTION_PROPERTY REQUEST_DISTRIBUTION_DEFAULT = ''uniform''"
    and "GetProperty p INSERT_START_PROPERTY INSERT_START_DEFAULT = ''0''"
    and "GetProperty p RECORD_COUNT_PROPERTY [] = dec_string n" "1 \<le> n" "n \<le> 2147483647"
    and "padding_ok w" "draws (NextSequenceKey E) n w r = Inr (loaded, w1, r1)"
  shows "\<exists>ss w2 r2. draws (NextTransactionKey E) m w1 r1 = Inr (ss, w2, r2) \<and>
    length ss = m \<and> set ss \<subseteq> set loaded"
proof -
  have s0: "stoi ''0'' = Inr 0" by (simp add: stoi_def cisspace_def is_digit_def
      digit_val_def nat_of_dec_def int_min_def int_max_def)
  have sn: "stoi (dec_string n) = Inr (int n)" using assms(6) by (rule stoi_dec_string)
  from Init_fields [OF assms(1)] obtain ip r2 r3 where
    f: "w_insert_key_sequence w = counter_new (of_int (int n))"
      "w_key_generator w = Counter_Gen (counter_new 0)"
    and k: "init_key_chooser E p ''uniform'' (of_int (int n)) ip (counter_new (of_int (int n))) r2 =
       Inr (w_key_chooser w, r3)"
    unfolding assms(2-4) s0 sn by auto
  show ?thesis
    using assms(5-8) uniform_chooser_returns [OF k] f
    by (intro transaction_keys_in_load [where n = "int n"]) (simp_all add: int_max_def)
qed

lemma len64: "LENGTH(64) = 64"
  by simp

text \<open>
  \<open>insertstart\<close> moves the loaded keys but not the keys the transactions ask for:
  with ordered inserts and a start not below \<open>recordcount\<close>, no transaction key of a
  uniform, latest or scrambled chooser whose loop ends is the key of a loaded record.
\<close>

theorem insertstart_misses_load:
  assumes "Init E p w0 r0 = Inr (w, r)" "w_ordered_inserts w" "padding_ok w"
    and "chooser_returns E (w_insert_key_sequence w) (w_key_chooser w)"
    and "stoi (GetProperty p RECORD_COUNT_PROPERTY []) = Inr n" "1 \<le> n"
    and "stoi (GetProperty p INSERT_START_PROPERTY INSERT_START_DEFAULT) = Inr start" "n \<le> start"
    and "draws (NextSequenceKey E) (nat n) w r = Inr (loaded, w1, r1)"
    and "draws (NextTransactionKey E) m w1 r1 = Inr (ss, w2, r2)"
  shows "set ss \<inter> set loaded = {}"
proof -
  have b: "n \<le> int_max" "start \<le> int_max"
    using stoi_range [OF assms(5)] stoi_range [OF assms(7)] by simp_all
  have f: "w_key_generator w = Counter_Gen (counter_new (of_int start))"
    "w_insert_key_sequence w = counter_new (of_int n)"
    using Init_fields [OF assms(1)] unfolding assms(5,7) by auto
  obtain g where w1: "w1 = w\<lparr>w_key_generator := g\<rparr>"
    and ld: "map Inr loaded = map (\<lambda>i. BuildKeyName w (of_int start + of_nat i)) [0..<nat n]"
    using sequence_keys_run [OF assms(3) f(1), of E "nat n" r] assms(9)
    by (auto simp: counter_new_def)
  have "padding_ok w1" "chooser_returns E (w_insert_key_sequence w1) (w_key_chooser w1)"
    using assms(3,4) by (simp_all add: w1)
  from transaction_keys_run [OF this, of m r1] assms(10) obtain ks where
    ks: "map Inr ss = map (BuildKeyName w1) ks" "\<forall>k \<in> set ks. k \<le> counter_last (w_insert_key_sequence w1)"
    by auto
  have "False" if s: "s \<in> set ss" "s \<in> set loaded" for s
  proof -
    have "Inr s \<in> set (map (BuildKeyName w1) ks)" unfolding ks(1) [symmetric] using s(1) by simp
    then obtain k where k: "k \<in> set ks" "BuildKeyName w k = Inr s" by (auto simp: w1)
    have "Inr s \<in> set (map Inr loaded :: (stop + string) list)" using s(2) by simp
    then obtain i where i: "i < nat n" "BuildKeyName w (of_int start + of_nat i) = Inr s"
      unfolding ld by auto
    have "k = of_int start + of_nat i"
      using key_name_eq_iff [OF assms(3), of k "of_int start + of_nat i"] k(2) i(2) assms(2) by simp
    also have "\<dots> = of_int (start + int i)" by simp
    finally have "uint k = (start + int i) mod 2 ^ 64"
      by (simp only: uint_word_of_int len64)
    then have "uint k = start + int i"
      using b i(1) assms(6,8) by (simp add: int_max_def)
    moreover have "unat k < nat n"
      using ks(2) k(1) counter_last_of_int [OF assms(6) b(1)] by (simp add: w1 f(2))
    ultimately show False using assms(6,8) i(1) by (simp add: unat_eq_nat_uint)
  qed
  then show ?thesis by blast
qed

section \<open>A small workload\<close>

text \<open>Three records, ordered keys, everything else by default.\<close>

definition small_props :: "string \<Rightarrow> properties" where
  "small_props start =
     [''recordcount'' \<mapsto> ''3'', ''insertorder'' \<mapsto> ''ordered'', ''insertstart'' \<mapsto> start]"

lemma small_get [simp]:
  "GetProperty (small_props s) k d =
     (if k = ''insertstart'' then s else if k = ''insertorder'' then ''ordered''
      else if k = ''recordcount'' then ''3'' else d)"
  by (simp add: GetProperty_def small_props_def)

lemma bool_literals: "StrToBool ''true'' = Inr True" "StrToBool ''false'' = Inr False"
  by code_simp+

lemma small_init:
  assumes "stoi start = Inr s"
  shows "\<exists>w. Init E (small_props start) workload_new r = Inr (w, r) \<and>
    w_ordered_inserts w \<and> w_zero_padding w = 1 \<and> w_record_count w = 3 \<and>
    w_insert_key_sequence w = counter_new 3 \<and>
    w_key_generator w = Counter_Gen (counter_new (of_int s)) \<and>
    w_field_len_generator w = Const_Gen \<lparr>const_val = 100\<rparr> \<and>
    w_field_count w = 10 \<and> w_table_name w = ''usertable'' \<and>
    w_read_all_fields w \<and> \<not> w_write_all_fields w \<and>
    chooser_returns E (counter_new 3) (w_key_chooser w)"
proof -
  have "Init E (small_props start) workload_new r \<noteq> Inl e" for e
    using assms
    by (simp add: Init_def prop_names stoi_literals stod_literals bool_literals
      GetFieldLenGenerator_def init_key_chooser_def init_field_chooser_def init_scan_len_def
      uniform_new_def int_min_def)
  then obtain w r' where i: "Init E (small_props start) workload_new r = Inr (w, r')"
    by (cases "Init E (small_props start) workload_new r") auto
  show ?thesis
    using i assms uniform_chooser_returns [of E _ 3]
    by (auto simp: Init_def prop_names stoi_literals stod_literals bool_literals bind_r_eq_Inr
      GetFieldLenGenerator_def init_key_chooser_def init_field_chooser_def init_scan_len_def
      uniform_new_def uniform_next_def int_min_def Let_def const_new_def counter_set_def counter_new_def
      uniform_ok_def counter_last_def)
qed

theorem uniform_transactions_hit_load_witness:
  "\<exists>w r ss w2 r2. Init (sample_env (Fin 0)) (small_props ''0'') workload_new
       \<lparr>canon_pos = 0, crand_pos = 0\<rparr> = Inr (w, r) \<and>
     (\<exists>loaded w1 r1. draws (NextSequenceKey (sample_env (Fin 0))) 3 w r = Inr (loaded, w1, r1) \<and>
       draws (NextTransactionKey (sample_env (Fin 0))) 5 w1 r1 = Inr (ss, w2, r2) \<and>
       set ss \<subseteq> set loaded)"
proof -
  let ?E = "sample_env (Fin 0)" and ?r = "\<lparr>canon_pos = 0, crand_pos = 0\<rparr>"
  obtain w where w: "Init ?E (small_props ''0'') workload_new ?r = Inr (w, ?r)"
    "w_zero_padding w = 1" "w_key_generator w = Counter_Gen (counter_new 0)"
    using small_init [OF stoi_literals(1), of ?E ?r] by auto
  have p: "padding_ok w" using w(2) by (simp add: padding_ok_def int_max_def)
  from sequence_keys_run [OF p w(3), of ?E 3 ?r] obtain loaded w1 r1 where
    l: "draws (NextSequenceKey ?E) 3 w ?r = Inr (loaded, w1, r1)" by blast
  have d: "dec_string 3 = ''3''" by code_simp
  from uniform_transactions_hit_load [OF w(1) _ _ _ _ _ p l, of 5] show ?thesis
    using w(1) l by (simp add: prop_names d) blast
qed

theorem insertstart_misses_load_witness:
  "\<exists>w r loaded w1 r1 s w2 r2. Init (sample_env (Fin 0)) (small_props ''5'') workload_new
       \<lparr>canon_pos = 0, crand_pos = 0\<rparr> = Inr (w, r) \<and>
     draws (NextSequenceKey (sample_env (Fin 0))) 3 w r = Inr (loaded, w1, r1) \<and>
     draws (NextTransactionKey (sample_env (Fin 0))) 1 w1 r1 = Inr ([s], w2, r2) \<and>
     length loaded = 3 \<and> s \<notin> set loaded"
proof -
  let ?E = "sample_env (Fin 0)" and ?r = "\<lparr>canon_pos = 0, crand_pos = 0\<rparr>"
  obtain w where w: "Init ?E (small_props ''5'') workload_new ?r = Inr (w, ?r)"
    "w_zero_padding w = 1" "w_key_generator w = Counter_Gen (counter_new 5)" "w_ordered_inserts w"
    "w_insert_key_sequence w = counter_new 3" "chooser_returns ?E (counter_new 3) (w_key_chooser w)"
    using small_init [OF stoi_literals(4), of ?E ?r] by auto
  have p: "padding_ok w" using w(2) by (simp add: padding_ok_def int_max_def)
  from sequence_keys_run [OF p w(3), of ?E 3 ?r] obtain loaded g where
    l: "draws (NextSequenceKey ?E) 3 w ?r = Inr (loaded, w\<lparr>w_key_generator := g\<rparr>, ?r)"
      "map Inr loaded = map (\<lambda>i. BuildKeyName w (counter_val (counter_new 5) + of_nat i)) [0..<3]"
    by blast
  let ?w1 = "w\<lparr>w_key_generator := g\<rparr>"
  have "padding_ok ?w1" "chooser_returns ?E (w_insert_key_sequence ?w1) (w_key_chooser ?w1)"
    using p w(5,6) by simp_all
  from transaction_keys_run [OF this, of 1 ?r] obtain ks ss w2 r2 where
    d: "draws (NextTransactionKey ?E) 1 ?w1 ?r = Inr (ss, w2, r2)"
      "map Inr ss = map (BuildKeyName ?w1) ks" "length ks = 1" by blast
  have "length ss = 1" using d(2,3) by (metis length_map)
  then obtain s where s: "ss = [s]" by (cases ss) auto
  have c: "chooser_returns ?E (w_insert_key_sequence w) (w_key_chooser w)" using w(5,6) by simp
  have n: "stoi (GetProperty (small_props ''5'') RECORD_COUNT_PROPERTY []) = Inr 3"
    "stoi (GetProperty (small_props ''5'') INSERT_START_PROPERTY INSERT_START_DEFAULT) = Inr 5"
    by (simp_all add: prop_names stoi_literals)
  have l3: "draws (NextSequenceKey ?E) (nat 3) w ?r = Inr (loaded, ?w1, ?r)" using l(1) by simp
  have "set ss \<inter> set loaded = {}"
    by (rule insertstart_misses_load [OF w(1,4) p c n(1) _ n(2) _ l3 d(1)]) simp_all
  then have ns: "s \<notin> set loaded" by (simp add: s)
  have n3: "length loaded = 3" using arg_cong [OF l(2), of length] by simp
  show ?thesis
    by (intro exI conjI) (rule w(1), rule l(1), rule d(1) [unfolded s], rule n3, rule ns)
qed

theorem transaction_keys_total_witness:
  "\<exists>w r ss g r'. chooser_returns (sample_env (Fin 0)) (w_insert_key_sequence w) (w_key_chooser w) \<and>
     draws (NextTransactionKey (sample_env (Fin 0))) 4 w r = Inr (ss, w\<lparr>w_key_chooser := g\<rparr>, r')"
proof -
  let ?E = "sample_env (Fin 0)" and ?r = "\<lparr>canon_pos = 0, crand_pos = 0\<rparr>"
  obtain w :: workload where i: "w_zero_padding w = 1" "w_insert_key_sequence w = counter_new 3"
    "chooser_returns ?E (counter_new 3) (w_key_chooser w)"
    using small_init [OF stoi_literals(1), of ?E ?r]
    by auto
  then have w: "w_zero_padding w = 1"
    "chooser_returns ?E (w_insert_key_sequence w) (w_key_chooser w)" by simp_all
  have "padding_ok w" using w(1) by (simp add: padding_ok_def int_max_def)
  from transaction_keys_total [OF this w(2), of 4 ?r] w(2) show ?thesis by blast
qed

end
