(* ===== verification/Request_Choosers.thy ===== *)
theory Request_Choosers
  imports Workload_Init
begin

text \<open>
  The key choosers that \<open>Init\<close> builds for the three request distributions.  The two Zipf
  distributions are prepared from sums of \<open>std::pow\<close>; \<open>zeta_ratio_ok\<close> is what their
  constants need of it.
\<close>

section \<open>Rounding twice\<close>

lemma rnd_idem [simp]: "rnd (rnd x) = rnd x"
proof (cases "x = 0")
  case False
  let ?e = "step_exp x"
  have e: "-1074 \<le> ?e" "ilog2 \<bar>x\<bar> + 1 \<le> ?e + 53" by (simp_all add: step_exp_def)
  have "\<bar>x\<bar> < 2 powi (ilog2 \<bar>x\<bar> + 1)" using ilog2_bounds(2) [of "\<bar>x\<bar>"] False by simp
  also have "\<dots> \<le> (2::rat) powi (?e + 53)" using e(2) by (simp only: powi_le_iff)
  also have "\<dots> = 2 ^ 53 * 2 powi ?e" by (simp add: power_int_add)
  finally have "\<bar>x / 2 powi ?e\<bar> < 2 ^ 53" by (simp add: abs_divide divide_less_eq)
  then have "x / 2 powi ?e \<le> 2 ^ 53" "- (2 ^ 53) \<le> x / 2 powi ?e"
    by (simp_all only: abs_less_iff less_imp_le minus_le_iff)
  then have "x / 2 powi ?e \<le> of_int (2 ^ 53)" "of_int (- (2 ^ 53)) \<le> x / 2 powi ?e" by simp_all
  from rne_mono [OF this(1)] rne_mono [OF this(2)]
  have "\<bar>rne (x / 2 powi ?e)\<bar> \<le> 2 ^ 53" unfolding rne_of_int by linarith
  from rnd_multiple [OF this e(1)] False show ?thesis by (simp add: rnd_def [of x])
qed simp

lemma rnd_half_ulp: "rnd (1 / 2 ^ 53) = 1 / 2 ^ 53"
  by (simp add: dbl_eval)

section \<open>The constants of a Zipf generator\<close>

text \<open>
  The quotient of the zeta constants is at most \<open>pow (2 / n) (1 - theta)\<close> and less than 1.
  For real numbers this holds for every \<open>n > 2\<close>.
\<close>

definition zeta_ratio_ok :: "env \<Rightarrow> nat \<Rightarrow> bool" where
  "zeta_ratio_ok E n \<longleftrightarrow>
     (case (pw E (Fin 2 / of_u64 (of_nat n)) (1 - kZipfianConst),
            zeta_sum E kZipfianConst [1..<3] 0 / zeta_sum E kZipfianConst [1..<Suc n] 0) of
        (Fin p, Fin q) \<Rightarrow> 0 \<le> q \<and> q \<le> p \<and> p \<le> 1 \<and> q \<le> 1 - 1 / 2 ^ 53
      | _ \<Rightarrow> False)"

lemma eta_in_unit:
  assumes "0 \<le> q" "q \<le> p" "p \<le> 1" "q \<le> 1 - 1 / 2 ^ 53"
  shows "\<exists>e. (1 - Fin p) / (1 - Fin q) = Fin e \<and> 0 \<le> e \<and> e \<le> 1 \<and> rnd e = e"
proof -
  define a b where "a = rnd (1 - p)" and "b = rnd (1 - q)"
  have "1 / 2 ^ 53 \<le> 1 - q" using assms(4) by simp
  from rnd_mono [OF this] have b: "0 < b" unfolding rnd_half_ulp by (simp add: b_def)
  have a: "0 \<le> a" "a \<le> b"
    using assms by (simp_all add: a_def b_def rnd_nonneg rnd_mono)
  have ab: "0 \<le> a / b" "a / b \<le> 1" using a b by (simp_all add: divide_le_eq)
  have "1 - Fin p = Fin a" "1 - Fin q = Fin b"
    using assms by (simp_all add: double_ops a_def b_def to_dbl_Fin)
  moreover have "Fin a / Fin b = Fin (rnd (a / b))"
  proof -
    have "\<bar>a / b\<bar> \<le> 1" using ab by (simp only: abs_of_nonneg)
    also have "(1 :: rat) \<le> 2 ^ 100" by simp
    finally show ?thesis using b by (simp add: double_ops to_dbl_Fin del: abs_divide)
  qed
  ultimately show ?thesis using ab by (simp add: rnd_nonneg rnd_le_1)
qed

lemma of_nat_small:
  assumes "3 \<le> n" "n \<le> 2147483647"
  shows "uint (of_nat n :: u64) = int n" "(2 :: u64) \<le> of_nat n" "(of_nat n :: u64) < kMaxNumItems"
    "unat (of_nat n :: u64) = n"
proof -
  show u: "uint (of_nat n :: u64) = int n" using assms(2) by (simp add: uint_nat unat_of_nat)
  show "(2 :: u64) \<le> of_nat n" using u assms(1) by (simp add: word_le_def)
  show "(of_nat n :: u64) < kMaxNumItems"
    using u assms(2) by (simp add: word_less_def kMaxNumItems_def mask_eq_exp_minus_1)
  show "unat (of_nat n :: u64) = n" using assms(2) by (simp add: unat_of_nat)
qed

lemma theta_alpha:
  "\<exists>a. 1 / (1 - kZipfianConst) = Fin a \<and> 0 < a"
  by (rule exI [of _ "3518437208883197 / 35184372088832"]) (simp add: theta_val double_ops dbl_eval)

text \<open>The generator over \<open>n\<close> ranks from 0 is made and draws within its bounds.\<close>

lemma zipf_new_total:
  assumes "pow_unit E" "draws_ok E" "zeta_ratio_ok E n" "3 \<le> n" "n \<le> 2147483647"
  shows "\<exists>g r'. zipf_new E 0 (of_nat n - 1) kZipfianConst r = Inr (g, r') \<and> zipf_ok E g \<and>
    z_base g = 0 \<and> z_num_items g = of_nat n \<and> z_n_for_zeta g = of_nat n \<and>
    z_zeta_n g = zeta_sum E kZipfianConst [1..<Suc n] 0"
proof -
  note n = of_nat_small [OF assms(4,5)]
  define z2 zn where "z2 = zeta_sum E kZipfianConst [1..<3] 0"
    and "zn = zeta_sum E kZipfianConst [1..<Suc n] 0"
  define g where "g = \<lparr>z_num_items = of_nat n, z_base = 0, z_theta = kZipfianConst, z_zeta_n = zn,
    z_eta = 0, z_alpha = 1 / (1 - kZipfianConst), z_zeta_2 = z2, z_n_for_zeta = of_nat n, z_last_value = 0\<rparr>"
  let ?g = "g\<lparr>z_eta := Eta E g\<rparr>"
  have "\<exists>e. Eta E g = Fin e \<and> 0 \<le> e \<and> e \<le> 1 \<and> rnd e = e"
    using assms(3) eta_in_unit
    by (auto simp: zeta_ratio_ok_def Eta_def g_def z2_def zn_def split: double.splits)
  with theta_alpha have "zipf_params ?g" by (auto simp: zipf_params_def g_def)
  moreover have "uint (of_nat n :: u64) \<le> 2 ^ 53" using n(1) assms(5) by simp
  ultimately have ok: "zipf_ok E ?g" using assms(1,2) by (simp add: zipf_ok_def g_def)
  have "(of_nat n :: u64) \<noteq> -1" using less_kMax [OF n(3)] by simp
  then have "Zeta_from E 0 (of_nat n) kZipfianConst 0 = Inr zn"
    using Zeta_sum [of "of_nat n" E kZipfianConst] n(4) by (simp add: zn_def Zeta_def del: upt_Suc)
  moreover have "Suc (unat (2 :: u64)) = 3" by simp
  with Zeta_sum [of 2 E kZipfianConst] have "Zeta E 2 kZipfianConst = Inr z2"
    by (simp only: z2_def) simp
  moreover obtain v where "zipf_Next E ?g r = Inr (v, ?g\<lparr>z_last_value := v\<rparr>, r\<lparr>canon_pos := Suc (canon_pos r)\<rparr>)"
    using zipf_next_bounds_aux [of E ?g "z_num_items ?g" r] ok n(2,3)
    by (auto simp: zipf_ok_def zipf_Next_def g_def)
  ultimately have "zipf_new E 0 (of_nat n - 1) kZipfianConst r =
      Inr (?g\<lparr>z_last_value := v\<rparr>, r\<lparr>canon_pos := Suc (canon_pos r)\<rparr>)"
    using n(2,3) by (simp add: zipf_new_def RaiseZeta_def Let_def g_def)
  moreover have "zipf_ok E (?g\<lparr>z_last_value := v\<rparr>)" using ok by (simp add: zipf_ok_def)
  ultimately show ?thesis by (simp add: g_def zn_def del: upt_Suc)
qed

section \<open>The key choosers\<close>

text \<open>
  The generator over \<open>n\<close> records and room for \<open>m\<close> new keys: the hottest key is one of the
  records, and draws of it come again and again.
\<close>

definition head_draws_recur :: "env \<Rightarrow> nat \<Rightarrow> bool" where
  "head_draws_recur E n \<longleftrightarrow>
     (\<forall>i. \<exists>j \<ge> i. canon E j * zeta_sum E kZipfianConst [1..<Suc n] 0 < 1)"

definition hot_recurs :: "env \<Rightarrow> nat \<Rightarrow> nat \<Rightarrow> bool" where
  "hot_recurs E n m \<longleftrightarrow> FNVHash64 0 mod of_nat (n + m) \<le> of_nat n - 1 \<and> head_draws_recur E (n + m)"

lemma scrambled_chooser:
  assumes "pow_unit E" "draws_ok E" "zeta_ratio_ok E (n + m)" "3 \<le> n + m" "n + m \<le> 2147483647"
    and "m = 0 \<or> hot_recurs E n m"
  shows "\<exists>g r'. scrambled_new_items E (of_nat (n + m)) r = Inr (g, r') \<and>
    chooser_returns E (counter_new (of_nat n)) (Scrambled_Gen g)"
proof -
  note n = of_nat_small [OF assms(4,5)]
  obtain z r' where z: "zipf_new E 0 (of_nat (n + m) - 1) kZipfianConst r = Inr (z, r')" "zipf_ok E z"
    "z_num_items z = of_nat (n + m)" "z_zeta_n z = zeta_sum E kZipfianConst [1..<Suc (n + m)] 0"
    using zipf_new_total [OF assms(1-5), of r] by blast
  define g where "g = \<lparr>s_base = 0, s_num_items = of_nat (n + m), s_generator = z\<rparr>"
  have g: "s_base g = 0" "s_num_items g = of_nat (n + m)" "s_generator g = z" by (simp_all add: g_def)
  have "scrambled_new_items E (of_nat (n + m)) r = Inr (g, r')"
    using z(1) by (simp add: scrambled_new_items_def scrambled_new_def g_def)
  moreover have "(of_nat (n + m) :: u64) \<noteq> 0" using n(2) by (auto simp del: of_nat_add)
  then have "scrambled_ok E g"
    using z(2,3) n(2,3) by (simp only: scrambled_ok_def scrambled_range_def g) simp
  moreover have "scrambled_max g \<le> counter_last (counter_new (of_nat n)) \<or>
      head_recurs E (counter_new (of_nat n)) g"
    using assms(6) unfolding scrambled_max_def head_recurs_def hot_recurs_def head_draws_recur_def g z(4)
    by (auto simp: counter_last_def counter_new_def)
  ultimately show ?thesis by auto
qed

lemma latest_chooser:
  assumes "pow_unit E" "draws_ok E" "zeta_ratio_ok E (n - 1)" "4 \<le> n" "n \<le> 2147483647"
  shows "\<exists>g r'. latest_new E (counter_new (of_nat n)) r = Inr (g, r') \<and>
    chooser_returns E (counter_new (of_nat n)) (Latest_Gen g)"
proof -
  let ?c = "counter_new (of_nat n)"
  have m: "3 \<le> n - 1" "n - 1 \<le> 2147483647" using assms(4,5) by simp_all
  note n = of_nat_small [OF m]
  have c: "counter_last ?c = of_nat (n - 1)"
    using assms(4) by (simp add: counter_last_def counter_new_def of_nat_diff)
  obtain z r1 where z: "zipf_new E 0 (of_nat (n - 1) - 1) kZipfianConst r = Inr (z, r1)" "zipf_ok E z"
    "z_base z = 0" "z_n_for_zeta z = of_nat (n - 1)"
    using zipf_new_total [OF assms(1-3) m, of r] by blast
  have "latest_ok E ?c \<lparr>l_zipfian = z, l_last = 0\<rparr>"
    using z(2-4) n(2,3) assms(1,2) by (simp add: latest_ok_def zipf_ok_def c)
  from latest_next_total [OF this, of r1] obtain v g where
    g: "latest_next E ?c \<lparr>l_zipfian = z, l_last = 0\<rparr> r1 = Inr (v, g, r1\<lparr>canon_pos := Suc (canon_pos r1)\<rparr>)"
      "latest_ok E ?c g" by blast
  have "latest_new E ?c r = Inr (g, r1\<lparr>canon_pos := Suc (canon_pos r1)\<rparr>)"
    using z(1) g(1) by (simp add: latest_new_def zipf_new_items_def c)
  with g(2) show ?thesis by auto
qed

text \<open>The room that \<open>Init\<close> leaves for the keys of inserts.\<close>

definition new_keys :: "properties \<Rightarrow> stop + int" where
  "new_keys p =
     bind_r (stoi (GetProperty p OPERATION_COUNT_PROPERTY [])) (\<lambda>op_count.
     bind_r (stod (GetProperty p INSERT_PROPORTION_PROPERTY INSERT_PROPORTION_DEFAULT)) (\<lambda>insert_proportion.
     to_cint (of_cint op_count * insert_proportion * Fin 2)))"

text \<open>
  What a property file with \<open>n\<close> records must say for \<open>Init\<close> to build a key chooser whose
  loop ends.  The Zipf distribution adds room for new keys, so either there are no
  inserts, or draws of the hottest key recur; its constants, and those of the latest
  distribution, need three values at least.
\<close>

definition requests_ok :: "env \<Rightarrow> properties \<Rightarrow> nat \<Rightarrow> bool" where
  "requests_ok E p n \<longleftrightarrow>
     (let d = GetProperty p REQUEST_DISTRIBUTION_PROPERTY REQUEST_DISTRIBUTION_DEFAULT
      in d = ''uniform'' \<or>
         d = ''zipfian'' \<and> 3 \<le> n \<and> pow_unit E \<and> zeta_ratio_ok E n \<and>
           (case stoi (GetProperty p OPERATION_COUNT_PROPERTY []) of Inl _ \<Rightarrow> False | Inr _ \<Rightarrow> True) \<and>
           stod (GetProperty p INSERT_PROPORTION_PROPERTY INSERT_PROPORTION_DEFAULT) = Inr (Fin 0) \<or>
         d = ''zipfian'' \<and> pow_unit E \<and>
           (case new_keys p of
              Inl _ \<Rightarrow> False
            | Inr m \<Rightarrow> 0 \<le> m \<and> 3 \<le> n + nat m \<and> n + nat m \<le> 2147483647 \<and>
                zeta_ratio_ok E (n + nat m) \<and> hot_recurs E n (nat m)) \<or>
         d = ''latest'' \<and> 4 \<le> n \<and> pow_unit E \<and> zeta_ratio_ok E (n - 1))"

lemma no_new_keys:
  assumes "stoi s = Inr oc"
  shows "to_cint (of_cint oc * Fin 0 * Fin 2) = Inr 0"
proof -
  have "\<bar>oc\<bar> \<le> 2 ^ 53" using stoi_range [OF assms] by (simp add: int_max_def int_min_def abs_le_iff)
  from to_dbl_int [OF this] show ?thesis
    by (simp add: of_cint_def double_ops to_dbl_Fin trunc_rat_def)
qed

lemma request_chooser:
  assumes "requests_ok E p n" "draws_ok E" "1 \<le> n" "n \<le> 2147483647"
    and "stod (GetProperty p INSERT_PROPORTION_PROPERTY INSERT_PROPORTION_DEFAULT) = Inr ip"
  shows "\<exists>g r'. init_key_chooser E p (GetProperty p REQUEST_DISTRIBUTION_PROPERTY REQUEST_DISTRIBUTION_DEFAULT)
      (of_nat n) ip (counter_new (of_nat n)) r = Inr (g, r') \<and>
    chooser_returns E (counter_new (of_nat n)) g"
proof -
  let ?d = "GetProperty p REQUEST_DISTRIBUTION_PROPERTY REQUEST_DISTRIBUTION_DEFAULT"
  consider "?d = ''uniform''"
    | oc where "?d = ''zipfian''" "3 \<le> n" "pow_unit E" "zeta_ratio_ok E n" "ip = Fin 0"
        "stoi (GetProperty p OPERATION_COUNT_PROPERTY []) = Inr oc"
    | oc m where "?d = ''zipfian''" "pow_unit E" "stoi (GetProperty p OPERATION_COUNT_PROPERTY []) = Inr oc"
        "to_cint (of_cint oc * ip * Fin 2) = Inr (int m)"
        "3 \<le> n + m" "n + m \<le> 2147483647" "zeta_ratio_ok E (n + m)" "hot_recurs E n m"
    | "?d = ''latest''" "4 \<le> n" "pow_unit E" "zeta_ratio_ok E (n - 1)"
    using assms(1,5)
    by (auto simp: requests_ok_def new_keys_def Let_def bind_r_eq_Inr split: sum.splits) (metis int_nat_eq)
  then show ?thesis
  proof cases
    case 1
    have "(1 :: u64) \<le> of_nat n"
      using assms(3,4) by (simp add: word_le_nat_alt unat_of_nat)
    then obtain g where "uniform_new E 0 (of_nat n - 1) = Inr g"
      by (cases "uniform_new E 0 (of_nat n - 1)") (auto simp: uniform_new_def)
    then have "init_key_chooser E p ''uniform'' (of_int (int n)) ip (counter_new (of_int (int n))) r =
        Inr (Uniform_Gen g, r)"
      by (simp add: init_key_chooser_def)
    from this uniform_chooser_returns [OF this] show ?thesis using 1 by auto
  next
    case (2 oc)
    from scrambled_chooser [where n = n and m = 0, OF 2(3) assms(2), of r] 2(4,2) assms(4) show ?thesis
      by (auto simp: init_key_chooser_def 2 no_new_keys [OF 2(6)])
  next
    case (3 oc m)
    have "(of_nat n + of_int (int m) :: u64) = of_nat (n + m)" by simp
    with scrambled_chooser [OF 3(2) assms(2) 3(7,5,6), of r] 3(8) show ?thesis
      by (auto simp: init_key_chooser_def 3(1,3,4) simp del: of_nat_add of_int_of_nat_eq)
  next
    case 4
    from latest_chooser [OF 4(3) assms(2) 4(4,2) assms(4), of r] show ?thesis
      by (auto simp: init_key_chooser_def 4)
  qed
qed

end
