(* ===== verification/Timer.thy ===== *)
theory Timer
  imports Doubles
begin

text \<open>
  \<open>core/timer.h\<close>.  A clock is a sequence of readings, in ticks of which \<open>ck_den\<close> make a
  second (the period of \<open>std::chrono::high_resolution_clock\<close> is \<open>1 / ck_den\<close>); a difference
  of readings is a 64-bit count.
\<close>

record clock =
  ck_den :: int
  ck_now :: "nat \<Rightarrow> int"

record timer =
  tm_time :: int

definition Timer_Start :: "int \<Rightarrow> timer \<Rightarrow> timer" where
  "Timer_Start now t = t\<lparr>tm_time := now\<rparr>"

text \<open>
  \<open>duration_cast\<close> to seconds as doubles: the count and the denominator of the period are
  converted to \<open>double\<close> and divided.
\<close>

definition Timer_End :: "int \<Rightarrow> int \<Rightarrow> timer \<Rightarrow> stop + double" where
  "Timer_End den now t =
     (let span = now - tm_time t
      in if - (2 ^ 63) \<le> span \<and> span < 2 ^ 63 then Inr (of_cint span / of_cint den) else Inl Undefined)"

text \<open>The two readings of a clock do not run backwards, and their distance is exact as a double.\<close>

definition clock_ok :: "clock \<Rightarrow> bool" where
  "clock_ok C \<longleftrightarrow> 0 < ck_den C \<and> ck_den C \<le> 2 ^ 53 \<and>
     ck_now C 0 \<le> ck_now C 1 \<and> ck_now C 1 - ck_now C 0 \<le> 2 ^ 53"

lemma quotient_Fin:
  assumes "0 \<le> a" "a \<le> 2 ^ 53" "1 \<le> b"
  shows "Fin a / Fin b = Fin (rnd (a / b))"
proof -
  have "a / b \<le> a / 1" using assms by (intro divide_left_mono) simp_all
  then have "a / b \<le> 2 ^ 53" using assms(2) by linarith
  also have "(2 :: rat) ^ 53 \<le> 2 ^ 100" by simp
  finally have "a / b \<le> 2 ^ 100" .
  moreover have "0 \<le> a / b" using assms by simp
  ultimately have "to_dbl (a / b) = Fin (rnd (a / b))"
    by (intro to_dbl_Fin) (simp only: abs_of_nonneg)
  moreover have "b \<noteq> 0" using assms(3) by linarith
  ultimately show ?thesis by (simp add: double_ops)
qed

lemma Timer_End_value:
  assumes "0 < den" "den \<le> 2 ^ 53" "0 \<le> now - tm_time t" "now - tm_time t \<le> 2 ^ 53"
  shows "Timer_End den now t = Inr (Fin (rnd (of_int (now - tm_time t) / of_int den)))"
proof -
  define d where "d = now - tm_time t"
  have d: "0 \<le> d" "d \<le> 2 ^ 53" using assms(3,4) by (simp_all only: d_def)
  have b: "(2::int) ^ 53 < 2 ^ 63" "- (2 ^ 63) \<le> (0 :: int)" by simp_all
  have r: "- (2 ^ 63) \<le> d \<and> d < 2 ^ 63" using d b by linarith
  have c: "of_cint d = Fin (of_int d)" "of_cint den = Fin (of_int den)"
    using assms(1,2) d by (simp_all only: of_cint_def to_dbl_int abs_of_pos abs_of_nonneg)
  have "(of_int d :: rat) \<le> of_int (2 ^ 53)" using d(2) by (simp only: of_int_le_iff)
  then have "(of_int d :: rat) \<le> 2 ^ 53" by simp
  moreover have "(1 :: rat) \<le> of_int den" "(0 :: rat) \<le> of_int d" using assms(1) d(1) by simp_all
  ultimately have "Fin (of_int d) / Fin (of_int den) = Fin (rnd (of_int d / of_int den))"
    by (intro quotient_Fin)
  with r c show ?thesis by (simp only: Timer_End_def Let_def flip: d_def) simp
qed

text \<open>
  C39: a timer measures the time between its two readings in seconds: for a clock that does
  not run backwards, with a period of at most \<open>2 ^ 53\<close> ticks a second and readings at most
  \<open>2 ^ 53\<close> ticks apart, \<open>End\<close> returns the double nearest to the number of ticks divided by the
  ticks of a second.  Whole seconds are exact, and a later end is never shorter.
\<close>

theorem Timer_measures:
  assumes "0 < den" "den \<le> 2 ^ 53" "start \<le> now" "now - start \<le> 2 ^ 53"
  shows "Timer_End den now (Timer_Start start t) = Inr (Fin (rnd (of_int (now - start) / of_int den))) \<and>
    (\<forall>n. now - start = n * den \<longrightarrow> Timer_End den now (Timer_Start start t) = Inr (Fin (of_int n))) \<and>
    (\<forall>a x y. start \<le> a \<and> a \<le> now \<and> Timer_End den a (Timer_Start start t) = Inr (Fin x) \<and>
       Timer_End den now (Timer_Start start t) = Inr (Fin y) \<longrightarrow> 0 \<le> x \<and> x \<le> y)"
proof -
  let ?t = "Timer_Start start t"
  have t: "tm_time ?t = start" by (simp add: Timer_Start_def)
  have v: "Timer_End den a ?t = Inr (Fin (rnd (of_int (a - start) / of_int den)))"
    if "start \<le> a" "a \<le> now" for a
    using Timer_End_value [of den a ?t] assms that unfolding t by simp
  have "rnd (of_int (now - start) / of_int den) = of_int n" if n: "now - start = n * den" for n
  proof -
    have "0 \<le> n * den" using n assms(3) by linarith
    then have "0 \<le> n" using assms(1) by (simp add: zero_le_mult_iff)
    moreover have "n * 1 \<le> n * den" using \<open>0 \<le> n\<close> assms(1) by (intro mult_left_mono) simp_all
    ultimately have "\<bar>n\<bar> \<le> 2 ^ 53" using n assms(4) by linarith
    then show ?thesis using assms(1) unfolding n by (simp add: rnd_of_int)
  qed
  moreover have "rnd (of_int (a - start) / of_int den) \<le> rnd (of_int (now - start) / of_int den)"
    "0 \<le> rnd (of_int (a - start) / of_int den)" if "start \<le> a" "a \<le> now" for a
    using assms(1) that by (intro rnd_mono rnd_nonneg divide_right_mono divide_nonneg_pos; simp)+
  moreover note v [OF assms(3) order_refl]
  moreover have "0 \<le> x \<and> x \<le> y" if "start \<le> a" "a \<le> now"
    "Timer_End den a ?t = Inr (Fin x)" "Timer_End den now ?t = Inr (Fin y)" for a x y
    using calculation(2,3) [OF that(1,2)] that(3,4) v [OF that(1,2)] v [OF assms(3) order_refl] by simp
  ultimately show ?thesis by (intro conjI allI impI) (simp_all only:, blast+)
qed

theorem Timer_measures_witness:
  "Timer_End 1000000000 3000000005 (Timer_Start 5 \<lparr>tm_time = 0\<rparr>) = Inr (Fin 3)"
proof -
  have "(2::int) ^ 53 = 9007199254740992" by simp
  then show ?thesis
    using Timer_measures [of 1000000000 5 3000000005 "\<lparr>tm_time = 0\<rparr>"] rnd_of_int [of 3] by simp
qed

end
