(* ===== verification/Pow_Bounds.thy ===== *)
theory Pow_Bounds
  imports Request_Choosers Timer
begin

text \<open>
  What an accurate \<open>std::pow\<close> gives the Zipf distributions.  If its results are within
  one percent of the real power, the zeta constants of \<open>n\<close> items stay between two small
  bounds for every \<open>n\<close> that an \<open>int\<close> can count, and the quotient that \<open>zeta_ratio_ok\<close> asks
  for is in order: no analysis of the rounding is needed, as the bounds are themselves
  representable.
\<close>

section \<open>An accurate power\<close>

definition pow_close :: "env \<Rightarrow> bool" where
  "pow_close E \<longleftrightarrow>
     (\<forall>x y. 1 / 2 ^ 31 \<le> x \<and> x \<le> 2 ^ 31 \<and> 0 \<le> y \<and> y \<le> 1 \<longrightarrow>
        (case pw E (Fin x) (Fin y) of
           Fin r \<Rightarrow> \<bar>real_of_rat r - real_of_rat x powr real_of_rat y\<bar>
             \<le> real_of_rat x powr real_of_rat y / 100
         | _ \<Rightarrow> False))"

lemma pow_closeE:
  assumes "pow_close E" "1 / 2 ^ 31 \<le> x" "x \<le> 2 ^ 31" "0 \<le> y" "y \<le> 1"
  obtains r where "pw E (Fin x) (Fin y) = Fin r"
    "99 / 100 * (real_of_rat x powr real_of_rat y) \<le> real_of_rat r"
    "real_of_rat r \<le> 101 / 100 * (real_of_rat x powr real_of_rat y)"
proof -
  have "case pw E (Fin x) (Fin y) of
      Fin r \<Rightarrow> \<bar>real_of_rat r - real_of_rat x powr real_of_rat y\<bar> \<le> real_of_rat x powr real_of_rat y / 100
    | _ \<Rightarrow> False"
    using assms unfolding pow_close_def by blast
  then obtain r where r: "pw E (Fin x) (Fin y) = Fin r"
    "\<bar>real_of_rat r - real_of_rat x powr real_of_rat y\<bar> \<le> real_of_rat x powr real_of_rat y / 100"
    by (auto split: double.splits)
  show ?thesis using r(2) by (intro that [OF r(1)]) linarith+
qed

section \<open>The constant 0.99\<close>

text \<open>The double nearest to 0.99 and what it lacks to 1.\<close>

definition theta :: rat where "theta = 4458563631096791 / 4503599627370496"
definition delta :: rat where "delta = 45035996273705 / 4503599627370496"

lemma theta_delta: "kZipfianConst = Fin theta" "1 - kZipfianConst = Fin delta"
  "real_of_rat theta = 1 - real_of_rat delta" "0 < delta" "delta \<le> 1 / 99" "0 \<le> theta" "theta \<le> 1"
  by (simp_all add: theta_def delta_def theta_val double_ops dbl_eval of_rat_divide)

lemma two_powr_delta: "2 powr (31 * real_of_rat delta) \<le> 5 / 4" "2 powr real_of_rat delta \<le> 101 / 100"
proof -
  have d: "real_of_rat delta \<le> 1 / 99" using theta_delta(5) by (simp add: delta_def of_rat_divide)
  have root: "2 powr (m * (1 / 99)) \<le> b" if "2 powr m \<le> b ^ 99" "0 \<le> b" for m b :: real
  proof -
    have "(2 powr (m * (1 / 99))) ^ 99 = 2 powr (99 * (m * (1 / 99)))"
      by (simp flip: powr_realpow add: powr_powr mult.commute)
    then have "(2 powr (m * (1 / 99))) ^ 99 \<le> b ^ 99" using that(1) by simp
    then show ?thesis using that(2) by (rule power_le_imp_le_base [of _ 98, simplified])
  qed
  have "2 powr (31 * real_of_rat delta) \<le> 2 powr (31 * (1 / 99))"
    using d by (intro powr_mono) simp_all
  also have "\<dots> \<le> 5 / 4" by (rule root) (simp_all add: power_divide)
  finally show "2 powr (31 * real_of_rat delta) \<le> 5 / 4" .
  have "2 powr real_of_rat delta \<le> 2 powr (1 * (1 / 99))" using d by (intro powr_mono) simp_all
  also have "\<dots> \<le> 101 / 100" by (rule root) (simp_all add: power_divide)
  finally show "2 powr real_of_rat delta \<le> 101 / 100" .
qed

lemma powr_delta:
  assumes "1 \<le> (x :: real)" "x \<le> 2 ^ 31"
  shows "1 \<le> x powr real_of_rat delta" "x powr real_of_rat delta \<le> 5 / 4"
proof -
  have d: "0 \<le> real_of_rat delta" by (simp add: delta_def of_rat_divide)
  then show "1 \<le> x powr real_of_rat delta" using assms(1) by (simp add: ge_one_powr_ge_zero)
  have "x powr real_of_rat delta \<le> (2 powr 31) powr real_of_rat delta"
    using assms d by (intro powr_mono2) simp_all
  also have "\<dots> \<le> 5 / 4" using two_powr_delta(1) by (simp only: powr_powr)
  finally show "x powr real_of_rat delta \<le> 5 / 4" .
qed

lemma powr_theta:
  assumes "1 \<le> (x :: real)" "x \<le> 2 ^ 31"
  shows "4 / 5 * x \<le> x powr real_of_rat theta" "x powr real_of_rat theta \<le> x"
proof -
  let ?d = "x powr real_of_rat delta" and ?t = "x powr real_of_rat theta"
  have x: "x = ?d * ?t" using assms by (simp add: theta_delta(3) flip: powr_add)
  have "1 * ?t \<le> ?d * ?t" "?d * ?t \<le> 5 / 4 * ?t"
    using powr_delta [OF assms] by (intro mult_right_mono; simp)+
  then show "4 / 5 * x \<le> ?t" "?t \<le> x" unfolding x [symmetric] by simp_all
qed

lemma powr_theta_half: "1 \<le> i \<Longrightarrow> i \<le> 2 ^ 31 \<Longrightarrow> 1 / 2 \<le> real i powr real_of_rat theta"
proof -
  assume i: "1 \<le> i" "i \<le> 2 ^ 31"
  then have "1 \<le> real i" "real i \<le> 2 ^ 31" by (metis of_nat_1 of_nat_le_iff, metis of_nat_le_iff of_nat_numeral of_nat_power)
  with powr_theta(1) [OF this] show ?thesis by linarith
qed

section \<open>The terms of a zeta sum\<close>

definition zeta_term :: "env \<Rightarrow> nat \<Rightarrow> double" where
  "zeta_term E i = 1 / pw E (of_u64 (of_nat i)) kZipfianConst"

lemma zeta_sum_Suc:
  "1 \<le> i \<Longrightarrow> zeta_sum E kZipfianConst [1..<Suc i] 0 = zeta_sum E kZipfianConst [1..<i] 0 + zeta_term E i"
  by (simp add: zeta_sum_append zeta_sum_def zeta_term_def)

lemma of_u64_nat: "i \<le> 2 ^ 31 \<Longrightarrow> of_u64 (of_nat i) = Fin (of_nat i)"
  by (subst of_u64_small) (simp_all add: uint_nat unat_of_nat)

text \<open>A term is between the rounded reciprocals of the bounds of the power.\<close>

lemma zeta_term_between:
  assumes "pow_close E" "1 \<le> i" "i \<le> 2 ^ 31" "l \<le> of_nat i powr real_of_rat theta" "0 < l"
    and "rnd a = a" "a * (101 / 100 * of_nat i) \<le> 1" "rnd b = b" "1 \<le> real_of_rat b * (99 / 100 * l)"
  obtains t where "zeta_term E i = Fin t" "a \<le> t" "t \<le> b"
proof -
  have i: "1 / 2 ^ 31 \<le> (of_nat i :: rat)" "(of_nat i :: rat) \<le> 2 ^ 31" "1 \<le> real i" "real i \<le> 2 ^ 31"
    using assms(2,3) by (simp_all add: order_trans [of _ 1] flip: of_nat_le_iff)
  obtain r where r: "pw E (Fin (of_nat i)) (Fin theta) = Fin r"
    "99 / 100 * (of_nat i powr real_of_rat theta) \<le> real_of_rat r"
    "real_of_rat r \<le> 101 / 100 * (of_nat i powr real_of_rat theta)"
    using pow_closeE [OF assms(1) i(1,2) theta_delta(6,7)] by (auto simp only: of_rat_of_nat_eq)
  have lo: "99 / 125 \<le> real_of_rat r" "99 / 100 * l \<le> real_of_rat r"
    using powr_theta(1) [OF i(3,4)] i(3) r(2) assms(4) by linarith+
  have hi: "real_of_rat r \<le> 101 / 100 * real i" using powr_theta(2) [OF i(3,4)] r(3) by linarith
  have pos: "1 / 2 \<le> r" using lo(1) by (simp flip: of_rat_less_eq [where 'a = real] add: of_rat_divide)
  then have inv: "0 \<le> 1 / r" "1 / r \<le> 2" by (simp_all add: divide_le_eq)
  have "r \<le> 101 / 100 * of_nat i"
    using hi by (simp flip: of_rat_less_eq [where 'a = real] add: of_rat_divide of_rat_mult)
  then have "a * r \<le> 1 \<or> a \<le> 0" using assms(7) mult_left_mono [of r "101 / 100 * of_nat i" a] by linarith
  then have "a \<le> 1 / r" using pos inv(1) by (elim disjE) (simp add: le_divide_eq, linarith)
  then have a: "a \<le> rnd (1 / r)" using rnd_mono assms(6) by metis
  have "0 < real_of_rat b" using assms(5,9)
    by (metis less_le_trans mult_pos_pos zero_less_divide_iff zero_less_mult_pos2 zero_less_numeral zero_less_one)
  then have "1 \<le> real_of_rat b * real_of_rat r"
    using assms(9) lo(2) mult_left_mono [of "99 / 100 * l" "real_of_rat r" "real_of_rat b"] by linarith
  then have "1 \<le> b * r" by (simp flip: of_rat_mult)
  then have "1 / r \<le> b" using pos by (simp add: divide_le_eq)
  then have b: "rnd (1 / r) \<le> b" using rnd_mono assms(8) by metis
  have "zeta_term E i = Fin (rnd (1 / r))"
    using pos inv assms(3) by (simp add: zeta_term_def of_u64_nat theta_delta(1) r(1) double_ops to_dbl_Fin)
  from that [OF this a b] show ?thesis .
qed

section \<open>Bounds of the sums\<close>

lemma zeta_sum_step:
  assumes "zeta_sum E kZipfianConst [1..<i] 0 = Fin s" "zeta_term E i = Fin t" "1 \<le> i"
    and "lo \<le> s + t" "s + t \<le> hi" "rnd lo = lo" "rnd hi = hi" "0 \<le> lo" "hi \<le> 100"
  shows "\<exists>s'. zeta_sum E kZipfianConst [1..<Suc i] 0 = Fin s' \<and> lo \<le> s' \<and> s' \<le> hi"
proof -
  have "\<bar>s + t\<bar> \<le> 2 ^ 100" using assms(4,5,8,9) by simp
  then have "Fin s + Fin t = Fin (rnd (s + t))" by (simp add: double_ops to_dbl_Fin)
  then have "zeta_sum E kZipfianConst [1..<Suc i] 0 = Fin (rnd (s + t))"
    by (simp only: zeta_sum_Suc [OF assms(3)] assms(1,2))
  then show ?thesis using rnd_mono [OF assms(4)] rnd_mono [OF assms(5)] assms(6,7) by simp
qed

lemma zeta_sum_next:
  assumes "zeta_sum E kZipfianConst [1..<i] 0 = Fin s" "lo \<le> s" "s \<le> hi"
    and "zeta_term E i = Fin t" "a \<le> t" "t \<le> b"
    and "1 \<le> i" "i' = Suc i" "l = lo + a" "h = hi + b" "rnd l = l" "rnd h = h" "0 \<le> l" "h \<le> 100"
  obtains s' where "zeta_sum E kZipfianConst [1..<i'] 0 = Fin s'" "l \<le> s'" "s' \<le> h"
  using zeta_sum_step [OF assms(1,4,7) _ _ assms(11-14)] add_mono [OF assms(2,5)] add_mono [OF assms(3,6)]
  unfolding assms(8-10) by blast

text \<open>The terms from \<open>2 ^ k\<close> on are at most \<open>21 / 16\<close> of \<open>2 ^ - k\<close>, so each doubling of the items adds at most \<open>21 / 16\<close>.\<close>

definition zeta_cap :: "nat \<Rightarrow> nat \<Rightarrow> rat" where
  "zeta_cap k j = 21 / 16 * (of_nat k + of_nat j / 2 ^ k)"

lemma rnd_sixteenths:
  assumes "k \<le> 30" "m \<le> 2 ^ 50"
  shows "rnd (of_nat m / 2 ^ (k + 6)) = of_nat m / 2 ^ (k + 6)"
proof -
  have "rnd (of_int (int m) * 2 powi - int (k + 6)) = of_int (int m) * 2 powi - int (k + 6)"
    using assms by (intro rnd_multiple) simp_all
  then show ?thesis by (simp add: power_int_minus divide_inverse del: of_nat_add)
qed

lemma rnd_zeta_cap:
  assumes "k \<le> 30" "j \<le> 2 ^ k"
  shows "rnd (zeta_cap k j) = zeta_cap k j"
proof -
  have e: "zeta_cap k j = of_nat (84 * (k * 2 ^ k + j)) / 2 ^ (k + 6)"
    by (simp add: zeta_cap_def power_add field_simps)
  have "(2 :: nat) ^ k \<le> 2 ^ 30" using assms(1) by (intro power_increasing) simp_all
  then have "84 * (k * 2 ^ k + j) \<le> 84 * (30 * 2 ^ 30 + 2 ^ 30)"
    using assms by (intro mult_le_mono2 add_mono mult_mono) simp_all
  then show ?thesis unfolding e by (intro rnd_sixteenths [OF assms(1)]) simp
qed

lemma zeta_cap_Suc: "zeta_cap k (Suc j) = zeta_cap k j + 21 / 16 / 2 ^ k"
  by (simp add: zeta_cap_def field_simps)

lemma zeta_cap_le:
  assumes "k \<le> 30" "j \<le> 2 ^ k"
  shows "zeta_cap k j \<le> 64"
proof -
  have "of_nat j \<le> (of_nat (2 ^ k) :: rat)" using assms(2) by (simp only: of_nat_le_iff)
  then have "of_nat j / 2 ^ k \<le> (1 :: rat)" by (simp add: divide_le_eq)
  then have "of_nat k + of_nat j / 2 ^ k \<le> (30 + 1 :: rat)"
    using assms(1) by (intro add_mono) (metis of_nat_le_iff of_nat_numeral)
  from mult_left_mono [OF this, of "21 / 16"] show ?thesis unfolding zeta_cap_def by (rule order_trans) simp_all
qed

lemma zeta_sum_in_octave:
  assumes "pow_close E" "k \<le> 30" "j \<le> 2 ^ k"
    and "\<exists>s. zeta_sum E kZipfianConst [1..<2 ^ k] 0 = Fin s \<and> 0 \<le> s \<and> s \<le> zeta_cap k 0"
  shows "\<exists>s. zeta_sum E kZipfianConst [1..<2 ^ k + j] 0 = Fin s \<and> 0 \<le> s \<and> s \<le> zeta_cap k j"
  using assms(3)
proof (induction j)
  case (Suc j)
  then obtain s where s: "zeta_sum E kZipfianConst [1..<2 ^ k + j] 0 = Fin s" "0 \<le> s" "s \<le> zeta_cap k j"
    by auto
  let ?i = "2 ^ k + j"
  have "(2 :: nat) ^ k \<le> 2 ^ 30" using assms(2) by (intro power_increasing) simp_all
  then have i: "1 \<le> ?i" "?i \<le> 2 ^ 31" using Suc.prems by simp_all
  have r: "1 \<le> real ?i" "real ?i \<le> 2 ^ 31"
    using i by (metis of_nat_1 of_nat_le_iff, metis of_nat_le_iff of_nat_numeral of_nat_power)
  have l: "4 / 5 * 2 ^ k \<le> real ?i powr real_of_rat theta"
    using powr_theta(1) [OF r] by (simp add: order_trans [rotated])
  have c: "rnd (21 / 16 / 2 ^ k) = 21 / 16 / 2 ^ k"
    using rnd_sixteenths [OF assms(2), of 84] by (simp add: power_add)
  have b: "1 \<le> real_of_rat (21 / 16 / 2 ^ k) * (99 / 100 * (4 / 5 * 2 ^ k))"
    by (simp add: of_rat_divide of_rat_power of_rat_mult)
  obtain t where t: "zeta_term E ?i = Fin t" "0 \<le> t" "t \<le> 21 / 16 / 2 ^ k"
    by (rule zeta_term_between [OF assms(1) i l _ rnd_0 _ c b]) simp_all
  have "zeta_cap k (Suc j) \<le> 100" using zeta_cap_le [OF assms(2) Suc.prems] by simp
  with s(2,3) t(2,3) have "\<exists>s'. zeta_sum E kZipfianConst [1..<Suc ?i] 0 = Fin s' \<and> 0 \<le> s' \<and> s' \<le> zeta_cap k (Suc j)"
    by (intro zeta_sum_step [OF s(1) t(1) i(1) _ _ rnd_0 rnd_zeta_cap [OF assms(2) Suc.prems]]) (simp_all add: zeta_cap_Suc)
  then show ?case by simp
qed (use assms(4) in simp)

lemma zeta_sum_below_cap:
  assumes "pow_close E" "k \<le> 30" "j \<le> 2 ^ k"
  shows "\<exists>s. zeta_sum E kZipfianConst [1..<2 ^ k + j] 0 = Fin s \<and> 0 \<le> s \<and> s \<le> zeta_cap k j"
  using assms(2,3)
proof (induction k arbitrary: j)
  case 0
  have "\<exists>s. zeta_sum E kZipfianConst [1..<2 ^ 0] 0 = Fin s \<and> 0 \<le> s \<and> s \<le> zeta_cap 0 0"
    by (simp add: zeta_sum_def zeta_cap_def double_ops)
  from zeta_sum_in_octave [OF assms(1) 0 this] show ?case .
next
  case (Suc k)
  have "zeta_cap k (2 ^ k) = zeta_cap (Suc k) 0" by (simp add: zeta_cap_def)
  moreover have e: "2 ^ k + 2 ^ k = (2 :: nat) ^ Suc k" by simp
  ultimately have "\<exists>s. zeta_sum E kZipfianConst [1..<2 ^ Suc k] 0 = Fin s \<and> 0 \<le> s \<and> s \<le> zeta_cap (Suc k) 0"
    using Suc.IH [of "2 ^ k"] Suc.prems(1) unfolding e by simp
  from zeta_sum_in_octave [OF assms(1) Suc.prems this] show ?case .
qed

lemma zeta_sum_le_64:
  assumes "pow_close E" "n < 2147483647"
  shows "\<exists>s. zeta_sum E kZipfianConst [1..<Suc n] 0 = Fin s \<and> 0 \<le> s \<and> s \<le> 64"
proof -
  define k where "k = bit_len (Suc n) - 1"
  have k: "2 ^ k \<le> Suc n" "Suc n < 2 ^ Suc k"
    using bit_len_lower [of "Suc n"] bit_len_upper [of "Suc n"] bit_len_pos [of "Suc n"] by (simp_all add: k_def)
  then have "(2 :: nat) ^ k < 2 ^ 31" using assms(2) by simp
  then have "k \<le> 30" by (simp only: power_strict_increasing_iff)
  moreover define j where "j = Suc n - 2 ^ k"
  ultimately have j: "2 ^ k + j = Suc n" "j \<le> 2 ^ k" "k \<le> 30" using k by simp_all
  from zeta_sum_below_cap [OF assms(1) j(3,2)] zeta_cap_le [OF j(3,2)] show ?thesis
    unfolding j(1) by (auto intro: order_trans)
qed

section \<open>The quotient of the constants\<close>

text \<open>The first terms, to one percent.\<close>

lemma zeta_first_terms:
  assumes "pow_close E"
  obtains s2 s3 s4 where
    "zeta_sum E kZipfianConst [1..<3] 0 = Fin s2" "0 \<le> s2" "s2 \<le> 98 / 64"
    "zeta_sum E kZipfianConst [1..<4] 0 = Fin s3" "115 / 64 \<le> s3"
    "zeta_sum E kZipfianConst [1..<5] 0 = Fin s4" "130 / 64 \<le> s4"
proof -
  have two: "2 * (100 / 101) \<le> 2 powr real_of_rat theta"
  proof -
    have "(2 :: real) powr real_of_rat theta = 2 / 2 powr real_of_rat delta"
      by (simp add: theta_delta(3) powr_diff)
    moreover have "0 < 2 powr real_of_rat delta" by simp
    ultimately show ?thesis using two_powr_delta(2) by (simp add: le_divide_eq)
  qed
  have l: "1 \<le> real 1 powr real_of_rat theta" "2 * (100 / 101) \<le> real 2 powr real_of_rat theta"
    using two by simp_all
  obtain t1 where t1: "zeta_term E 1 = Fin t1" "63 / 64 \<le> t1" "t1 \<le> 65 / 64"
    by (rule zeta_term_between [OF assms _ _ l(1), of "63 / 64" "65 / 64"]) (simp_all add: dbl_eval of_rat_divide)
  obtain t2 where t2: "zeta_term E 2 = Fin t2" "31 / 64 \<le> t2" "t2 \<le> 33 / 64"
    by (rule zeta_term_between [OF assms _ _ l(2), of "31 / 64" "33 / 64"]) (simp_all add: dbl_eval of_rat_divide)
  obtain t3 where t3: "zeta_term E 3 = Fin t3" "21 / 64 \<le> t3" "t3 \<le> 4"
    by (rule zeta_term_between [OF assms _ _ powr_theta_half, of 3 "21 / 64" 4]) (simp_all add: dbl_eval)
  obtain t4 where t4: "zeta_term E 4 = Fin t4" "15 / 64 \<le> t4" "t4 \<le> 4"
    by (rule zeta_term_between [OF assms _ _ powr_theta_half, of 4 "15 / 64" 4]) (simp_all add: dbl_eval)
  have s0: "zeta_sum E kZipfianConst [1..<1] 0 = Fin 0" by (simp add: zeta_sum_def double_ops)
  obtain s1 where s1: "zeta_sum E kZipfianConst [1..<2] 0 = Fin s1" "63 / 64 \<le> s1" "s1 \<le> 65 / 64"
    by (rule zeta_sum_next [OF s0 _ _ t1, where i' = 2 and lo = 0 and hi = 0 and l = "63 / 64" and h = "65 / 64"]) (simp_all add: dbl_eval)
  obtain s2 where s2: "zeta_sum E kZipfianConst [1..<3] 0 = Fin s2" "94 / 64 \<le> s2" "s2 \<le> 98 / 64"
    by (rule zeta_sum_next [OF s1 t2, where i' = 3 and l = "94 / 64" and h = "98 / 64"]) (simp_all add: dbl_eval)
  obtain s3 where s3: "zeta_sum E kZipfianConst [1..<4] 0 = Fin s3" "115 / 64 \<le> s3" "s3 \<le> 354 / 64"
    by (rule zeta_sum_next [OF s2 t3, where i' = 4 and l = "115 / 64" and h = "354 / 64"]) (simp_all add: dbl_eval)
  obtain s4 where "zeta_sum E kZipfianConst [1..<5] 0 = Fin s4" "130 / 64 \<le> s4" "s4 \<le> 610 / 64"
    by (rule zeta_sum_next [OF s3 t4, where i' = 5 and l = "130 / 64" and h = "610 / 64"]) (simp_all add: dbl_eval)
  then show ?thesis using s2 s3 by (intro that) simp_all
qed

lemma zeta_sum_from_4:
  assumes "pow_close E" "4 \<le> n" "n < 2147483647"
  shows "\<exists>s. zeta_sum E kZipfianConst [1..<Suc n] 0 = Fin s \<and> 130 / 64 \<le> s"
  using assms(2,3)
proof (induction n rule: dec_induct)
  case base
  obtain s where "zeta_sum E kZipfianConst [1..<5] 0 = Fin s" "130 / 64 \<le> s"
    by (rule zeta_first_terms [OF assms(1)])
  moreover have "Suc 4 = (5 :: nat)" by simp
  ultimately show ?case by metis
next
  case (step n)
  then obtain s where s: "zeta_sum E kZipfianConst [1..<Suc n] 0 = Fin s" "130 / 64 \<le> s" by auto
  then have s64: "s \<le> 64" using zeta_sum_le_64 [OF assms(1), of n] step.prems by auto
  have i: "1 \<le> Suc n" "Suc n \<le> 2 ^ 31" using step.prems by simp_all
  then have l: "1 / 2 \<le> real (Suc n) powr real_of_rat theta" by (intro powr_theta_half)
  obtain t where t: "zeta_term E (Suc n) = Fin t" "0 \<le> t" "t \<le> 4"
    by (rule zeta_term_between [OF assms(1) i l, of 0 4]) (simp_all add: dbl_eval)
  have r: "rnd (130 / 64) = 130 / 64" "rnd 68 = 68" by (simp_all add: dbl_eval)
  have "130 / 64 \<le> s + t" "s + t \<le> 68" using s(2) s64 t(2,3) by linarith+
  from zeta_sum_step [OF s(1) t(1) i(1) this r] show ?case by (auto simp del: upt_Suc)
qed

text \<open>The power that the quotient is compared with.\<close>

lemma pow_of_quotient:
  assumes "pow_close E" "pow_unit E" "2 \<le> n" "n \<le> 2 ^ 31"
  obtains p where "pw E (Fin 2 / of_u64 (of_nat n)) (1 - kZipfianConst) = Fin p" "p \<le> 1" "79 / 100 \<le> p"
    "n \<le> 4 \<Longrightarrow> 98 / 100 \<le> p"
proof -
  define x where "x = rnd (2 / of_nat n)"
  have n: "2 \<le> (of_nat n :: rat)" "(of_nat n :: rat) \<le> 2 ^ 31"
    using assms(3,4) by (metis of_nat_le_iff of_nat_numeral, metis of_nat_le_iff of_nat_numeral of_nat_power)
  have q: "Fin 2 / of_u64 (of_nat n) = Fin x"
    using quotient_Fin [of 2 "of_nat n"] n assms(4) by (simp add: x_def of_u64_nat)
  have e: "rnd (1 / 2 ^ 30) = 1 / 2 ^ 30" "rnd (1 / 2) = 1 / 2" by (simp_all add: dbl_eval)
  have "1 / 2 ^ 30 \<le> 2 / (of_nat n :: rat)" "2 / (of_nat n :: rat) \<le> 1" using n by (simp_all add: field_simps)
  from this [THEN rnd_mono] have x: "1 / 2 ^ 30 \<le> x" "x \<le> 1" unfolding x_def [symmetric] e rnd_1 .
  have x4: "1 / 2 \<le> x" if "n \<le> 4"
  proof -
    have "(of_nat n :: rat) \<le> 4" using that by (metis of_nat_le_iff of_nat_numeral)
    then have "1 / 2 \<le> 2 / (of_nat n :: rat)" using n(1) by (simp add: field_simps)
    from rnd_mono [OF this] show ?thesis unfolding x_def e .
  qed
  define X where "X = real_of_rat x"
  have X: "1 / 2 ^ 30 \<le> X" "n \<le> 4 \<Longrightarrow> 1 / 2 \<le> X" "X \<le> 1"
  proof -
    have "real_of_rat (1 / 2 ^ 30) \<le> X" "n \<le> 4 \<Longrightarrow> real_of_rat (1 / 2) \<le> X" "X \<le> real_of_rat 1"
      using x x4 by (simp_all only: X_def of_rat_less_eq)
    then show "1 / 2 ^ 30 \<le> X" "n \<le> 4 \<Longrightarrow> 1 / 2 \<le> X" "X \<le> 1" by (simp_all add: of_rat_divide)
  qed
  have d: "0 \<le> real_of_rat delta" by (simp add: delta_def of_rat_divide)
  have inv: "X powr real_of_rat delta = 1 / (1 / X) powr real_of_rat delta"
    using X(1) by (simp add: powr_divide)
  have "(1 / X) powr real_of_rat delta \<le> 5 / 4" using X by (intro powr_delta) (simp_all add: field_simps)
  then have lo: "4 / 5 \<le> X powr real_of_rat delta" unfolding inv using X(1) by (simp add: field_simps)
  have lo4: "100 / 101 \<le> X powr real_of_rat delta" if "n \<le> 4"
  proof -
    have "(1 / X) powr real_of_rat delta \<le> 2 powr real_of_rat delta"
      using X(1) X(2) [OF that] d by (intro powr_mono2) (simp_all add: field_simps)
    then have "(1 / X) powr real_of_rat delta \<le> 101 / 100" using two_powr_delta(2) by simp
    then show ?thesis unfolding inv using X(1) by (simp add: field_simps)
  qed
  obtain r where r: "pw E (Fin x) (Fin delta) = Fin r" "99 / 100 * (X powr real_of_rat delta) \<le> real_of_rat r"
    unfolding X_def by (rule pow_closeE [OF assms(1), of x delta]) (use x theta_delta(4,5) in simp_all)
  have "0 \<le> x" using x(1) by (rule order_trans [rotated]) simp
  then obtain p where "pw E (Fin x) (Fin delta) = Fin p" "p \<le> 1"
    using assms(2) x(2) theta_delta(4) unfolding pow_unit_def by blast
  then have "r \<le> 1" using r(1) by simp
  moreover have "79 / 100 \<le> real_of_rat r" "n \<le> 4 \<Longrightarrow> 98 / 100 \<le> real_of_rat r" using r(2) lo lo4 by linarith+
  then have "real_of_rat (79 / 100) \<le> real_of_rat r" "n \<le> 4 \<Longrightarrow> real_of_rat (98 / 100) \<le> real_of_rat r"
    by (simp_all add: of_rat_divide)
  then have "79 / 100 \<le> r" "n \<le> 4 \<Longrightarrow> 98 / 100 \<le> r" unfolding of_rat_less_eq .
  ultimately show ?thesis using that r(1) by (simp add: q theta_delta(2))
qed

lemma quotient_below:
  assumes "0 \<le> a" "0 < b" "a \<le> c * b" "rnd c = c" "c \<le> 1"
  obtains q where "Fin a / Fin b = Fin q" "0 \<le> q" "q \<le> c"
proof -
  have q: "0 \<le> a / b" "a / b \<le> c" using assms(1-3) by (simp_all add: divide_le_eq)
  then have "\<bar>a / b\<bar> \<le> 2 ^ 100" using assms(5) by simp
  then have "Fin a / Fin b = Fin (rnd (a / b))"
    using assms(2) by (simp add: double_ops to_dbl_Fin del: abs_divide)
  then show ?thesis using that rnd_nonneg [OF q(1)] rnd_mono [OF q(2)] assms(4) by simp
qed

lemma pow_close_ratio:
  assumes "pow_close E" "pow_unit E" "3 \<le> n" "n < 2147483647"
  shows "zeta_ratio_ok E n"
proof -
  obtain s2 s3 where s: "zeta_sum E kZipfianConst [1..<3] 0 = Fin s2" "0 \<le> s2" "s2 \<le> 98 / 64"
    "zeta_sum E kZipfianConst [1..<4] 0 = Fin s3" "115 / 64 \<le> s3"
    by (rule zeta_first_terms [OF assms(1)])
  have "2 \<le> n" "n \<le> 2 ^ 31" using assms(3,4) by simp_all
  from pow_of_quotient [OF assms(1,2) this] obtain p where
    p: "pw E (Fin 2 / of_u64 (of_nat n)) (1 - kZipfianConst) = Fin p" "p \<le> 1" "79 / 100 \<le> p"
      "n \<le> 4 \<Longrightarrow> 98 / 100 \<le> p" by blast
  show ?thesis
  proof (cases "n = 3")
    case True
    obtain q where "Fin s2 / Fin s3 = Fin q" "0 \<le> q" "q \<le> 7 / 8"
      by (rule quotient_below [of s2 s3 "7 / 8"]) (use s in \<open>simp_all add: dbl_eval\<close>)
    then show ?thesis using p s(1,4) True by (simp add: zeta_ratio_ok_def del: upt_Suc)
  next
    case False
    then obtain sn where sn: "zeta_sum E kZipfianConst [1..<Suc n] 0 = Fin sn" "130 / 64 \<le> sn"
      using zeta_sum_from_4 [OF assms(1) _ assms(4)] assms(3) by auto
    obtain q where "Fin s2 / Fin sn = Fin q" "0 \<le> q" "q \<le> 49 / 64"
      by (rule quotient_below [of s2 sn "49 / 64"]) (use s sn in \<open>simp_all add: dbl_eval\<close>)
    then show ?thesis using p s(1) sn(1) by (simp add: zeta_ratio_ok_def del: upt_Suc)
  qed
qed

text \<open>
  C28: the zeta constant of the program's Zipf distributions is a finite double of at most 64
  for any number of items below \<open>2 ^ 31 - 1\<close>, whatever the rounding errors of its up to
  two thousand million additions, if \<open>std::pow\<close> is accurate to one percent.
\<close>

theorem Zeta_bounded:
  assumes "pow_close E" "n < 2147483647"
  shows "\<exists>s. Zeta E (of_nat n) kZipfianConst = Inr (Fin s) \<and> 0 \<le> s \<and> s \<le> 64"
proof -
  have u: "unat (of_nat n :: u64) = n" using assms(2) by (simp add: unat_of_nat)
  moreover have "unat (-1 :: u64) = 18446744073709551615" by code_simp
  ultimately have "(of_nat n :: u64) \<noteq> -1" using assms(2) by force
  from Zeta_sum [OF this, of E kZipfianConst] zeta_sum_le_64 [OF assms] show ?thesis by (auto simp: u simp del: upt_Suc)
qed

section \<open>A power that is accurate\<close>

text \<open>
  The real power, cut to a multiple of \<open>2 ^ - 60\<close> and rounded to a double, has both
  properties that are asked of \<open>std::pow\<close>.
\<close>

lemma rnd_error:
  assumes "2 powi - 32 \<le> x"
  shows "\<bar>rnd x - x\<bar> \<le> x / 2 ^ 52"
proof -
  have x: "0 < x" using assms by (meson less_le_trans zero_less_numeral zero_less_power_int)
  define S :: rat where "S = 2 powi step_exp x"
  have "-32 \<le> ilog2 x" using ilog2_mono [of "2 powi - 32" x] assms ilog2_eqI [of "-32" "2 powi - 32"]
    by (simp add: powi_less_iff)
  then have e: "step_exp x = ilog2 x - 52" using x by (simp add: step_exp_def)
  have "S = 2 powi ilog2 x / 2 ^ 52" by (simp add: S_def e power_int_diff)
  then have S: "0 < S" "S \<le> x / 2 ^ 52"
    using ilog2_bounds(1) [OF x] by (simp_all add: divide_right_mono S_def)
  have "of_int \<lfloor>x / S\<rfloor> \<le> x / S" "x / S < of_int (\<lfloor>x / S\<rfloor> + 1)" using floor_correct [of "x / S"] by simp_all
  moreover have "(of_int \<lfloor>x / S\<rfloor> :: rat) \<le> of_int (rne (x / S))" "of_int (rne (x / S)) \<le> (of_int (\<lfloor>x / S\<rfloor> + 1) :: rat)"
    using rne_floor [of "x / S"] by (simp_all only: of_int_le_iff)
  ultimately have "\<bar>of_int (rne (x / S)) - x / S\<bar> \<le> 1" unfolding abs_le_iff by (intro conjI; linarith)
  then have "\<bar>of_int (rne (x / S)) - x / S\<bar> * S \<le> 1 * S" using S(1) by (intro mult_right_mono) simp_all
  moreover have "\<bar>rnd x - x\<bar> = \<bar>of_int (rne (x / S)) - x / S\<bar> * S"
  proof -
    have "rnd x - x = (of_int (rne (x / S)) - x / S) * S"
      using x S(1) by (simp add: rnd_def left_diff_distrib flip: S_def)
    then show ?thesis using S(1) by (simp only: abs_mult abs_of_pos)
  qed
  ultimately show ?thesis using S(2) by simp
qed

definition real_pow :: "double \<Rightarrow> double \<Rightarrow> double" where
  "real_pow a b =
     (case (a, b) of
        (Fin x, Fin y) \<Rightarrow> Fin (rnd (of_int \<lfloor>(real_of_rat x powr real_of_rat y) * 2 ^ 60\<rfloor> / 2 ^ 60))
      | _ \<Rightarrow> NaN)"

lemma real_pow_unit: "pow_unit (E\<lparr>pw := real_pow\<rparr>)"
  unfolding pow_unit_def
proof (intro allI impI)
  fix x a :: rat assume a: "0 \<le> x \<and> x \<le> 1 \<and> 0 < a"
  define v where "v = real_of_rat x powr real_of_rat a"
  have v: "0 \<le> v" "v \<le> 1" using a by (simp_all add: v_def powr_le1)
  then have "0 \<le> \<lfloor>v * 2 ^ 60\<rfloor>" "\<lfloor>v * 2 ^ 60\<rfloor> \<le> 2 ^ 60" by (simp_all add: floor_le_iff)
  then have "0 \<le> (of_int \<lfloor>v * 2 ^ 60\<rfloor> :: rat)" "of_int \<lfloor>v * 2 ^ 60\<rfloor> \<le> (of_int (2 ^ 60) :: rat)"
    by (simp, simp only: of_int_le_iff)
  then have "0 \<le> of_int \<lfloor>v * 2 ^ 60\<rfloor> / (2 ^ 60 :: rat)" "of_int \<lfloor>v * 2 ^ 60\<rfloor> / 2 ^ 60 \<le> (1 :: rat)"
    by (simp_all add: divide_le_eq)
  then show "\<exists>p. pw (E\<lparr>pw := real_pow\<rparr>) (Fin x) (Fin a) = Fin p \<and> 0 \<le> p \<and> p \<le> 1"
    by (simp add: real_pow_def rnd_nonneg rnd_le_1 flip: v_def)
qed

lemma real_pow_close: "pow_close (E\<lparr>pw := real_pow\<rparr>)"
  unfolding pow_close_def
proof (intro allI impI)
  fix x y :: rat assume a: "1 / 2 ^ 31 \<le> x \<and> x \<le> 2 ^ 31 \<and> 0 \<le> y \<and> y \<le> 1"
  define v where "v = real_of_rat x powr real_of_rat y"
  define u :: rat where "u = of_int \<lfloor>v * 2 ^ 60\<rfloor> / 2 ^ 60"
  have "real_of_rat (1 / 2 ^ 31) \<le> real_of_rat x" "0 \<le> real_of_rat y" "real_of_rat y \<le> real_of_rat 1"
    using a by (simp_all only: of_rat_less_eq zero_le_of_rat_iff)
  then have xy: "1 / 2 ^ 31 \<le> real_of_rat x" "0 \<le> real_of_rat y" "real_of_rat y \<le> 1"
    by (simp_all add: of_rat_divide)
  have v: "1 / 2 ^ 31 \<le> v"
  proof (cases "1 \<le> real_of_rat x")
    case True
    then have "1 \<le> v" using xy(2) by (simp add: v_def ge_one_powr_ge_zero)
    then show ?thesis by simp
  next
    case False
    moreover have x0: "0 \<le> x" using a by (meson order_trans zero_le_divide_1_iff zero_le_numeral zero_le_power)
    ultimately have "real_of_rat x powr 1 \<le> v" using xy unfolding v_def by (intro powr_mono') simp_all
    then show ?thesis using xy(1) x0 by simp
  qed
  have r: "real_of_rat u = of_int \<lfloor>v * 2 ^ 60\<rfloor> / 2 ^ 60" by (simp add: u_def of_rat_divide)
  also have "\<dots> \<le> v * 2 ^ 60 / 2 ^ 60" by (intro divide_right_mono of_int_floor_le) simp
  also have "\<dots> = v" by simp
  finally have u2: "real_of_rat u \<le> v" .
  have u1: "v - 1 / 2 ^ 60 \<le> real_of_rat u"
    using real_of_int_floor_add_one_ge [of "v * 2 ^ 60"] r by (simp add: field_simps)
  have "(1 :: real) / 2 ^ 32 \<le> 1 / 2 ^ 31 - 1 / 2 ^ 60" by simp
  with u1 v have "1 / 2 ^ 32 \<le> real_of_rat u" by linarith
  then have "real_of_rat (1 / 2 ^ 32) \<le> real_of_rat u" by (simp only: of_rat_divide of_rat_power of_rat_numeral_eq of_rat_1)
  then have "1 / 2 ^ 32 \<le> u" by (simp only: of_rat_less_eq)
  moreover have "(2 :: rat) powi - 32 = 1 / 2 ^ 32"
    by (simp only: power_int_minus power_int_numeral inverse_eq_divide)
  ultimately have "2 powi - 32 \<le> u" by (simp only:)
  then have "\<bar>rnd u - u\<bar> \<le> u / 2 ^ 52" by (rule rnd_error)
  then have "real_of_rat (rnd u - u) \<le> real_of_rat (u / 2 ^ 52)" "real_of_rat (- (rnd u - u)) \<le> real_of_rat (u / 2 ^ 52)"
    by (simp_all only: of_rat_less_eq abs_le_iff)
  then have "real_of_rat (rnd u) - real_of_rat u \<le> real_of_rat u / 2 ^ 52"
      "- (real_of_rat (rnd u) - real_of_rat u) \<le> real_of_rat u / 2 ^ 52"
    by (simp_all only: of_rat_diff of_rat_minus of_rat_divide of_rat_power of_rat_numeral_eq)
  then have "\<bar>real_of_rat (rnd u) - v\<bar> \<le> v / 100" using u1 u2 v by (intro abs_leI; simp; linarith)
  then show "case pw (E\<lparr>pw := real_pow\<rparr>) (Fin x) (Fin y) of
      Fin r \<Rightarrow> \<bar>real_of_rat r - real_of_rat x powr real_of_rat y\<bar> \<le> real_of_rat x powr real_of_rat y / 100
    | _ \<Rightarrow> False"
    by (simp add: real_pow_def u_def flip: v_def)
qed

theorem Zeta_bounded_witness:
  "\<exists>s. Zeta ((sample_env 0)\<lparr>pw := real_pow\<rparr>) 115343360 kZipfianConst = Inr (Fin s) \<and> 0 \<le> s \<and> s \<le> 64"
  using Zeta_bounded [OF real_pow_close, of 115343360 "sample_env 0"] by simp

end
