(* ===== verification/Engines.thy ===== *)
theory Engines
  imports Pow_Bounds
begin

text \<open>
  The draws of \<open>RandomDouble\<close> with the engine of the GNU C++ library.  There
  \<open>std::default_random_engine\<close> is \<open>std::minstd_rand0\<close>, a multiplicative congruential
  engine that starts from seed 1, and \<open>std::uniform_real_distribution<double>\<close> calls
  \<open>std::generate_canonical\<close>, which takes two outputs of the engine for the 53 bits of a
  double.  The sequence that the other theories leave arbitrary then satisfies what they
  ask of it: every draw lies in the unit interval, and every draw comes again.
\<close>

section \<open>The engine\<close>

abbreviation minstd_m :: nat where "minstd_m \<equiv> 2147483647"

definition minstd :: "nat \<Rightarrow> nat" where
  "minstd x = 16807 * x mod minstd_m"

text \<open>
  \<open>generate_canonical\<close>: two rounds of its loop, with the outputs \<open>a\<close> and \<open>b\<close> of the engine,
  whose range has \<open>2147483646\<close> values from 1 on.
\<close>

definition canonical :: "nat \<Rightarrow> nat \<Rightarrow> double" where
  "canonical a b =
     (let sum = 0 + of_cint (int a - 1) * 1; tmp = 1 * Fin 2147483646;
          sum = sum + of_cint (int b - 1) * tmp; tmp = tmp * Fin 2147483646;
          ret = sum / tmp
      in if 1 \<le> ret then Fin (1 - 1 / 2 ^ 53) else ret)"

text \<open>One call of the static \<open>uniform\<close> with parameters 0 and 1 on the static \<open>generator\<close>.\<close>

definition uniform_draw :: "nat \<Rightarrow> double \<times> nat" where
  "uniform_draw x =
     (let a = minstd x; b = minstd a in (canonical a b * (1 - 0) + 0, b))"

fun engine_after :: "nat \<Rightarrow> nat" where
  "engine_after 0 = 1"
| "engine_after (Suc n) = snd (uniform_draw (engine_after n))"

definition engine_draw :: "nat \<Rightarrow> double" where
  "engine_draw n = fst (uniform_draw (engine_after n))"

section \<open>The states of the engine\<close>

lemma engine_after_power: "engine_after n = 16807 ^ (2 * n) mod minstd_m"
proof (induction n)
  case (Suc n)
  have "engine_after (Suc n) = 16807 * (16807 * 16807 ^ (2 * n)) mod minstd_m"
    by (simp only: engine_after.simps uniform_draw_def minstd_def Suc Let_def snd_conv mod_mult_right_eq)
  also have "\<dots> = 16807 ^ (2 * Suc n) mod minstd_m"
    by simp
  finally show ?case .
qed simp

text \<open>Powers modulo the period, by squaring.\<close>

fun pow_mod :: "nat \<Rightarrow> nat \<Rightarrow> num \<Rightarrow> nat" where
  "pow_mod a m num.One = a mod m"
| "pow_mod a m (num.Bit0 k) = (let p = pow_mod a m k in p * p mod m)"
| "pow_mod a m (num.Bit1 k) = (let p = pow_mod a m k in a * (p * p mod m) mod m)"

lemma pow_mod: "a ^ numeral k mod m = pow_mod a m k"
proof (induction k)
  case (Bit0 k)
  then show ?case by (simp add: numeral_Bit0 power_add mod_mult_eq Let_def flip: Bit0)
next
  case (Bit1 k)
  have "a ^ numeral (num.Bit1 k) mod m = a * (a ^ numeral k * a ^ numeral k mod m) mod m"
    by (simp only: numeral_Bit1 power_add power_one_right mod_mult_right_eq) (simp add: mult.commute)
  then show ?case by (simp only: pow_mod.simps Let_def mod_mult_eq flip: Bit1)
qed simp

lemma minstd_period: "16807 ^ 2147483646 mod minstd_m = 1"
  by (simp only: pow_mod) (simp add: Let_def)

lemma engine_after_period: "engine_after (n + k * 1073741823) = engine_after n"
proof -
  have "16807 ^ (k * 2147483646) mod minstd_m = 1 ^ k mod minstd_m"
    by (subst minstd_period [symmetric]) (simp only: power_mod power_mult mult.commute [of k])
  then have p: "16807 ^ (k * 2147483646) mod minstd_m = 1" by simp
  have "2 * (n + k * 1073741823) = 2 * n + k * 2147483646" by simp
  then have "engine_after (n + k * 1073741823) =
      (16807 ^ (2 * n) mod minstd_m) * (16807 ^ (k * 2147483646) mod minstd_m) mod minstd_m"
    unfolding engine_after_power by (simp only: power_add mod_mult_eq)
  then show ?thesis by (simp only: p engine_after_power) simp
qed

lemma engine_draws_again: "\<exists>j \<ge> i. engine_draw j = engine_draw n"
proof (intro exI conjI)
  show "i \<le> n + i * 1073741823" by simp
  show "engine_draw (n + i * 1073741823) = engine_draw n" by (simp add: engine_draw_def engine_after_period)
qed

section \<open>The draws\<close>

lemma minstd_range: "minstd x \<le> 2147483646"
  using mod_less_divisor [of minstd_m "16807 * x"] by (simp add: minstd_def)

lemma engine_after_pos: "0 < engine_after n"
proof (rule ccontr)
  assume "\<not> 0 < engine_after n"
  then have "(16807 ^ (2 * n)) * 16807 ^ (2 * n * 1073741822) mod minstd_m = 0"
    unfolding engine_after_power by (metis mod_mult_left_eq mod_0 mult_0 not_gr_zero)
  moreover have "(16807 ^ (2 * n)) * 16807 ^ (2 * n * 1073741822) mod minstd_m = engine_after (0 + n * 1073741823)"
    unfolding engine_after_power by (simp flip: power_add)
  ultimately show False unfolding engine_after_period by simp
qed

lemma rnd_le_pow2: "x \<le> 2 ^ k \<Longrightarrow> rnd x \<le> 2 ^ k"
  using rnd_mono [of x "2 ^ k"] rnd_multiple [of 1 "int k"] by simp

lemma canonical_unit:
  assumes "1 \<le> a" "a \<le> 2147483646" "1 \<le> b" "b \<le> 2147483646"
  shows "unit_draw (canonical a b)"
proof -
  define x y :: rat where "x = of_int (int a - 1)" and "y = of_int (int b - 1)"
  have xy: "0 \<le> x" "x \<le> 2 ^ 31" "0 \<le> y" "y \<le> 2 ^ 31" "of_cint (int a - 1) = Fin x" "of_cint (int b - 1) = Fin y"
    "rnd x = x" "rnd y = y"
  proof -
    have i: "0 \<le> int a - 1" "int a - 1 \<le> 2 ^ 31" "0 \<le> int b - 1" "int b - 1 \<le> 2 ^ 31" using assms by simp_all
    then show "of_cint (int a - 1) = Fin x" "of_cint (int b - 1) = Fin y" "rnd x = x" "rnd y = y"
      unfolding of_cint_def x_def y_def by (intro to_dbl_int rnd_of_int; simp)+
    show "0 \<le> x" "0 \<le> y" using i unfolding x_def y_def of_int_0_le_iff by simp_all
    have "x \<le> of_int (2 ^ 31)" "y \<le> of_int (2 ^ 31)" using i unfolding x_def y_def of_int_le_iff by simp_all
    then show "x \<le> 2 ^ 31" "y \<le> 2 ^ 31" by simp_all
  qed
  define t where "t = rnd (y * 2147483646)"
  define s where "s = rnd (x + t)"
  have "0 \<le> y * 2147483646" "y * 2147483646 \<le> 2 ^ 62" using xy(3,4) by simp_all
  then have t: "0 \<le> t" "t \<le> 2 ^ 62" "Fin y * Fin 2147483646 = Fin t"
    using rnd_le_pow2 [of _ 62] by (simp_all add: t_def rnd_nonneg double_ops to_dbl_Fin)
  then have "0 \<le> x + t" "x + t \<le> 2 ^ 63" using xy(1,2) by simp_all
  then have s: "0 \<le> s" "s \<le> 2 ^ 63" "Fin x + Fin t = Fin s"
    using rnd_le_pow2 [of _ 63] by (simp_all add: s_def rnd_nonneg double_ops to_dbl_Fin)
  let ?r = "rnd (s / 4611686009837453312)"
  have q: "0 \<le> s / 4611686009837453312" "s / 4611686009837453312 \<le> 2 ^ 100" using s(1,2) by simp_all
  then have d: "Fin s / Fin 4611686009837453312 = Fin ?r" by (simp add: double_ops to_dbl_Fin)
  have one: "0 + Fin x * 1 = Fin x" using xy(1,2,7) by (simp add: double_ops to_dbl_Fin)
  have m: "1 * Fin 2147483646 = Fin 2147483646" "Fin 2147483646 * Fin 2147483646 = Fin 4611686009837453312"
    by (simp_all add: double_ops dbl_eval)
  have c: "canonical a b = (if 1 \<le> ?r then Fin (1 - 1 / 2 ^ 53) else Fin ?r)"
    by (simp add: canonical_def xy(5,6) one m t(3) s(3) d Let_def) (simp add: double_ops)
  have "rnd (1 - 1 / 2 ^ 53) = 1 - 1 / 2 ^ 53" by (simp add: dbl_eval)
  then show ?thesis unfolding c using rnd_nonneg [OF q(1)] by (simp add: unit_draw_def)
qed

lemma engine_draw_canonical:
  "engine_draw n = canonical (minstd (engine_after n)) (engine_after (Suc n)) * (1 - 0) + 0"
  by (simp add: engine_draw_def uniform_draw_def Let_def)

lemma unit_draw_scaled: "unit_draw d \<Longrightarrow> d * (1 - 0) + 0 = d"
  by (cases d) (auto simp: unit_draw_def double_ops to_dbl_Fin order_trans [of _ 1])

lemma engine_draw_unit: "unit_draw (engine_draw n)" "engine_draw n = canonical (minstd (engine_after n)) (engine_after (Suc n))"
proof -
  have b: "engine_after (Suc n) = minstd (minstd (engine_after n))" by (simp add: uniform_draw_def Let_def)
  have "0 < minstd (engine_after n)"
    using engine_after_pos [of "Suc n"] unfolding b by (cases "minstd (engine_after n)") (simp_all add: minstd_def)
  then have "unit_draw (canonical (minstd (engine_after n)) (engine_after (Suc n)))"
    using engine_after_pos [of "Suc n"] minstd_range unfolding b by (intro canonical_unit) simp_all
  then show "unit_draw (engine_draw n)" "engine_draw n = canonical (minstd (engine_after n)) (engine_after (Suc n))"
    by (simp_all only: engine_draw_canonical unit_draw_scaled)
qed

text \<open>An early draw is below 1/64, so the hottest rank recurs under every zeta constant up to 64.\<close>

lemma engine_after_8: "engine_after 8 = 1137522503" "minstd 1137522503 = 1441282327" "minstd 1441282327 = 16531729"
  unfolding engine_after_power by (simp_all add: minstd_def)

lemma small_draw: "engine_draw 8 = Fin x \<Longrightarrow> x \<le> 1 / 128"
proof -
  have "engine_draw 8 = canonical 1441282327 16531729"
    unfolding engine_draw_unit(2) engine_after.simps uniform_draw_def by (simp add: engine_after_8 Let_def)
  then show "engine_draw 8 = Fin x \<Longrightarrow> x \<le> 1 / 128"
    by (auto simp: canonical_def double_ops dbl_eval of_cint_def Let_def)
qed

lemma engine_ok:
  assumes "canon E = engine_draw"
  shows "draws_ok E"
  using engine_draw_unit(1) by (simp add: draws_ok_def assms)

lemma engine_head_recurs:
  assumes "canon E = engine_draw" "pow_close E" "n < 2147483647"
  shows "head_draws_recur E n"
  unfolding head_draws_recur_def
proof
  fix i
  obtain j where j: "i \<le> j" "engine_draw j = engine_draw 8" using engine_draws_again by blast
  obtain s where s: "zeta_sum E kZipfianConst [1..<Suc n] 0 = Fin s" "0 \<le> s" "s \<le> 64"
    using zeta_sum_le_64 [OF assms(2,3)] by blast
  obtain x where x: "engine_draw 8 = Fin x" "0 \<le> x"
    using engine_draw_unit(1) [of 8] by (auto simp: unit_draw_def split: double.splits)
  have "x * s \<le> 1 / 128 * 64" using small_draw [OF x(1)] x(2) s(2,3) by (intro mult_mono) simp_all
  then have xs: "x * s \<le> 1 / 2" "0 \<le> x * s" using x(2) s(2) by simp_all
  have "rnd (x * s) \<le> 1 / 2" using rnd_mono [OF xs(1)] by (simp add: dbl_eval)
  then have "Fin x * Fin s < 1" using xs by (simp add: double_ops to_dbl_Fin)
  then show "\<exists>j \<ge> i. canon E j * zeta_sum E kZipfianConst [1..<Suc n] 0 < 1"
    using j s(1) x(1) by (intro exI [of _ j]) (simp add: assms(1) del: upt_Suc)
qed

end
