(* ===== verification/Draw_Steps.thy ===== *)
theory Draw_Steps
  imports Engines
begin

text \<open>
  Threads that draw from the one static engine of \<open>utils::RandomDouble\<close>.  The generators
  protect their draws with a mutex, but each generator object has its own, while the
  engine is shared by all: the choice of an operation holds the mutex of a
  \<open>DiscreteGenerator\<close> and the choice of a key that of a \<open>ZipfianGenerator\<close>.  The reads and
  writes of the engine's state are therefore steps of their own here.
\<close>

section \<open>One draw\<close>

text \<open>
  \<open>generate_canonical\<close> calls the engine twice; each call reads the state and writes the next
  one.  \<open>Drawn\<close> is the draw before the mutex is released.
\<close>

datatype draw_pc =
    Locked
  | Loaded nat
  | Half nat
  | Half_Loaded nat nat
  | Drawn double

fun engine_access :: "draw_pc \<Rightarrow> nat \<Rightarrow> (draw_pc \<times> nat) option" where
  "engine_access Locked x = Some (Loaded x, x)"
| "engine_access (Loaded y) x = Some (Half (minstd y), minstd y)"
| "engine_access (Half a) x = Some (Half_Loaded a x, x)"
| "engine_access (Half_Loaded a y) x = Some (Drawn (canonical a (minstd y) * (1 - 0) + 0), minstd y)"
| "engine_access (Drawn d) x = None"

text \<open>What a thread that is alone still makes of the engine.\<close>

fun draw_rest :: "draw_pc \<Rightarrow> nat \<Rightarrow> double \<times> nat" where
  "draw_rest Locked x = uniform_draw x"
| "draw_rest (Loaded y) x = uniform_draw y"
| "draw_rest (Half a) x = (canonical a (minstd x) * (1 - 0) + 0, minstd x)"
| "draw_rest (Half_Loaded a y) x = (canonical a (minstd y) * (1 - 0) + 0, minstd y)"
| "draw_rest (Drawn d) x = (d, x)"

lemma engine_access_rest:
  "engine_access pc x = Some (pc', x') \<Longrightarrow> draw_rest pc' x' = draw_rest pc x"
  by (cases "(pc, x)" rule: engine_access.cases) (auto simp: uniform_draw_def Let_def)

fun accesses_left :: "draw_pc \<Rightarrow> nat" where
  "accesses_left Locked = 5"
| "accesses_left (Loaded y) = 4"
| "accesses_left (Half a) = 3"
| "accesses_left (Half_Loaded a y) = 2"
| "accesses_left (Drawn d) = 1"

lemma engine_access_left:
  "engine_access pc x = Some (pc', x') \<Longrightarrow> accesses_left pc' < accesses_left pc"
  by (cases "(pc, x)" rule: engine_access.cases) auto

section \<open>Threads\<close>

text \<open>
  A thread makes draws one after the other, each under the mutex of the generator that
  asks for it; the mutexes are numbered.
\<close>

datatype draw_thread =
    Idle "nat list"
  | Drawing nat draw_pc "nat list"

record draw_conf =
  dr_threads :: "draw_thread list"
  dr_mutexes :: "nat \<Rightarrow> nat option"
  dr_engine :: nat
  dr_log :: "(nat \<times> double) list"

inductive draw_step :: "draw_conf \<Rightarrow> draw_conf \<Rightarrow> bool" where
  draw_lock:
    "\<lbrakk>i < length (dr_threads c); dr_threads c ! i = Idle (m # ms); dr_mutexes c m = None\<rbrakk> \<Longrightarrow>
     draw_step c
       (c\<lparr>dr_threads := (dr_threads c)[i := Drawing m Locked ms], dr_mutexes := (dr_mutexes c)(m \<mapsto> i)\<rparr>)"
| draw_access:
    "\<lbrakk>i < length (dr_threads c); dr_threads c ! i = Drawing m pc ms;
      engine_access pc (dr_engine c) = Some (pc', x)\<rbrakk> \<Longrightarrow>
     draw_step c (c\<lparr>dr_threads := (dr_threads c)[i := Drawing m pc' ms], dr_engine := x\<rparr>)"
| draw_unlock:
    "\<lbrakk>i < length (dr_threads c); dr_threads c ! i = Drawing m (Drawn d) ms\<rbrakk> \<Longrightarrow>
     draw_step c
       (c\<lparr>dr_threads := (dr_threads c)[i := Idle ms], dr_mutexes := (dr_mutexes c)(m := None),
          dr_log := dr_log c @ [(i, d)]\<rparr>)"

inductive draw_run :: "draw_conf \<Rightarrow> nat \<Rightarrow> draw_conf \<Rightarrow> bool" for c where
  draws_none: "draw_run c 0 c"
| draws_more: "draw_run c n c' \<Longrightarrow> draw_step c' c'' \<Longrightarrow> draw_run c (Suc n) c''"

definition draw_start :: "nat list list \<Rightarrow> nat \<Rightarrow> draw_conf" where
  "draw_start progs k =
     \<lparr>dr_threads = map Idle progs, dr_mutexes = Map.empty, dr_engine = engine_after k, dr_log = []\<rparr>"

definition draw_done :: "draw_conf \<Rightarrow> bool" where
  "draw_done c \<longleftrightarrow> list_all (\<lambda>t. t = Idle []) (dr_threads c)"

definition drawn :: "draw_conf \<Rightarrow> double list" where
  "drawn c = map snd (dr_log c)"

section \<open>One mutex\<close>

fun uses :: "draw_thread \<Rightarrow> nat list" where
  "uses (Idle ms) = ms"
| "uses (Drawing m pc ms) = m # ms"

fun is_drawing :: "draw_thread \<Rightarrow> bool" where
  "is_drawing (Idle ms) \<longleftrightarrow> False"
| "is_drawing (Drawing m pc ms) \<longleftrightarrow> True"

text \<open>
  The draws that have returned are the next ones of the engine, each taken once; the
  thread that holds the mutex is on its way to the one after them.
\<close>

definition draw_holder :: "nat \<Rightarrow> nat \<Rightarrow> draw_conf \<Rightarrow> bool" where
  "draw_holder a k c \<longleftrightarrow>
     (case dr_mutexes c a of
        None \<Rightarrow> dr_engine c = engine_after (k + length (dr_log c))
      | Some j \<Rightarrow> j < length (dr_threads c) \<and>
          (\<exists>m pc ms. dr_threads c ! j = Drawing m pc ms \<and>
             draw_rest pc (dr_engine c) = uniform_draw (engine_after (k + length (dr_log c)))))"

definition draw_inv :: "nat \<Rightarrow> nat \<Rightarrow> draw_conf \<Rightarrow> bool" where
  "draw_inv a k c \<longleftrightarrow>
     (\<forall>i < length (dr_threads c). set (uses (dr_threads c ! i)) \<subseteq> {a}) \<and>
     (\<forall>i < length (dr_threads c). is_drawing (dr_threads c ! i) \<longrightarrow> dr_mutexes c a = Some i) \<and>
     drawn c = map engine_draw [k..<k + length (dr_log c)] \<and> draw_holder a k c"

declare engine_after.simps [simp del]

lemma draw_start_inv: "\<forall>p \<in> set progs. set p \<subseteq> {a} \<Longrightarrow> draw_inv a k (draw_start progs k)"
  by (auto simp: draw_inv_def draw_holder_def draw_start_def drawn_def)

lemma draw_step_threads:
  assumes "draw_step c c'" "draw_inv a k c" "j < length (dr_threads c)"
  shows "set (uses (dr_threads c' ! j)) \<subseteq> {a}" "is_drawing (dr_threads c' ! j) \<longrightarrow> dr_mutexes c' a = Some j"
proof -
  have use: "\<And>i. i < length (dr_threads c) \<Longrightarrow> set (uses (dr_threads c ! i)) \<subseteq> {a}"
    and excl: "\<And>i. i < length (dr_threads c) \<Longrightarrow> is_drawing (dr_threads c ! i) \<Longrightarrow> dr_mutexes c a = Some i"
    using assms(2) by (auto simp: draw_inv_def)
  from assms(1) show "set (uses (dr_threads c' ! j)) \<subseteq> {a}"
    using use [OF assms(3)] by cases (auto simp: nth_list_update)
  from assms(1) show "is_drawing (dr_threads c' ! j) \<longrightarrow> dr_mutexes c' a = Some j"
  proof cases
    case (draw_lock i m ms)
    then show ?thesis using excl [OF assms(3)] use [of i] assms(3) by (cases "i = j") auto
  next
    case (draw_access i m pc ms pc' x)
    then show ?thesis using excl [OF assms(3)] excl [of i] assms(3) by (cases "i = j") auto
  next
    case (draw_unlock i m d ms)
    then show ?thesis using excl [OF assms(3)] excl [of i] assms(3) by (cases "i = j") auto
  qed
qed

lemma draw_step_inv:
  assumes "draw_step c c'" "draw_inv a k c"
  shows "draw_inv a k c'"
proof -
  have use: "\<And>i. i < length (dr_threads c) \<Longrightarrow> set (uses (dr_threads c ! i)) \<subseteq> {a}"
    and excl: "\<And>i. i < length (dr_threads c) \<Longrightarrow> is_drawing (dr_threads c ! i) \<Longrightarrow> dr_mutexes c a = Some i"
    using assms(2) by (auto simp: draw_inv_def)
  have log: "drawn c = map engine_draw [k..<k + length (dr_log c)]" and holder: "draw_holder a k c"
    using assms(2) by (simp_all add: draw_inv_def)
  have len: "length (dr_threads c') = length (dr_threads c)" using assms(1) by cases simp_all
  have I: "draw_inv a k c'" if "drawn c' = map engine_draw [k..<k + length (dr_log c')]"
    and "draw_holder a k c'"
    using draw_step_threads [OF assms] that by (simp add: draw_inv_def len)
  from assms(1) show ?thesis
  proof cases
    case (draw_lock i m ms)
    have m: "m = a" using use [of i] draw_lock by simp
    then have "dr_engine c = engine_after (k + length (dr_log c))"
      using holder draw_lock(4) by (simp add: draw_holder_def)
    then show ?thesis using log draw_lock m by (intro I) (simp_all add: drawn_def draw_holder_def)
  next
    case (draw_access i m pc ms pc' x)
    have m: "dr_mutexes c a = Some i" using excl [of i] draw_access by simp
    then have "draw_rest pc (dr_engine c) = uniform_draw (engine_after (k + length (dr_log c)))"
      using holder draw_access(3) by (simp add: draw_holder_def)
    then have "draw_holder a k c'"
      using m draw_access(2) engine_access_rest [OF draw_access(4)] by (simp add: draw_holder_def draw_access(1))
    then show ?thesis using log by (intro I) (simp_all add: drawn_def draw_access(1))
  next
    case (draw_unlock i m d ms)
    have m: "dr_mutexes c a = Some i" "m = a" using excl [of i] use [of i] draw_unlock by simp_all
    then have "uniform_draw (engine_after (k + length (dr_log c))) = (d, dr_engine c)"
      using holder draw_unlock(3) by (simp add: draw_holder_def)
    then have d: "engine_draw (k + length (dr_log c)) = d" "engine_after (k + length (dr_log c')) = dr_engine c"
      using draw_unlock(1) by (simp_all add: engine_draw_def engine_after.simps)
    then have "draw_holder a k c'" using m(2) by (simp add: draw_holder_def draw_unlock(1))
    then show ?thesis using log d by (intro I) (simp_all add: drawn_def draw_unlock(1))
  qed
qed

lemma draw_run_inv:
  assumes "draw_run (draw_start progs k) n c" "\<forall>p \<in> set progs. set p \<subseteq> {a}"
  shows "draw_inv a k c"
  using assms(1) by induction (use draw_start_inv [OF assms(2)] draw_step_inv in blast)+

section \<open>Two mutexes\<close>

text \<open>Two threads under different mutexes both read the engine before either writes it.\<close>

definition pair :: "draw_thread \<Rightarrow> draw_thread \<Rightarrow> (nat \<Rightarrow> nat option) \<Rightarrow> nat \<Rightarrow> (nat \<times> double) list \<Rightarrow> draw_conf" where
  "pair t u M x l = \<lparr>dr_threads = [t, u], dr_mutexes = M, dr_engine = x, dr_log = l\<rparr>"

lemma pair_locks:
  "M m = None \<Longrightarrow> draw_step (pair (Idle (m # ms)) u M x l) (pair (Drawing m Locked ms) u (M(m \<mapsto> 0)) x l)"
  "M m = None \<Longrightarrow> draw_step (pair t (Idle (m # ms)) M x l) (pair t (Drawing m Locked ms) (M(m \<mapsto> 1)) x l)"
  using draw_lock [of 0 "pair (Idle (m # ms)) u M x l"] draw_lock [of 1 "pair t (Idle (m # ms)) M x l"]
  by (simp_all add: pair_def)

lemma pair_accesses:
  "engine_access pc x = Some (pc', x') \<Longrightarrow>
    draw_step (pair (Drawing m pc ms) u M x l) (pair (Drawing m pc' ms) u M x' l)"
  "engine_access pc x = Some (pc', x') \<Longrightarrow>
    draw_step (pair t (Drawing m pc ms) M x l) (pair t (Drawing m pc' ms) M x' l)"
  using draw_access [of 0 "pair (Drawing m pc ms) u M x l"] draw_access [of 1 "pair t (Drawing m pc ms) M x l"]
  by (simp_all add: pair_def)

lemma pair_unlocks:
  "draw_step (pair (Drawing m (Drawn d) ms) u M x l) (pair (Idle ms) u (M(m := None)) x (l @ [(0, d)]))"
  "draw_step (pair t (Drawing m (Drawn d) ms) M x l) (pair t (Idle ms) (M(m := None)) x (l @ [(1, d)]))"
  using draw_unlock [of 0 "pair (Drawing m (Drawn d) ms) u M x l"] draw_unlock [of 1 "pair t (Drawing m (Drawn d) ms) M x l"]
  by (simp_all add: pair_def)

lemma two_threads_draw:
  assumes "a \<noteq> b"
  shows "\<exists>n c. draw_run (draw_start [[a], [b]] k) n c \<and> draw_done c \<and>
    drawn c = [engine_draw k, engine_draw k] \<and> dr_engine c = engine_after (Suc k)"
proof -
  let ?s = "pair (Idle [a]) (Idle [b]) Map.empty (engine_after k) []"
  have s: "draw_start [[a], [b]] k = ?s" by (simp add: draw_start_def pair_def)
  have free: "Map.empty a = None" "(Map.empty(a \<mapsto> 0)) b = None" using assms by simp_all
  note r = draws_none [of ?s]
  note r = draws_more [OF draws_more [OF r pair_locks(1) [where m = a and M = Map.empty, OF free(1)]] pair_locks(2) [where m = b and M = "[a \<mapsto> 0]", OF free(2)]]
  note r = draws_more [OF draws_more [OF r pair_accesses(1) [OF engine_access.simps(1)]]
      pair_accesses(2) [OF engine_access.simps(1)]]
  note r = draws_more [OF draws_more [OF r pair_accesses(1) [OF engine_access.simps(2)]]
      pair_accesses(2) [OF engine_access.simps(2)]]
  note r = draws_more [OF draws_more [OF r pair_accesses(1) [OF engine_access.simps(3)]]
      pair_accesses(2) [OF engine_access.simps(3)]]
  note r = draws_more [OF draws_more [OF r pair_accesses(1) [OF engine_access.simps(4)]]
      pair_accesses(2) [OF engine_access.simps(4)]]
  note r = draws_more [OF draws_more [OF r pair_unlocks(1)] pair_unlocks(2)]
  show ?thesis unfolding s
    by (intro exI conjI, rule r)
      (simp_all add: draw_done_def drawn_def pair_def engine_draw_def uniform_draw_def engine_after.simps Let_def)
qed

text \<open>
  C14: the draws of \<open>utils::RandomDouble\<close>, by the Zipf generators and the operation chooser,
  come from one engine, and are each taken once only as long as they are made under one
  and the same mutex.  Under the two mutexes of the operation
  chooser and of the key chooser, two threads may get the same draw.
\<close>

theorem draws_need_one_mutex:
  assumes "a \<noteq> b"
  shows "(\<forall>progs n c. (\<forall>p \<in> set progs. set p \<subseteq> {a}) \<and> draw_run (draw_start progs k) n c \<longrightarrow>
      drawn c = map engine_draw [k..<k + length (dr_log c)]) \<and>
    (\<exists>n c. draw_run (draw_start [[a], [b]] k) n c \<and> draw_done c \<and> drawn c = [engine_draw k, engine_draw k])"
  using two_threads_draw [OF assms, of k] draw_run_inv [of _ k _ _ a] unfolding draw_inv_def by blast

text \<open>Two threads that draw one after the other under the same mutex.\<close>

lemma one_mutex_run:
  "\<exists>n c. draw_run (draw_start [[a], [a]] k) n c \<and> draw_done c \<and> length (dr_log c) = 2"
proof -
  let ?s = "pair (Idle [a]) (Idle [a]) Map.empty (engine_after k) []"
  have s: "draw_start [[a], [a]] k = ?s" by (simp add: draw_start_def pair_def)
  have free: "Map.empty a = None" "(Map.empty(a := None)) a = None" "Map.empty(a \<mapsto> 0, a := None) = Map.empty(a := None)"
    by simp_all
  note r = draws_none [of ?s]
  note r = draws_more [OF r pair_locks(1) [where m = a and M = Map.empty, OF free(1)]]
  note r = draws_more [OF draws_more [OF r pair_accesses(1) [OF engine_access.simps(1)]]
      pair_accesses(1) [OF engine_access.simps(2)]]
  note r = draws_more [OF draws_more [OF r pair_accesses(1) [OF engine_access.simps(3)]]
      pair_accesses(1) [OF engine_access.simps(4)]]
  note r = draws_more [OF r pair_unlocks(1), unfolded free(3)]
  note r = draws_more [OF r pair_locks(2) [where m = a and M = "Map.empty(a := None)", OF free(2)]]
  note r = draws_more [OF draws_more [OF r pair_accesses(2) [OF engine_access.simps(1)]]
      pair_accesses(2) [OF engine_access.simps(2)]]
  note r = draws_more [OF draws_more [OF r pair_accesses(2) [OF engine_access.simps(3)]]
      pair_accesses(2) [OF engine_access.simps(4)]]
  note r = draws_more [OF r pair_unlocks(2)]
  show ?thesis unfolding s by (intro exI conjI, rule r) (simp_all add: draw_done_def pair_def)
qed

theorem draws_need_one_mutex_witness:
  "(\<exists>n c. draw_run (draw_start [[0], [0]] 0) n c \<and> draw_done c \<and> drawn c = [engine_draw 0, engine_draw 1]) \<and>
   (\<exists>n c. draw_run (draw_start [[0], [1]] 0) n c \<and> draw_done c \<and> drawn c = [engine_draw 0, engine_draw 0])"
proof -
  have p: "\<forall>p \<in> set [[0], [0]]. set p \<subseteq> {0 :: nat}" by simp
  have u: "[0..<0 + 2] = [0, 1 :: nat]" by (simp add: upt_rec)
  obtain n c where r: "draw_run (draw_start [[0], [0]] 0) n c" "draw_done c" "length (dr_log c) = 2"
    using one_mutex_run by blast
  then have "drawn c = map engine_draw [0..<0 + 2]"
    using draws_need_one_mutex [OF zero_neq_one, of 0] p by metis
  then have "drawn c = [engine_draw 0, engine_draw 1]" unfolding u by simp
  with r draws_need_one_mutex [OF zero_neq_one, of 0] show ?thesis by blast
qed

end
