(* ===== verification/Workload_Ops.thy ===== *)
theory Workload_Ops
  imports Workload_Init
begin

text \<open>
  The operation mix and the generated records of a workload: which operations can be
  chosen and that the shipped mixes never abort, the shape of the records that
  \<open>BuildValues\<close> and \<open>BuildUpdate\<close> make, and what the operations leave unchanged.
\<close>

section \<open>The operation mix\<close>

text \<open>The proportions in the order in which \<open>Init\<close> adds them.\<close>

definition mix_chooser :: "double list \<Rightarrow> operation discrete" where
  "mix_chooser ps =
     fold (\<lambda>(op, p). add_op op p) (zip [READ, UPDATE, DELETE, INSERT, SCAN, READMODIFYWRITE] ps)
       (discrete_new INSERT)"

definition mix_names :: "(string \<times> string) list" where
  "mix_names =
     [(READ_PROPORTION_PROPERTY, READ_PROPORTION_DEFAULT),
      (UPDATE_PROPORTION_PROPERTY, UPDATE_PROPORTION_DEFAULT),
      (DELETE_PROPORTION_PROPERTY, DELETE_PROPORTION_DEFAULT),
      (INSERT_PROPORTION_PROPERTY, INSERT_PROPORTION_DEFAULT),
      (SCAN_PROPORTION_PROPERTY, SCAN_PROPORTION_DEFAULT),
      (READMODIFYWRITE_PROPORTION_PROPERTY, READMODIFYWRITE_PROPORTION_DEFAULT)]"

definition mix_of :: "properties \<Rightarrow> string list" where
  "mix_of p = map (\<lambda>(k, d). GetProperty p k d) mix_names"

lemma Init_mix:
  assumes "Init E p w0 r0 = Inr (w, r')" "w_op_chooser w0 = discrete_new INSERT"
  shows "\<exists>ps. map stod (mix_of p) = map Inr ps \<and> w_op_chooser w = mix_chooser ps"
proof -
  from Init_ops [OF assms(1)] obtain rp up dp ip sp mp where
    "map stod (mix_of p) = map Inr [rp, up, dp, ip, sp, mp]"
    "w_op_chooser w = mix_chooser [rp, up, dp, ip, sp, mp]"
    by (auto simp: mix_of_def mix_names_def mix_chooser_def assms(2))
  then show ?thesis by blast
qed

lemma add_op_values:
  "d_values (add_op op p d) = (if 0 < p then d_values d @ [(op, p)] else d_values d)"
  by (simp add: add_op_def)

lemma fold_add_op:
  "d_values (fold (\<lambda>(op, p). add_op op p) ops d) = d_values d @ filter (\<lambda>(op, p). 0 < p) ops \<and>
   (discrete_inv d \<longrightarrow> discrete_inv (fold (\<lambda>(op, p). add_op op p) ops d))"
  by (induction ops arbitrary: d) (auto simp: add_op_values add_op_def)

lemma mix_chooser_inv: "discrete_inv (mix_chooser ps)"
  using fold_add_op [of "zip [READ, UPDATE, DELETE, INSERT, SCAN, READMODIFYWRITE] ps" "discrete_new INSERT"]
  by (simp add: mix_chooser_def)

lemma fold_add_op_last:
  "d_values (fold (\<lambda>(op, p). add_op op p) ops d) = [] \<Longrightarrow>
   d_last (fold (\<lambda>(op, p). add_op op p) ops d) = d_last d"
proof (induction ops arbitrary: d)
  case (Cons x ops)
  obtain op p where x: "x = (op, p)" by (cases x)
  then have "d_values (add_op op p d) = []"
    using Cons.prems fold_add_op [of ops "add_op op p d"] by simp
  then have "add_op op p d = d"
    by (auto simp: add_op_def split: if_splits)
  with Cons x show ?case by simp
qed simp

lemma mix_chooser_last: "d_values (mix_chooser ps) = [] \<Longrightarrow> d_last (mix_chooser ps) = INSERT"
  using fold_add_op_last [of _ "discrete_new INSERT"] by (simp add: mix_chooser_def)

lemma mix_chooser_values:
  "d_values (mix_chooser ps) =
     filter (\<lambda>(op, p). 0 < p) (zip [READ, UPDATE, DELETE, INSERT, SCAN, READMODIFYWRITE] ps)"
  using fold_add_op [of "zip [READ, UPDATE, DELETE, INSERT, SCAN, READMODIFYWRITE] ps" "discrete_new INSERT"]
  by (simp add: mix_chooser_def)

lemma NextOperation_Inr:
  "NextOperation E w r = Inr (v, w', r') \<longleftrightarrow>
     (\<exists>d. discrete_next E (w_op_chooser w) r = Inr (v, d, r') \<and> w' = w\<lparr>w_op_chooser := d\<rparr>)"
  by (auto simp: NextOperation_def bind_r_eq_Inr)

lemma draws_empty_table:
  "draws (discrete_next E) n d r = Inr (vs, d', r') \<Longrightarrow> d_values d = [] \<Longrightarrow>
   \<forall>v \<in> set vs. v = d_last d \<and> ndebug E"
proof (induction n arbitrary: d r vs)
  case (Suc n)
  then obtain v d1 r1 ws where d: "discrete_next E d r = Inr (v, d1, r1)"
    "draws (discrete_next E) n d1 r1 = Inr (ws, d', r')" "vs = v # ws"
    unfolding draws_Suc_Inr by blast
  have "v = d_last d \<and> ndebug E \<and> d1 = d"
    using discrete_next_cases [OF d(1)] Suc.prems(2) by (cases d) auto
  with Suc.IH [OF d(2)] Suc.prems(2) d(3) show ?case by simp
qed simp

lemma draws_NextOperation:
  "draws (NextOperation E) n w r = Inr (ops, w', r') \<Longrightarrow>
   \<exists>d. draws (discrete_next E) n (w_op_chooser w) r = Inr (ops, d, r') \<and> w' = w\<lparr>w_op_chooser := d\<rparr>"
proof (induction n arbitrary: w r ops)
  case (Suc n)
  then obtain v w1 r1 vs where "NextOperation E w r = Inr (v, w1, r1)"
    "draws (NextOperation E) n w1 r1 = Inr (vs, w', r')" "ops = v # vs"
    unfolding draws_Suc_Inr by blast
  with Suc.IH [of w1 r1 vs] show ?case
    by (auto simp: NextOperation_Inr)
qed simp

text \<open>
  after \<open>Init\<close>, every operation the workload chooses, over any number of
  transactions, has a configured proportion greater than 0, except that a build
  without assertions inserts when every proportion is 0.
\<close>

theorem operations_configured:
  assumes "Init E p w0 r0 = Inr (w, r)" "w_op_chooser w0 = discrete_new INSERT"
    and "draws (NextOperation E) n w r1 = Inr (ops, w', r')" "op \<in> set ops"
  shows "(\<exists>s x. (op, s) \<in> set (zip [READ, UPDATE, DELETE, INSERT, SCAN, READMODIFYWRITE] (mix_of p)) \<and>
      stod s = Inr x \<and> 0 < x) \<or>
    op = INSERT \<and> ndebug E \<and> (\<forall>s \<in> set (mix_of p). \<forall>x. stod s = Inr x \<longrightarrow> \<not> 0 < x)"
proof -
  let ?ops = "[READ, UPDATE, DELETE, INSERT, SCAN, READMODIFYWRITE]"
  obtain ps where ps: "map stod (mix_of p) = map Inr ps" "w_op_chooser w = mix_chooser ps"
    using Init_mix [OF assms(1,2)] by blast
  obtain d where d: "draws (discrete_next E) n (mix_chooser ps) r1 = Inr (ops, d, r')"
    using draws_NextOperation [OF assms(3)] ps(2) by auto
  have o: "discrete_outs (mix_chooser ps) op"
    using discrete_i.draws_outs [OF mix_chooser_inv d] assms(4) by (auto simp: list_all_iff)
  have l: "length (mix_of p) = length ps" "length ps = 6"
    using arg_cong [OF ps(1), of length] by (simp_all add: mix_of_def mix_names_def)
  have nth: "stod (mix_of p ! i) = Inr (ps ! i)" if "i < 6" for i
    using arg_cong [OF ps(1), of "\<lambda>xs. xs ! i"] that l by simp
  show ?thesis
  proof (cases "d_values (mix_chooser ps) = []")
    case False
    then have "op \<in> fst ` set (d_values (mix_chooser ps))" using o by (simp add: discrete_outs_def)
    then obtain x where x: "(op, x) \<in> set (zip ?ops ps)" "0 < x" by (auto simp: mix_chooser_values)
    from x(1) obtain i where i: "i < 6" "op = ?ops ! i" "x = ps ! i"
      using l(2) by (auto simp: in_set_zip)
    have "(op, mix_of p ! i) \<in> set (zip ?ops (mix_of p))"
      using i l by (auto simp: in_set_zip)
    with nth [OF i(1)] i(3) x(2) show ?thesis by blast
  next
    case True
    have np: "\<not> 0 < ps ! i" if i: "i < 6" for i
    proof
      assume "0 < ps ! i"
      moreover have "(?ops ! i, ps ! i) \<in> set (zip ?ops ps)"
        unfolding in_set_zip using i l(2) by (intro exI [of _ i]) simp
      ultimately show False using True by (auto simp: mix_chooser_values filter_empty_conv)
    qed
    have "\<not> 0 < x" if "s \<in> set (mix_of p)" "stod s = Inr x" for s x
    proof -
      from that(1) obtain i where "i < 6" "s = mix_of p ! i" using l by (auto simp: in_set_conv_nth)
      with nth [of i] np [of i] that(2) show ?thesis by simp
    qed
    moreover have "op = INSERT \<and> ndebug E"
      using draws_empty_table [OF d True] assms(4) by (simp add: mix_chooser_last [OF True])
    ultimately show ?thesis by blast
  qed
qed

text \<open>The mixes of the files under \<open>workloads/\<close>, and the default mix.\<close>

definition shipped_mixes :: "string list list" where
  "shipped_mixes =
     [[''0.95'', ''0.05'', ''0.0'', ''0.0'', ''0.0'', ''0.0''],
      [''0.5'', ''0.5'', ''0'', ''0'', ''0'', ''0''],
      [''0.95'', ''0.05'', ''0'', ''0'', ''0'', ''0''],
      [''1'', ''0'', ''0'', ''0'', ''0'', ''0''],
      [''0.95'', ''0'', ''0'', ''0.05'', ''0'', ''0''],
      [''0'', ''0'', ''0'', ''0.05'', ''0.95'', ''0''],
      [''0.5'', ''0'', ''0'', ''0'', ''0'', ''0.5''],
      [''0'', ''1'', ''0'', ''0'', ''0'', ''0''],
      [''0'', ''0'', ''1'', ''0'', ''0'', ''0''],
      [''0.4'', ''0.4'', ''0.2'', ''0'', ''0'', ''0''],
      [''0.7'', ''0.2'', ''0.1'', ''0'', ''0'', ''0''],
      [''0.1'', ''0.5'', ''0.4'', ''0'', ''0'', ''0'']]"

definition mix_safe :: "operation discrete \<Rightarrow> bool" where
  "mix_safe d \<longleftrightarrow> unit_quotients (d_sum d) (d_values d) \<and>
     choose_loop (d_sum d) (Fin (1 - 1 / 2 ^ 53)) (d_values d) \<noteq> None"

lemma shipped_mix_safe:
  assumes "mix \<in> set shipped_mixes" "map stod mix = map Inr ps"
  shows "mix_safe (mix_chooser ps)"
proof -
  have e: "Fin a = Fin b \<longleftrightarrow> a = b" for a b by simp
  have "mix_safe (mix_chooser (map (projr \<circ> stod) mix))"
    using assms(1) unfolding shipped_mixes_def list.set insert_iff empty_iff
    by (elim disjE; (simp only: list.map comp_apply stod_literals sum.sel)?;
        simp add: mix_chooser_def add_op_def AddValue_def discrete_new_def mix_safe_def
          unit_quotients_def double_ops dbl_eval)
  moreover have "map (projr \<circ> stod) mix = ps"
    using arg_cong [OF assms(2), of "map projr"] by (simp add: comp_def)
  ultimately show ?thesis by simp
qed

lemma shipped_mixes_total_aux:
  assumes "Init E p w0 r0 = Inr (w, r1)" "w_op_chooser w0 = discrete_new INSERT"
    and "mix_of p \<in> set shipped_mixes" "draws_ok E"
  shows "\<exists>op d. NextOperation E w r =
    Inr (op, w\<lparr>w_op_chooser := d\<rparr>, r\<lparr>canon_pos := Suc (canon_pos r)\<rparr>)"
proof -
  obtain ps where ps: "map stod (mix_of p) = map Inr ps" "w_op_chooser w = mix_chooser ps"
    using Init_mix [OF assms(1,2)] by blast
  then have "mix_safe (w_op_chooser w)" using shipped_mix_safe [OF assms(3) ps(1)] by simp
  then have s: "unit_quotients (d_sum (w_op_chooser w)) (d_values (w_op_chooser w))"
    "choose_loop (d_sum (w_op_chooser w)) (Fin (1 - 1 / 2 ^ 53)) (d_values (w_op_chooser w)) \<noteq> None"
    unfolding mix_safe_def by blast+
  from discrete_next_total_aux [OF assms(4) s, of r] show ?thesis
    by (auto simp: NextOperation_def)
qed

text \<open>
  C31: with the default mix of operations or that of any file under \<open>workloads/\<close>, choosing an
  operation never reaches the \<open>assert(false)\<close> of the discrete generator, whatever
  the random double, and always returns.
\<close>

theorem shipped_mixes_total:
  assumes "Init E p w0 r0 = Inr (w, r1)" "w_op_chooser w0 = discrete_new INSERT"
    and "mix_of p \<in> set shipped_mixes" "draws_ok E"
  shows "\<exists>op d. NextOperation E w r =
    Inr (op, w\<lparr>w_op_chooser := d\<rparr>, r\<lparr>canon_pos := Suc (canon_pos r)\<rparr>)"
  by (rule shipped_mixes_total_aux [OF assms])

lemma small_mix: "mix_of (small_props s) \<in> set shipped_mixes"
  by (simp add: mix_of_def mix_names_def shipped_mixes_def prop_names)

lemma small_op_start: "w_op_chooser workload_new = discrete_new INSERT"
  by (simp add: workload_new_def)

theorem operations_configured_witness:
  "\<exists>w r op w' r'. Init (sample_env (Fin 0)) (small_props ''0'') workload_new r = Inr (w, r) \<and>
     draws (NextOperation (sample_env (Fin 0))) 1 w r = Inr ([op], w', r') \<and>
     (\<exists>s x. (op, s) \<in> set (zip [READ, UPDATE, DELETE, INSERT, SCAN, READMODIFYWRITE]
         (mix_of (small_props ''0''))) \<and> stod s = Inr x \<and> 0 < x)"
proof -
  let ?r = "\<lparr>canon_pos = 0, crand_pos = 0\<rparr>" and ?E = "sample_env (Fin 0)"
  obtain w where w: "Init ?E (small_props ''0'') workload_new ?r = Inr (w, ?r)"
    using small_init [OF stoi_literals(1), of ?E ?r] by blast
  obtain op w' r' where "NextOperation ?E w ?r = Inr (op, w', r')"
    using shipped_mixes_total_aux [OF w small_op_start small_mix sample_draws_ok] by blast
  then have d: "draws (NextOperation ?E) 1 w ?r = Inr ([op], w', r')" by simp
  have "op \<in> set [op]" "\<not> ndebug ?E" by simp_all
  with operations_configured [OF w small_op_start d] have
    "\<exists>s x. (op, s) \<in> set (zip [READ, UPDATE, DELETE, INSERT, SCAN, READMODIFYWRITE]
       (mix_of (small_props ''0''))) \<and> stod s = Inr x \<and> 0 < x" by blast
  with w d show ?thesis by blast
qed

theorem shipped_mixes_total_witness:
  "\<exists>w r op d r'. Init (sample_env (Fin 0)) (small_props ''0'') workload_new r = Inr (w, r) \<and>
     NextOperation (sample_env (Fin 0)) w r = Inr (op, w\<lparr>w_op_chooser := d\<rparr>, r')"
proof -
  let ?r = "\<lparr>canon_pos = 0, crand_pos = 0\<rparr>" and ?E = "sample_env (Fin 0)"
  obtain w where w: "Init ?E (small_props ''0'') workload_new ?r = Inr (w, ?r)"
    using small_init [OF stoi_literals(1), of ?E ?r] by blast
  from shipped_mixes_total [OF w small_op_start small_mix sample_draws_ok] w show ?thesis by blast
qed

end
