(* ===== verification/Workload_Values.thy ===== *)
theory Workload_Values
  imports Workload_Init
begin

text \<open>
  The records a workload makes: names, number and contents of the fields that
  \<open>BuildValues\<close> and \<open>BuildUpdate\<close> append, and the error of a negative field length.
\<close>

section \<open>Field values\<close>

text \<open>A run of one printable character, as long as the length generator allows.\<close>

definition record_value :: "counter \<Rightarrow> gen \<Rightarrow> string \<Rightarrow> bool" where
  "record_value seq g v \<longleftrightarrow>
     (\<exists>n c. gen_outs seq g n \<and> v = replicate (unat n) c \<and>
        33 \<le> (of_char c :: nat) \<and> (of_char c :: nat) \<le> 126)"

lemma RandomPrintChar_range:
  assumes "RandomPrintChar E r = (c, r')"
  shows "33 \<le> (of_char c :: nat) \<and> (of_char c :: nat) \<le> 126"
proof -
  have c: "c = char_of (crand E (crand_pos r) mod 94 + 33)"
    using assms by (simp add: RandomPrintChar_def)
  have "crand E (crand_pos r) mod 94 < 94" by simp
  then have "(of_char c :: nat) = crand E (crand_pos r) mod 94 + 33"
    unfolding c of_char_of by simp
  then show ?thesis by linarith
qed

lemma next_value_Inr:
  assumes "next_value E w r = Inr (v, w', r')"
    and "gen_ok E (w_insert_key_sequence w) (w_field_len_generator w)"
  shows "\<exists>g. w' = w\<lparr>w_field_len_generator := g\<rparr> \<and> gen_ok E (w_insert_key_sequence w) g \<and>
    gen_outs (w_insert_key_sequence w) g =
      gen_outs (w_insert_key_sequence w) (w_field_len_generator w) \<and>
    record_value (w_insert_key_sequence w) (w_field_len_generator w) v"
proof -
  obtain n g r1 c where n: "gen_next E (w_insert_key_sequence w) (w_field_len_generator w) r = Inr (n, g, r1)"
    and c: "RandomPrintChar E r1 = (c, r')" "append_fill n c = Inr v"
    and w': "w' = w\<lparr>w_field_len_generator := g\<rparr>"
    using assms(1)
    by (auto simp: next_value_def bind_r_eq_Inr Let_def RandomPrintChar_def split: prod.splits)
  have "v = replicate (unat n) c"
    using c(2) by (auto simp: append_fill_def split: if_splits)
  with RandomPrintChar_range [OF c(1)] gen_i.outs_next [OF assms(2) n]
  have "record_value (w_insert_key_sequence w) (w_field_len_generator w) v"
    unfolding record_value_def by blast
  with gen_i.ok_next [OF assms(2) n] gen_i.outs_same [OF assms(2) n] w' show ?thesis by blast
qed

lemma values_loop_shape:
  assumes "values_loop E is kvs w r = Inr (kvs', w', r')"
    and "gen_ok E (w_insert_key_sequence w) (w_field_len_generator w)"
  shows "\<exists>vs g. kvs' = kvs @ vs \<and> map fst vs = map (\<lambda>i. ''field'' @ dec_string i) is \<and>
    list_all (\<lambda>(_, v). record_value (w_insert_key_sequence w) (w_field_len_generator w) v) vs \<and>
    w' = w\<lparr>w_field_len_generator := g\<rparr>"
  using assms
proof (induction "is" arbitrary: kvs w r)
  case Nil
  then show ?case by (intro exI [of _ "[]"] exI [of _ "w_field_len_generator w"]) simp
next
  case (Cons i "is")
  let ?seq = "w_insert_key_sequence w"
  obtain v w1 r1 where v: "next_value E w r = Inr (v, w1, r1)"
    and l: "values_loop E is (kvs @ [(''field'' @ dec_string i, v)]) w1 r1 = Inr (kvs', w', r')"
    using Cons.prems(1) by (auto simp: bind_r_eq_Inr)
  obtain g where g: "w1 = w\<lparr>w_field_len_generator := g\<rparr>" "gen_ok E ?seq g"
    "gen_outs ?seq g = gen_outs ?seq (w_field_len_generator w)"
    "record_value ?seq (w_field_len_generator w) v"
    using next_value_Inr [OF v Cons.prems(2)] by blast
  have ok1: "gen_ok E (w_insert_key_sequence w1) (w_field_len_generator w1)" by (simp add: g)
  from Cons.IH [OF l ok1] obtain vs h where vs: "kvs' = kvs @ (''field'' @ dec_string i, v) # vs"
    "map fst vs = map (\<lambda>i. ''field'' @ dec_string i) is"
    "list_all (\<lambda>(_, v). record_value ?seq g v) vs" "w' = w1\<lparr>w_field_len_generator := h\<rparr>"
    by (auto simp: g(1))
  have "record_value ?seq g = record_value ?seq (w_field_len_generator w)"
    by (simp add: record_value_def g(3) fun_eq_iff)
  with vs g(1,4) show ?case
    by (intro exI [of _ "(''field'' @ dec_string i, v) # vs"] exI [of _ h]) simp
qed

lemma field_names_distinct: "distinct (map (\<lambda>i. ''field'' @ dec_string i) is) = distinct is"
  by (auto simp: distinct_map inj_on_def dec_string_inj)

text \<open>
  C36: \<open>BuildValues\<close> appends one pair for each of \<open>fieldcount\<close> fields, with the names
  field0, field1, \dots, all different, each value a run of one printable character of
  a length the length generator allows, and changes nothing else in the workload.
\<close>

theorem BuildValues_shape:
  assumes "BuildValues E kvs w r = Inr (kvs', w', r')"
    and "gen_ok E (w_insert_key_sequence w) (w_field_len_generator w)"
  shows "\<exists>vs g. kvs' = kvs @ vs \<and>
    map fst vs = map (\<lambda>i. ''field'' @ dec_string i) [0..<nat (w_field_count w)] \<and>
    distinct (map fst vs) \<and>
    list_all (\<lambda>(_, v). record_value (w_insert_key_sequence w) (w_field_len_generator w) v) vs \<and>
    w' = w\<lparr>w_field_len_generator := g\<rparr>"
proof -
  from values_loop_shape [OF assms(1) [unfolded BuildValues_def] assms(2)] obtain vs g where
    v: "kvs' = kvs @ vs" "map fst vs = map (\<lambda>i. ''field'' @ dec_string i) [0..<nat (w_field_count w)]"
      "list_all (\<lambda>(_, v). record_value (w_insert_key_sequence w) (w_field_len_generator w) v) vs"
      "w' = w\<lparr>w_field_len_generator := g\<rparr>" by blast
  have "distinct (map fst vs)" unfolding v(2) field_names_distinct by simp
  with v show ?thesis by blast
qed

text \<open>
  an update writes one field, and after an \<open>Init\<close> with at least one field its name is
  one of the names \<open>BuildValues\<close> uses.
\<close>

theorem BuildUpdate_field:
  assumes "Init E p w0 r0 = Inr (w, r1)" "1 \<le> w_field_count w"
    and "BuildUpdate E kvs w r = Inr (kvs', w', r')"
  shows "\<exists>i v. kvs' = kvs @ [(''field'' @ dec_string i, v)] \<and> i < nat (w_field_count w)"
proof -
  have "init_field_chooser E (w_field_count w) = Inr (w_field_chooser w)"
    "w_field_count w \<le> int_max"
    using Init_fields [OF assms(1)] stoi_range by auto
  then obtain g where gs: "Uniform_Gen g = w_field_chooser w"
    "uniform_new E 0 (of_int (w_field_count w - 1)) = Inr g"
    by (auto simp: init_field_chooser_def bind_r_eq_Inr split: if_splits)
  note g = gs(1) [symmetric] gs(2)
  have u: "u_min g = 0" "u_max g = of_int (w_field_count w - 1)" "u_min g \<le> u_max g"
    using uniform_new_ok [OF g(2)] by (simp_all add: uniform_ok_def)
  define n where "n = uid (u_min g) (u_max g) (mt64 E (u_pos g))"
  obtain v where v: "kvs' = kvs @ [(''field'' @ dec_string (unat n), v)]"
    using assms(3) by (auto simp: BuildUpdate_def NextFieldName_def bind_r_eq_Inr g(1)
        uniform_next_def n_def Let_def)
  have "n \<le> of_int (w_field_count w - 1)"
    using uid_range [OF u(3), of "mt64 E (u_pos g)"] u(2) by (simp only: n_def)
  then have "uint n \<le> uint (of_int (w_field_count w - 1) :: u64)" by (simp only: word_le_def)
  also have "\<dots> = w_field_count w - 1"
  proof -
    have "0 \<le> w_field_count w - 1" "w_field_count w - 1 < 18446744073709551616"
      using assms(2) \<open>w_field_count w \<le> int_max\<close> by (simp_all add: int_max_def)
    then show ?thesis unfolding uint_word_of_int by simp
  qed
  finally have "unat n < nat (w_field_count w)"
    using assms(2) unfolding unat_eq_nat_uint by linarith
  with v show ?thesis by blast
qed

section \<open>Constant lengths\<close>

lemma values_loop_const:
  assumes "w_field_len_generator w = Const_Gen g" "const_val g \<le> 0x7FFFFFFFFFFFFFFF"
  shows "\<exists>vs r'. values_loop E is kvs w r = Inr (kvs @ vs, w, r')"
  using assms
proof (induction "is" arbitrary: kvs r)
  case (Cons i "is")
  have w: "w\<lparr>w_field_len_generator := Const_Gen g\<rparr> = w" using Cons.prems(1) by (cases w) simp
  obtain v r1 where "next_value E w r = Inr (v, w, r1)"
    using Cons.prems w
    by (auto simp: next_value_def append_fill_def const_next_def RandomPrintChar_def Let_def not_less)
  with Cons.IH [OF Cons.prems, of "kvs @ [(''field'' @ dec_string i, v)]" r1] show ?case by auto
qed simp

lemma uint_of_cint:
  assumes "int_min \<le> n" "n \<le> int_max"
  shows "uint (of_int n :: u64) = (if 0 \<le> n then n else n + 18446744073709551616)"
proof (cases "0 \<le> n")
  case True
  with assms show ?thesis by (simp add: uint_word_of_int int_max_def)
next
  case False
  have "n mod 18446744073709551616 = (n + 18446744073709551616) mod 18446744073709551616"
    by simp
  also have "\<dots> = n + 18446744073709551616"
    using False assms(1) by (intro mod_pos_pos_trivial) (simp_all add: int_min_def)
  finally show ?thesis using False by (simp add: uint_word_of_int)
qed

lemma values_loop_too_long:
  assumes "w_field_len_generator w = Const_Gen g" "0x7FFFFFFFFFFFFFFF < const_val g"
  shows "\<exists>m. values_loop E (i # is) kvs w r = Inl (Throw (Length_Error m))"
  using assms by (simp add: next_value_def const_next_def append_fill_def RandomPrintChar_def)

text \<open>
  with a constant field length every record can be built when the length is not
  negative, and each value then has exactly that length; with a negative length and
  at least one field, \<open>BuildValues\<close> throws \<open>std::length_error\<close>.
\<close>

theorem constant_length_values:
  assumes "w_field_len_generator w = Const_Gen (const_new n)" "int_min \<le> n" "n \<le> int_max"
  shows "(0 \<le> n \<longrightarrow> (\<exists>vs r'. BuildValues E [] w r = Inr (vs, w, r') \<and>
      list_all (\<lambda>(_, v). int (length v) = n) vs)) \<and>
    (n < 0 \<and> 1 \<le> w_field_count w \<longrightarrow>
      (\<exists>m. BuildValues E [] w r = Inl (Throw (Length_Error m))))"
proof (intro conjI impI)
  assume n: "0 \<le> n"
  then have u: "uint (of_int n :: u64) = n"
    using uint_of_cint [OF assms(2,3)] by simp
  have "uint (of_int n :: u64) \<le> uint (0x7FFFFFFFFFFFFFFF :: u64)"
    using u assms(3) by (simp add: int_max_def)
  then have "const_val (const_new n) \<le> 0x7FFFFFFFFFFFFFFF"
    by (simp only: word_le_def const_new_def const_gen.simps)
  from values_loop_const [OF assms(1) this, of E "[0..<nat (w_field_count w)]" "[]" r]
  obtain vs r' where b: "BuildValues E [] w r = Inr (vs, w, r')" by (auto simp: BuildValues_def)
  have "gen_ok E (w_insert_key_sequence w) (w_field_len_generator w)" by (simp add: assms(1))
  from values_loop_shape [OF b [unfolded BuildValues_def] this]
  have "list_all (\<lambda>(_, v). int (length v) = n) vs"
    using u by (auto simp: list_all_iff record_value_def assms(1) const_new_def simp flip: uint_nat)
  with b show "\<exists>vs r'. BuildValues E [] w r = Inr (vs, w, r') \<and>
      list_all (\<lambda>(_, v). int (length v) = n) vs" by blast
next
  assume n: "n < 0 \<and> 1 \<le> w_field_count w"
  have "(0x7FFFFFFFFFFFFFFF :: u64) < of_int n"
    unfolding word_less_def uint_of_cint [OF assms(2,3)] using n assms(2) by (simp add: int_min_def)
  then have long: "0x7FFFFFFFFFFFFFFF < const_val (const_new n)" by (simp only: const_new_def const_gen.simps)
  have up: "[0..<nat (w_field_count w)] = 0 # [1..<nat (w_field_count w)]"
    using n by (simp add: upt_conv_Cons)
  show "\<exists>m. BuildValues E [] w r = Inl (Throw (Length_Error m))"
    unfolding BuildValues_def up by (rule values_loop_too_long [OF assms(1) long])
qed

section \<open>Examples\<close>

lemma small_values:
  "\<exists>w vs r'. Init (sample_env (Fin 0)) (small_props ''0'') workload_new r = Inr (w, r) \<and>
     w_field_count w = 10 \<and> w_field_len_generator w = Const_Gen (const_new 100) \<and>
     BuildValues (sample_env (Fin 0)) [] w r = Inr (vs, w, r')"
proof -
  obtain w where w: "Init (sample_env (Fin 0)) (small_props ''0'') workload_new r = Inr (w, r)"
    "w_field_count w = 10" "w_field_len_generator w = Const_Gen (const_new 100)"
    using small_init [OF stoi_literals(1), of "sample_env (Fin 0)" r] by (auto simp: const_new_def)
  have "const_val (const_new 100) \<le> 0x7FFFFFFFFFFFFFFF" by (simp add: const_new_def)
  from values_loop_const [OF w(3) this] w show ?thesis unfolding BuildValues_def
    by (metis append_Nil)
qed

theorem BuildValues_shape_witness:
  "\<exists>w vs r w' r'. BuildValues (sample_env (Fin 0)) [] w r = Inr (vs, w', r') \<and>
     map fst vs = map (\<lambda>i. ''field'' @ dec_string i) [0..<10] \<and> distinct (map fst vs)"
proof -
  let ?r = "\<lparr>canon_pos = 0, crand_pos = 0\<rparr>"
  obtain w vs r' where w: "w_field_count w = 10" "w_field_len_generator w = Const_Gen (const_new 100)"
    "BuildValues (sample_env (Fin 0)) [] w ?r = Inr (vs, w, r')"
    using small_values [of ?r] by blast
  have "gen_ok (sample_env (Fin 0)) (w_insert_key_sequence w) (w_field_len_generator w)"
    by (simp add: w(2))
  note s = BuildValues_shape [OF w(3) this]
  have "nat (w_field_count w) = 10" by (simp add: w(1))
  then have "map fst vs = map (\<lambda>i. ''field'' @ dec_string i) [0..<10]" "distinct (map fst vs)"
    using s by (metis append_Nil)+
  with w(3) show ?thesis by blast
qed

theorem BuildUpdate_field_witness:
  "\<exists>w r r1 f v w' r'. Init (sample_env (Fin 0)) (small_props ''0'') workload_new r = Inr (w, r1) \<and>
     BuildUpdate (sample_env (Fin 0)) [] w r = Inr ([(f, v)], w', r')"
proof -
  let ?r = "\<lparr>canon_pos = 0, crand_pos = 0\<rparr>" and ?E = "sample_env (Fin 0)"
  obtain w where w: "Init ?E (small_props ''0'') workload_new ?r = Inr (w, ?r)"
    "w_field_count w = 10" "w_field_len_generator w = Const_Gen (const_new 100)"
    using small_values [of ?r] by blast
  have "init_field_chooser ?E (w_field_count w) = Inr (w_field_chooser w)"
    using Init_fields [OF w(1)] by blast
  then obtain g where g: "w_field_chooser w = Uniform_Gen g"
    by (auto simp: init_field_chooser_def bind_r_eq_Inr w(2) int_min_def dest: sym)
  obtain kvs w' r' where b: "BuildUpdate ?E [] w ?r = Inr (kvs, w', r')"
    by (simp add: BuildUpdate_def NextFieldName_def next_value_def g w(3) append_fill_def
        const_next_def const_new_def RandomPrintChar_def uniform_next_def Let_def)
  have "1 \<le> w_field_count w" by (simp add: w(2))
  from BuildUpdate_field [OF w(1) this b] obtain f v where "kvs = [(f, v)]" by auto
  with b w(1) show ?thesis by blast
qed

theorem constant_length_values_witness:
  "\<exists>w m. w_field_len_generator w = Const_Gen (const_new (-1)) \<and>
     BuildValues (sample_env (Fin 0)) [] w \<lparr>canon_pos = 0, crand_pos = 0\<rparr> =
       Inl (Throw (Length_Error m))"
proof -
  let ?w = "workload_new\<lparr>w_field_len_generator := Const_Gen (const_new (-1)), w_field_count := 1\<rparr>"
  have "w_field_len_generator ?w = Const_Gen (const_new (-1))" "w_field_count ?w = 1" by simp_all
  with constant_length_values [of ?w "-1" "sample_env (Fin 0)" "\<lparr>canon_pos = 0, crand_pos = 0\<rparr>"]
  show ?thesis by (fastforce simp: int_min_def int_max_def)
qed

end
