(* ===== verification/Lsm_Db.thy ===== *)
theory Lsm_Db
  imports Properties
begin

text \<open>
  \<open>core/db.h\<close>, \<open>db/splitlsm_db\<close>, \<open>db/unifiedlsm_db\<close> and \<open>db/db_factory\<close>: the abstract
  class \<open>DB\<close> as a record of functions, its two bindings to an LSM store, their
  configuration from the properties, and the factory.

  The LSM trees and RocksDB's options are outside the repository.  A store is a
  parameter: a record of the four calls the bindings make, on a state type \<open>'s\<close>; its
  documented behaviour is the predicate \<open>lsm_laws\<close>, which only theorems assume.
\<close>

section \<open>The class \<open>DB\<close>\<close>

definition kOK :: int where "kOK = 0"
definition kErrorNoData :: int where "kErrorNoData = 1"
definition kErrorConflict :: int where "kErrorConflict = 2"

record 's db_class =
  db_Init :: "'s \<Rightarrow> 's"
  db_Close :: "'s \<Rightarrow> 's"
  db_Read :: "'s \<Rightarrow> string \<Rightarrow> string \<Rightarrow> string list option \<Rightarrow> kvpair list \<Rightarrow>
    stop + (int \<times> kvpair list \<times> 's)"
  db_Scan :: "'s \<Rightarrow> string \<Rightarrow> string \<Rightarrow> int \<Rightarrow> string list option \<Rightarrow> kvpair list list \<Rightarrow>
    stop + (int \<times> kvpair list list \<times> 's)"
  db_Update :: "'s \<Rightarrow> string \<Rightarrow> string \<Rightarrow> kvpair list \<Rightarrow> stop + (int \<times> 's)"
  db_Insert :: "'s \<Rightarrow> string \<Rightarrow> string \<Rightarrow> kvpair list \<Rightarrow> stop + (int \<times> 's)"
  db_Delete :: "'s \<Rightarrow> string \<Rightarrow> string \<Rightarrow> stop + (int \<times> 's)"

section \<open>The store\<close>

record 's lsm_api =
  lsm_Get :: "'s \<Rightarrow> string \<Rightarrow> (exn + string) \<times> 's"
  lsm_Put :: "'s \<Rightarrow> string \<Rightarrow> string \<Rightarrow> (exn + unit) \<times> 's"
  lsm_Delete :: "'s \<Rightarrow> string \<Rightarrow> (exn + unit) \<times> 's"
  lsm_Scan :: "'s \<Rightarrow> string \<Rightarrow> u64 \<Rightarrow> (exn + kvpair list) \<times> 's"

text \<open>\<open>catch (const std::exception &) { return r; }\<close>: other exceptions pass through.\<close>

definition catch_std :: "exn \<Rightarrow> 'a \<Rightarrow> stop + 'a" where
  "catch_std e r = (if is_std_exception e then Inr r else Inl (Throw e))"

text \<open>
  \<open>out.reserve(record_count)\<close> on a vector of pairs of strings: the \<open>int\<close> converts to
  \<open>size_t\<close>, and a count above \<open>max_size()\<close>, the largest \<open>ptrdiff_t\<close> divided by the 64
  bytes of a pair, throws.
\<close>

definition reserve_pairs :: "int \<Rightarrow> exn option" where
  "reserve_pairs n =
     (if (of_int n :: u64) > 0x1FFFFFFFFFFFFFF then Some (Length_Error ''vector::reserve'') else None)"

section \<open>\<open>SplitLsmDB\<close>\<close>

definition split_SerializeValues :: "kvpair list \<Rightarrow> string" where
  "split_SerializeValues vals = (case vals of [] \<Rightarrow> [] | kv # _ \<Rightarrow> snd kv)"

definition split_PopulateResult :: "string \<Rightarrow> string list option \<Rightarrow> kvpair list \<Rightarrow> kvpair list" where
  "split_PopulateResult val flds result =
     (case flds of
        Some fs \<Rightarrow> result @ map (\<lambda>f. (f, val)) fs
      | None \<Rightarrow> result @ [(''field0'', val)])"

definition split_Read ::
  "'s lsm_api \<Rightarrow> 's \<Rightarrow> string \<Rightarrow> string \<Rightarrow> string list option \<Rightarrow> kvpair list \<Rightarrow>
    stop + (int \<times> kvpair list \<times> 's)" where
  "split_Read A s table key flds result =
     (case lsm_Get A s key of
        (Inl e, s') \<Rightarrow> catch_std e (kErrorNoData, result, s')
      | (Inr val, s') \<Rightarrow>
          if val = [] then Inr (kErrorNoData, result, s')
          else Inr (kOK, split_PopulateResult val flds result, s'))"

definition split_Scan ::
  "'s lsm_api \<Rightarrow> 's \<Rightarrow> string \<Rightarrow> string \<Rightarrow> int \<Rightarrow> string list option \<Rightarrow> kvpair list list \<Rightarrow>
    stop + (int \<times> kvpair list list \<times> 's)" where
  "split_Scan A s table key record_count flds result =
     (case reserve_pairs record_count of
        Some e \<Rightarrow> catch_std e (kErrorNoData, result, s)
      | None \<Rightarrow>
          (case lsm_Scan A s key (of_int record_count) of
             (Inl e, s') \<Rightarrow> catch_std e (kErrorNoData, result, s')
           | (Inr out, s') \<Rightarrow>
               Inr (kOK, result @ map (\<lambda>entry. split_PopulateResult (snd entry) flds []) out, s')))"

definition split_Update ::
  "'s lsm_api \<Rightarrow> 's \<Rightarrow> string \<Rightarrow> string \<Rightarrow> kvpair list \<Rightarrow> stop + (int \<times> 's)" where
  "split_Update A s table key vals =
     (case lsm_Put A s key (split_SerializeValues vals) of
        (Inl e, s') \<Rightarrow> catch_std e (kErrorNoData, s')
      | (Inr _, s') \<Rightarrow> Inr (kOK, s'))"

definition split_Insert ::
  "'s lsm_api \<Rightarrow> 's \<Rightarrow> string \<Rightarrow> string \<Rightarrow> kvpair list \<Rightarrow> stop + (int \<times> 's)" where
  "split_Insert A s table key vals = split_Update A s table key vals"

definition split_Delete :: "'s lsm_api \<Rightarrow> 's \<Rightarrow> string \<Rightarrow> string \<Rightarrow> stop + (int \<times> 's)" where
  "split_Delete A s table key =
     (case lsm_Delete A s key of
        (Inl e, s') \<Rightarrow> catch_std e (kErrorNoData, s')
      | (Inr _, s') \<Rightarrow> Inr (kOK, s'))"

definition split_db :: "'s lsm_api \<Rightarrow> 's db_class" where
  "split_db A =
     \<lparr>db_Init = \<lambda>s. s, db_Close = \<lambda>s. s, db_Read = split_Read A, db_Scan = split_Scan A,
      db_Update = split_Update A, db_Insert = split_Insert A, db_Delete = split_Delete A\<rparr>"

section \<open>\<open>UnifiedLsmDB\<close>\<close>

definition unified_SerializeValues :: "kvpair list \<Rightarrow> string" where
  "unified_SerializeValues vals = (case vals of [] \<Rightarrow> [] | kv # _ \<Rightarrow> snd kv)"

definition unified_PopulateResult :: "string \<Rightarrow> string list option \<Rightarrow> kvpair list \<Rightarrow> kvpair list" where
  "unified_PopulateResult val flds result =
     (case flds of
        Some fs \<Rightarrow> result @ map (\<lambda>f. (f, val)) fs
      | None \<Rightarrow> result @ [(''field0'', val)])"

definition unified_Read ::
  "'s lsm_api \<Rightarrow> 's \<Rightarrow> string \<Rightarrow> string \<Rightarrow> string list option \<Rightarrow> kvpair list \<Rightarrow>
    stop + (int \<times> kvpair list \<times> 's)" where
  "unified_Read A s table key flds result =
     (case lsm_Get A s key of
        (Inl e, s') \<Rightarrow> catch_std e (kErrorNoData, result, s')
      | (Inr val, s') \<Rightarrow>
          if val = [] then Inr (kErrorNoData, result, s')
          else Inr (kOK, unified_PopulateResult val flds result, s'))"

definition unified_Scan ::
  "'s lsm_api \<Rightarrow> 's \<Rightarrow> string \<Rightarrow> string \<Rightarrow> int \<Rightarrow> string list option \<Rightarrow> kvpair list list \<Rightarrow>
    stop + (int \<times> kvpair list list \<times> 's)" where
  "unified_Scan A s table key record_count flds result =
     (case reserve_pairs record_count of
        Some e \<Rightarrow> catch_std e (kErrorNoData, result, s)
      | None \<Rightarrow>
          (case lsm_Scan A s key (of_int record_count) of
             (Inl e, s') \<Rightarrow> catch_std e (kErrorNoData, result, s')
           | (Inr out, s') \<Rightarrow>
               Inr (kOK, result @ map (\<lambda>entry. unified_PopulateResult (snd entry) flds []) out, s')))"

definition unified_Update ::
  "'s lsm_api \<Rightarrow> 's \<Rightarrow> string \<Rightarrow> string \<Rightarrow> kvpair list \<Rightarrow> stop + (int \<times> 's)" where
  "unified_Update A s table key vals =
     (case lsm_Put A s key (unified_SerializeValues vals) of
        (Inl e, s') \<Rightarrow> catch_std e (kErrorNoData, s')
      | (Inr _, s') \<Rightarrow> Inr (kOK, s'))"

definition unified_Insert ::
  "'s lsm_api \<Rightarrow> 's \<Rightarrow> string \<Rightarrow> string \<Rightarrow> kvpair list \<Rightarrow> stop + (int \<times> 's)" where
  "unified_Insert A s table key vals = unified_Update A s table key vals"

definition unified_Delete :: "'s lsm_api \<Rightarrow> 's \<Rightarrow> string \<Rightarrow> string \<Rightarrow> stop + (int \<times> 's)" where
  "unified_Delete A s table key =
     (case lsm_Delete A s key of
        (Inl e, s') \<Rightarrow> catch_std e (kErrorNoData, s')
      | (Inr _, s') \<Rightarrow> Inr (kOK, s'))"

definition unified_db :: "'s lsm_api \<Rightarrow> 's db_class" where
  "unified_db A =
     \<lparr>db_Init = \<lambda>s. s, db_Close = \<lambda>s. s, db_Read = unified_Read A, db_Scan = unified_Scan A,
      db_Update = unified_Update A, db_Insert = unified_Insert A, db_Delete = unified_Delete A\<rparr>"

section \<open>Configuration\<close>

text \<open>
  RocksDB's \<open>Options\<close>: the four members the source sets, with values of the enumeration
  \<open>CompressionType\<close> of a type \<open>'c\<close>.  The default object, \<open>kNoCompression\<close>,
  \<open>IncreaseParallelism\<close> and \<open>hardware_concurrency\<close> are parameters.
\<close>

record 'c rocks_options =
  create_if_missing :: bool
  compression :: 'c
  max_background_jobs :: int
  write_buffer_size :: u64

record 'c rocks_env =
  rk_options :: "'c rocks_options"
  rk_kNoCompression :: 'c
  rk_IncreaseParallelism :: "int \<Rightarrow> 'c rocks_options \<Rightarrow> 'c rocks_options"
  rk_hardware_concurrency :: "32 word"

definition ParseSizeT :: "properties \<Rightarrow> string \<Rightarrow> u64 \<Rightarrow> stop + u64" where
  "ParseSizeT props key default_value =
     (let val = GetProperty props key [] in if val = [] then Inr default_value else stoull val)"

definition ParseBool :: "properties \<Rightarrow> string \<Rightarrow> bool \<Rightarrow> stop + bool" where
  "ParseBool props key default_value =
     (let val = GetProperty props key [] in if val = [] then Inr default_value else StrToBool val)"

definition split_BuildOptions ::
  "'c rocks_env \<Rightarrow> properties \<Rightarrow> string \<Rightarrow> stop + 'c rocks_options" where
  "split_BuildOptions R props prefix =
     (let options = (rk_options R)\<lparr>create_if_missing := True, compression := rk_kNoCompression R\<rparr>;
          bg_jobs = GetProperty props (prefix @ ''max_background_jobs'') []
      in bind_r (if bg_jobs \<noteq> []
                 then bind_r (stoi bg_jobs) (\<lambda>n. Inr (options\<lparr>max_background_jobs := n\<rparr>))
                 else Inr (rk_IncreaseParallelism R (sint (rk_hardware_concurrency R)) options))
         (\<lambda>options.
         (let write_buffer = GetProperty props (prefix @ ''write_buffer_size'') []
          in if write_buffer \<noteq> []
             then bind_r (stoull write_buffer) (\<lambda>n. Inr (options\<lparr>write_buffer_size := n\<rparr>))
             else Inr options)))"

definition unified_BuildOptions ::
  "'c rocks_env \<Rightarrow> properties \<Rightarrow> string \<Rightarrow> stop + 'c rocks_options" where
  "unified_BuildOptions R props prefix =
     (let options = (rk_options R)\<lparr>create_if_missing := True, compression := rk_kNoCompression R\<rparr>;
          bg_jobs = GetProperty props (prefix @ ''max_background_jobs'') []
      in bind_r (if bg_jobs \<noteq> []
                 then bind_r (stoi bg_jobs) (\<lambda>n. Inr (options\<lparr>max_background_jobs := n\<rparr>))
                 else Inr (rk_IncreaseParallelism R (sint (rk_hardware_concurrency R)) options))
         (\<lambda>options.
         (let write_buffer = GetProperty props (prefix @ ''write_buffer_size'') []
          in if write_buffer \<noteq> []
             then bind_r (stoull write_buffer) (\<lambda>n. Inr (options\<lparr>write_buffer_size := n\<rparr>))
             else
               (let fallback = GetProperty props (prefix @ ''buffer_size'') []
                in if fallback \<noteq> []
                   then bind_r (stoull fallback) (\<lambda>n. Inr (options\<lparr>write_buffer_size := n\<rparr>))
                   else Inr options))))"

record 'c split_config =
  sc_db_path :: string
  sc_options :: "'c rocks_options"
  sc_buffer_size :: u64
  sc_collect_size :: u64
  sc_collect_threshold :: u64
  sc_punch_hole_threshold :: u64
  sc_enable_gc :: bool

text \<open>The arguments with which the constructor builds its \<open>SplitLSM\<close>.\<close>

definition split_config_of :: "'c rocks_env \<Rightarrow> properties \<Rightarrow> stop + 'c split_config" where
  "split_config_of R props =
     (let db_path = GetProperty props ''splitlsm.dbpath'' []
      in if db_path = [] then Inl (Throw (Invalid_Argument ''splitlsm.dbpath must be set''))
         else
         bind_r (ParseSizeT props ''splitlsm.buffer_size'' (8 * 1024 * 1024)) (\<lambda>buffer_size.
         bind_r (ParseSizeT props ''splitlsm.collect_size'' (128 * 1024 * 1024)) (\<lambda>collect_size.
         bind_r (ParseSizeT props ''splitlsm.collect_threshold'' collect_size) (\<lambda>collect_threshold.
         bind_r (ParseSizeT props ''splitlsm.punch_hole_threshold'' collect_size) (\<lambda>punch_hole_threshold.
         bind_r (ParseBool props ''splitlsm.enable_gc'' True) (\<lambda>enable_gc.
         bind_r (split_BuildOptions R props ''splitlsm.'') (\<lambda>options.
         Inr \<lparr>sc_db_path = db_path, sc_options = options, sc_buffer_size = buffer_size,
              sc_collect_size = collect_size, sc_collect_threshold = collect_threshold,
              sc_punch_hole_threshold = punch_hole_threshold, sc_enable_gc = enable_gc\<rparr>)))))))"

definition unified_config_of ::
  "'c rocks_env \<Rightarrow> properties \<Rightarrow> stop + (string \<times> 'c rocks_options)" where
  "unified_config_of R props =
     (let db_path = GetProperty props ''unifiedlsm.dbpath'' []
      in if db_path = [] then Inl (Throw (Invalid_Argument ''unifiedlsm.dbpath must be set''))
         else bind_r (unified_BuildOptions R props ''unifiedlsm.'') (\<lambda>options. Inr (db_path, options)))"

section \<open>The factory\<close>

text \<open>The two stores with their constructors, on a common state type.\<close>

record ('c, 's) lsm_env =
  le_rocks :: "'c rocks_env"
  le_split :: "'s lsm_api"
  le_open_split :: "'c split_config \<Rightarrow> stop + 's"
  le_unified :: "'s lsm_api"
  le_open_unified :: "string \<Rightarrow> 'c rocks_options \<Rightarrow> stop + 's"

definition split_new :: "('c, 's) lsm_env \<Rightarrow> properties \<Rightarrow> stop + ('s db_class \<times> 's)" where
  "split_new L props =
     bind_r (split_config_of (le_rocks L) props) (\<lambda>cfg.
     bind_r (le_open_split L cfg) (\<lambda>s. Inr (split_db (le_split L), s)))"

definition unified_new :: "('c, 's) lsm_env \<Rightarrow> properties \<Rightarrow> stop + ('s db_class \<times> 's)" where
  "unified_new L props =
     bind_r (unified_config_of (le_rocks L) props) (\<lambda>(path, options).
     bind_r (le_open_unified L path options) (\<lambda>s. Inr (unified_db (le_unified L), s)))"

text \<open>\<open>None\<close> is the null pointer.\<close>

definition CreateDB :: "('c, 's) lsm_env \<Rightarrow> properties \<Rightarrow> stop + ('s db_class \<times> 's) option" where
  "CreateDB L props =
     bind_r (property_at props ''dbname'') (\<lambda>dbname.
     if dbname = ''splitlsm'' then bind_r (split_new L props) (\<lambda>d. Inr (Some d))
     else if dbname = ''unifiedlsm'' then bind_r (unified_new L props) (\<lambda>d. Inr (Some d))
     else Inr None)"

section \<open>The contract of \<open>DB\<close>\<close>

text \<open>
  The documented behaviour of a store, on the map \<open>content\<close> that its state stands for: \<open>Get\<close>
  returns the value of a present key and, for an absent one, the empty string or a
  standard exception; \<open>Put\<close> and \<open>Delete\<close> succeed; \<open>Scan\<close> returns entries of the map.
\<close>

definition lsm_laws :: "'s lsm_api \<Rightarrow> ('s \<Rightarrow> string \<rightharpoonup> string) \<Rightarrow> ('s \<Rightarrow> bool) \<Rightarrow> bool" where
  "lsm_laws A content valid \<longleftrightarrow>
     (\<forall>s k. valid s \<longrightarrow> (\<exists>a s'. lsm_Get A s k = (a, s') \<and> valid s' \<and> content s' = content s \<and>
        (case content s k of
           Some v \<Rightarrow> a = Inr v
         | None \<Rightarrow> a = Inr [] \<or> (\<exists>e. a = Inl e \<and> is_std_exception e)))) \<and>
     (\<forall>s k v. valid s \<longrightarrow> (\<exists>s'. lsm_Put A s k v = (Inr (), s') \<and> valid s' \<and>
        content s' = (content s)(k \<mapsto> v))) \<and>
     (\<forall>s k. valid s \<longrightarrow> (\<exists>s'. lsm_Delete A s k = (Inr (), s') \<and> valid s' \<and>
        content s' = (content s)(k := None))) \<and>
     (\<forall>s k n. valid s \<longrightarrow> (\<exists>out s'. lsm_Scan A s k n = (Inr out, s') \<and> valid s' \<and>
        content s' = content s \<and> length out \<le> unat n \<and>
        (\<forall>(k', v) \<in> set out. content s k' = Some v)))"

text \<open>What both bindings make of field lists: the first value stands for the record.\<close>

definition first_value :: "kvpair list \<Rightarrow> string" where
  "first_value vals = (case vals of [] \<Rightarrow> [] | kv # _ \<Rightarrow> snd kv)"

definition result_row :: "string \<Rightarrow> string list option \<Rightarrow> kvpair list" where
  "result_row v fs = (case fs of None \<Rightarrow> [(''field0'', v)] | Some fs \<Rightarrow> map (\<lambda>f. (f, v)) fs)"

definition read_answer :: "(string \<rightharpoonup> string) \<Rightarrow> string \<Rightarrow> string list option \<Rightarrow> int \<times> kvpair list" where
  "read_answer m k fs =
     (case m k of
        Some v \<Rightarrow> if v = [] then (kErrorNoData, []) else (kOK, result_row v fs)
      | None \<Rightarrow> (kErrorNoData, []))"

locale kv_db =
  fixes D :: "'s db_class"
    and content :: "'s \<Rightarrow> string \<rightharpoonup> string"
    and ok :: "'s \<Rightarrow> bool"
  assumes read_law: "ok s \<Longrightarrow> \<exists>s'. ok s' \<and> content s' = content s \<and>
      db_Read D s t k fs res = Inr (fst (read_answer (content s) k fs), res @ snd (read_answer (content s) k fs), s')"
    and update_law: "ok s \<Longrightarrow> \<exists>s'. ok s' \<and> content s' = (content s)(k \<mapsto> first_value kvs) \<and>
      db_Update D s t k kvs = Inr (kOK, s')"
    and insert_law: "ok s \<Longrightarrow> db_Insert D s t k kvs = db_Update D s t k kvs"
    and delete_law: "ok s \<Longrightarrow> \<exists>s'. ok s' \<and> content s' = (content s)(k := None) \<and>
      db_Delete D s t k = Inr (kOK, s')"
    and scan_law: "ok s \<Longrightarrow> \<exists>st rows s'. ok s' \<and> content s' = content s \<and>
      db_Scan D s t k n fs res2 = Inr (st, res2 @ rows, s') \<and>
      (if 0 \<le> n \<and> n \<le> int_max
       then st = kOK \<and> length rows \<le> nat n \<and>
         (\<forall>row \<in> set rows. \<exists>k v. content s k = Some v \<and> row = result_row v fs)
       else int_min \<le> n \<and> n < 0 \<longrightarrow> st = kErrorNoData \<and> rows = [])"
    and init_law: "ok s \<Longrightarrow> ok (db_Init D s) \<and> content (db_Init D s) = content s"
    and close_law: "ok s \<Longrightarrow> ok (db_Close D s) \<and> content (db_Close D s) = content s"

section \<open>Runs of database calls\<close>

datatype db_call =
    Read_Call string string "string list option"
  | Update_Call string string "kvpair list"
  | Insert_Call string string "kvpair list"
  | Delete_Call string string

text \<open>The answer of a call: its status and the pairs it put into an empty result.\<close>

fun db_step :: "'s db_class \<Rightarrow> 's \<Rightarrow> db_call \<Rightarrow> stop + ((int \<times> kvpair list) \<times> 's)" where
  "db_step D s (Read_Call t k fs) =
     bind_r (db_Read D s t k fs []) (\<lambda>(st, res, s). Inr ((st, res), s))"
| "db_step D s (Update_Call t k kvs) = bind_r (db_Update D s t k kvs) (\<lambda>(st, s). Inr ((st, []), s))"
| "db_step D s (Insert_Call t k kvs) = bind_r (db_Insert D s t k kvs) (\<lambda>(st, s). Inr ((st, []), s))"
| "db_step D s (Delete_Call t k) = bind_r (db_Delete D s t k) (\<lambda>(st, s). Inr ((st, []), s))"

fun db_run :: "'s db_class \<Rightarrow> 's \<Rightarrow> db_call list \<Rightarrow> stop + ((int \<times> kvpair list) list \<times> 's)" where
  "db_run D s [] = Inr ([], s)"
| "db_run D s (c # cs) =
     bind_r (db_step D s c) (\<lambda>(a, s). bind_r (db_run D s cs) (\<lambda>(as, s). Inr (a # as, s)))"

text \<open>The same calls on a map from keys to first field values.\<close>

fun spec_step :: "(string \<rightharpoonup> string) \<Rightarrow> db_call \<Rightarrow> (int \<times> kvpair list) \<times> (string \<rightharpoonup> string)" where
  "spec_step m (Read_Call t k fs) = (read_answer m k fs, m)"
| "spec_step m (Update_Call t k kvs) = ((kOK, []), m(k \<mapsto> first_value kvs))"
| "spec_step m (Insert_Call t k kvs) = ((kOK, []), m(k \<mapsto> first_value kvs))"
| "spec_step m (Delete_Call t k) = ((kOK, []), m(k := None))"

fun spec_run :: "(string \<rightharpoonup> string) \<Rightarrow> db_call list \<Rightarrow> (int \<times> kvpair list) list \<times> (string \<rightharpoonup> string)" where
  "spec_run m [] = ([], m)"
| "spec_run m (c # cs) =
     (let (a, m) = spec_step m c; (as, m) = spec_run m cs in (a # as, m))"

context kv_db
begin

lemma insert_map: "ok s \<Longrightarrow> \<exists>s'. ok s' \<and> content s' = (content s)(k \<mapsto> first_value kvs) \<and>
    db_Insert D s t k kvs = Inr (kOK, s')"
  using update_law insert_law by metis

lemma step_spec:
  assumes "ok s"
  shows "\<exists>s'. db_step D s c = Inr (fst (spec_step (content s) c), s') \<and> ok s' \<and>
    content s' = snd (spec_step (content s) c)"
proof (cases c)
  case (Read_Call t k fs)
  with read_law [OF assms, of t k fs "[]"] show ?thesis by auto
next
  case (Update_Call t k kvs)
  with update_law [OF assms, of k kvs t] show ?thesis by auto
next
  case (Insert_Call t k kvs)
  with insert_map [OF assms, of k kvs t] show ?thesis by auto
next
  case (Delete_Call t k)
  with delete_law [OF assms, of k t] show ?thesis by auto
qed

lemma run_spec:
  "ok s \<Longrightarrow> \<exists>s'. db_run D s cs = Inr (fst (spec_run (content s) cs), s') \<and> ok s' \<and>
    content s' = snd (spec_run (content s) cs)"
proof (induction cs arbitrary: s)
  case (Cons c cs)
  obtain s1 where s1: "db_step D s c = Inr (fst (spec_step (content s) c), s1)" "ok s1"
    "content s1 = snd (spec_step (content s) c)"
    using step_spec [OF Cons.prems] by blast
  obtain s2 where "db_run D s1 cs = Inr (fst (spec_run (content s1) cs), s2)" "ok s2"
    "content s2 = snd (spec_run (content s1) cs)"
    using Cons.IH [OF s1(2)] by blast
  with s1 show ?case by (simp add: split_beta Let_def)
qed simp

lemma status_ok:
  assumes "ok s"
  shows "db_Read D s t k fs res = Inr (st, res', s') \<Longrightarrow> 0 \<le> st \<and> ok s' \<and> content s' = content s"
    and "db_Update D s t k kvs = Inr (st, s') \<Longrightarrow> st = kOK \<and> ok s' \<and>
      content s' = (content s)(k \<mapsto> first_value kvs)"
    and "db_Insert D s t k kvs = Inr (st, s') \<Longrightarrow> st = kOK \<and> ok s' \<and>
      content s' = (content s)(k \<mapsto> first_value kvs)"
    and "db_Delete D s t k = Inr (st, s') \<Longrightarrow> st = kOK \<and> ok s' \<and> content s' = (content s)(k := None)"
  using read_law [OF assms, of t k fs res] update_law [OF assms, of k kvs t]
    insert_map [OF assms, of k kvs t] delete_law [OF assms, of k t]
  by (auto simp: read_answer_def kErrorNoData_def kOK_def split: option.splits if_splits)

end

section \<open>The bindings meet the contract\<close>

lemma reserve_pairs_int:
  "0 \<le> n \<Longrightarrow> n \<le> int_max \<Longrightarrow> reserve_pairs n = None"
  "int_min \<le> n \<Longrightarrow> n < 0 \<Longrightarrow> \<exists>m. reserve_pairs n = Some (Length_Error m)"
proof -
  assume n: "0 \<le> n" "n \<le> int_max"
  have "uint (of_int n :: u64) = n"
    using n by (simp add: uint_word_of_int int_max_def)
  then show "reserve_pairs n = None"
    using n by (simp add: reserve_pairs_def word_less_def int_max_def)
next
  assume n: "int_min \<le> n" "n < 0"
  have "n mod 18446744073709551616 = (n + 18446744073709551616) mod 18446744073709551616"
    by simp
  also have "\<dots> = n + 18446744073709551616"
    using n by (intro mod_pos_pos_trivial) (simp_all add: int_min_def)
  finally have "uint (of_int n :: u64) = n + 18446744073709551616"
    by (simp add: uint_word_of_int)
  then show "\<exists>m. reserve_pairs n = Some (Length_Error m)"
    using n by (simp add: reserve_pairs_def word_less_def int_min_def)
qed

lemma unat_of_nonneg: "0 \<le> n \<Longrightarrow> n \<le> int_max \<Longrightarrow> unat (of_int n :: u64) = nat n"
  unfolding unat_eq_nat_uint by (simp only: uint_word_of_int) (simp add: int_max_def)

lemma lsm_get_law:
  assumes "lsm_laws A content valid" "valid s"
  shows "\<exists>a s'. lsm_Get A s k = (a, s') \<and> valid s' \<and> content s' = content s \<and>
    (case content s k of
       Some v \<Rightarrow> a = Inr v
     | None \<Rightarrow> a = Inr [] \<or> (\<exists>e. a = Inl e \<and> is_std_exception e))"
  using assms unfolding lsm_laws_def by blast

lemma lsm_put_law:
  assumes "lsm_laws A content valid" "valid s"
  shows "\<exists>s'. lsm_Put A s k v = (Inr (), s') \<and> valid s' \<and> content s' = (content s)(k \<mapsto> v)"
  using assms unfolding lsm_laws_def by blast

lemma lsm_delete_law:
  assumes "lsm_laws A content valid" "valid s"
  shows "\<exists>s'. lsm_Delete A s k = (Inr (), s') \<and> valid s' \<and> content s' = (content s)(k := None)"
  using assms unfolding lsm_laws_def by blast

lemma lsm_scan_law:
  assumes "lsm_laws A content valid" "valid s"
  shows "\<exists>out s'. lsm_Scan A s k n = (Inr out, s') \<and> valid s' \<and> content s' = content s \<and>
    length out \<le> unat n \<and> (\<forall>(k', v) \<in> set out. content s k' = Some v)"
  using assms unfolding lsm_laws_def by blast

lemma populate_row:
  "split_PopulateResult v fs res = res @ result_row v fs"
  "unified_PopulateResult v fs res = res @ result_row v fs"
  by (simp_all add: split_PopulateResult_def unified_PopulateResult_def result_row_def
      split: option.splits)

lemma serialize_first:
  "split_SerializeValues kvs = first_value kvs" "unified_SerializeValues kvs = first_value kvs"
  by (simp_all add: split_SerializeValues_def unified_SerializeValues_def first_value_def)

text \<open>The code of the two bindings is the same up to the store it calls.\<close>

lemma unified_is_split: "unified_db A = split_db A"
proof -
  have e: "unified_PopulateResult = split_PopulateResult"
    "unified_SerializeValues = split_SerializeValues"
    by (simp_all add: fun_eq_iff populate_row serialize_first)
  show ?thesis
    unfolding unified_db_def split_db_def unified_Read_def [abs_def] split_Read_def [abs_def]
      unified_Scan_def [abs_def] split_Scan_def [abs_def] unified_Insert_def [abs_def]
      split_Insert_def [abs_def] unified_Update_def [abs_def] split_Update_def [abs_def]
      unified_Delete_def [abs_def] split_Delete_def [abs_def] e
    by (rule refl)
qed

lemma split_read_law:
  assumes "lsm_laws A content valid" "valid s"
  shows "\<exists>s'. valid s' \<and> content s' = content s \<and> split_Read A s t k fs res =
    Inr (fst (read_answer (content s) k fs), res @ snd (read_answer (content s) k fs), s')"
  using lsm_get_law [OF assms, of k]
  by (auto simp: split_Read_def read_answer_def catch_std_def populate_row split: option.splits)

lemma split_scan_law:
  assumes "lsm_laws A content valid" "valid s"
  shows "\<exists>st rows s'. valid s' \<and> content s' = content s \<and>
    split_Scan A s t k n fs res = Inr (st, res @ rows, s') \<and>
    (if 0 \<le> n \<and> n \<le> int_max
     then st = kOK \<and> length rows \<le> nat n \<and>
       (\<forall>row \<in> set rows. \<exists>k v. content s k = Some v \<and> row = result_row v fs)
     else int_min \<le> n \<and> n < 0 \<longrightarrow> st = kErrorNoData \<and> rows = [])"
proof (cases "reserve_pairs n")
  case None
  obtain out s' where o: "lsm_Scan A s k (of_int n) = (Inr out, s')" "valid s'" "content s' = content s"
    "length out \<le> unat (of_int n :: u64)" "\<forall>(k', v) \<in> set out. content s k' = Some v"
    using lsm_scan_law [OF assms] by blast
  let ?rows = "map (\<lambda>entry. result_row (snd entry) fs) out"
  have e: "split_Scan A s t k n fs res = Inr (kOK, res @ ?rows, s')"
    using None o(1) by (simp add: split_Scan_def populate_row)
  have "\<forall>row \<in> set ?rows. \<exists>k v. content s k = Some v \<and> row = result_row v fs"
    using o(5) by fastforce
  moreover have "0 \<le> n \<and> n \<le> int_max \<Longrightarrow> length ?rows \<le> nat n"
    using o(4) unat_of_nonneg [of n] by simp
  moreover have "\<not> (int_min \<le> n \<and> n < 0)" using None reserve_pairs_int(2) [of n] by auto
  ultimately show ?thesis using e o(2,3) by (intro exI [of _ kOK] exI [of _ ?rows] exI [of _ s']) auto
next
  case (Some e)
  then have e: "e = Length_Error ''vector::reserve''" by (simp add: reserve_pairs_def split: if_splits)
  have "split_Scan A s t k n fs res = Inr (kErrorNoData, res @ [], s)"
    using Some by (simp add: split_Scan_def e catch_std_def)
  moreover have "\<not> (0 \<le> n \<and> n \<le> int_max)" using Some reserve_pairs_int(1) [of n] by auto
  ultimately show ?thesis using assms(2)
    by (intro exI [of _ kErrorNoData] exI [of _ "[]"] exI [of _ s]) auto
qed

interpretation split_i: kv_db "split_db A" content "\<lambda>s. lsm_laws A content valid \<and> valid s"
  for A content valid
proof
  fix s :: 'a and t k fs res res2 n kvs
  assume ok: "lsm_laws A content valid \<and> valid s"
  then have l: "lsm_laws A content valid" and v: "valid s" by simp_all
  show "\<exists>s'. (lsm_laws A content valid \<and> valid s') \<and> content s' = content s \<and>
      db_Read (split_db A) s t k fs res =
        Inr (fst (read_answer (content s) k fs), res @ snd (read_answer (content s) k fs), s')"
    using split_read_law [OF l v] l by (simp add: split_db_def)
  show "\<exists>s'. (lsm_laws A content valid \<and> valid s') \<and> content s' = (content s)(k \<mapsto> first_value kvs) \<and>
      db_Update (split_db A) s t k kvs = Inr (kOK, s')"
    using lsm_put_law [OF l v, of k "first_value kvs"] l
    by (auto simp: split_db_def split_Update_def serialize_first)
  show "db_Insert (split_db A) s t k kvs = db_Update (split_db A) s t k kvs"
    by (simp add: split_db_def split_Insert_def)
  show "\<exists>s'. (lsm_laws A content valid \<and> valid s') \<and> content s' = (content s)(k := None) \<and>
      db_Delete (split_db A) s t k = Inr (kOK, s')"
    using lsm_delete_law [OF l v, of k] l by (auto simp: split_db_def split_Delete_def)
  show "\<exists>st rows s'. (lsm_laws A content valid \<and> valid s') \<and> content s' = content s \<and>
      db_Scan (split_db A) s t k n fs res2 = Inr (st, res2 @ rows, s') \<and>
      (if 0 \<le> n \<and> n \<le> int_max
       then st = kOK \<and> length rows \<le> nat n \<and>
         (\<forall>row \<in> set rows. \<exists>k v. content s k = Some v \<and> row = result_row v fs)
       else int_min \<le> n \<and> n < 0 \<longrightarrow> st = kErrorNoData \<and> rows = [])"
    using split_scan_law [OF l v, of t k n fs res2] l by (simp add: split_db_def)
  show "(lsm_laws A content valid \<and> valid (db_Init (split_db A) s)) \<and>
      content (db_Init (split_db A) s) = content s"
    using ok by (simp add: split_db_def)
  show "(lsm_laws A content valid \<and> valid (db_Close (split_db A) s)) \<and>
      content (db_Close (split_db A) s) = content s"
    using ok by (simp add: split_db_def)
qed

interpretation unified_i: kv_db "unified_db A" content "\<lambda>s. lsm_laws A content valid \<and> valid s"
  for A content valid
  unfolding unified_is_split by (rule split_i.kv_db_axioms)

end
