(* ===== verification/Db_Facts.thy ===== *)
theory Db_Facts
  imports Lsm_Db "HOL-Library.AList"
begin

text \<open>
  What the two bindings do as databases: they refine a map from keys to first field
  values, never report a conflict, replace whole records on update, and reject
  negative scan counts; and how their configuration follows from the properties.
\<close>

section \<open>An example store\<close>

text \<open>An association list with distinct keys: a store that meets \<open>lsm_laws\<close>.\<close>

definition list_store :: "kvpair list lsm_api" where
  "list_store =
     \<lparr>lsm_Get = \<lambda>s k. (Inr (case map_of s k of None \<Rightarrow> [] | Some v \<Rightarrow> v), s),
      lsm_Put = \<lambda>s k v. (Inr (), AList.update k v s),
      lsm_Delete = \<lambda>s k. (Inr (), AList.delete k s),
      lsm_Scan = \<lambda>s k n. (Inr (take (unat n) (filter (\<lambda>(k', _). \<not> str_less k' k) s)), s)\<rparr>"

definition list_valid :: "kvpair list \<Rightarrow> bool" where
  "list_valid s \<longleftrightarrow> distinct (map fst s)"

lemma list_store_laws: "lsm_laws list_store map_of list_valid"
proof -
  show ?thesis
    unfolding lsm_laws_def list_store_def list_valid_def
    by (auto simp: update_conv' delete_conv' distinct_update distinct_delete split: option.splits
        dest: in_set_takeD)
qed

section \<open>Refinement of a map\<close>

text \<open>
  C10: over a store that meets \<open>lsm_laws\<close>, any sequence of reads, updates, inserts and
  deletes through either binding returns and yields the statuses and pairs that the same
  calls give on a map from keys to values, where a record is stored as its first field
  value and an empty value reads as no data.  The bindings do not look a key up before
  they write: with a store whose \<open>Put\<close> and \<open>Delete\<close> succeed on absent keys too, as \<open>lsm_laws\<close>
  assumes, an update or a delete of an absent key reports \<open>kOK\<close>, not the error that
  \<open>workloads.md\<close> announces.
\<close>

theorem bindings_refine_map:
  assumes "lsm_laws A content valid" "valid s" "D = split_db A \<or> D = unified_db A"
  shows "\<exists>s'. db_run D s cs = Inr (fst (spec_run (content s) cs), s') \<and>
    valid s' \<and> content s' = snd (spec_run (content s) cs)"
  using split_i.run_spec [of A content valid s cs] unified_i.run_spec [of A content valid s cs] assms
  by blast

theorem bindings_refine_map_witness:
  "\<exists>s'. db_run (unified_db list_store) []
       [Insert_Call ''t'' ''k'' [(''field0'', ''a''), (''field1'', ''b'')],
        Read_Call ''t'' ''k'' None, Delete_Call ''t'' ''k'', Read_Call ''t'' ''k'' None] =
     Inr ([(0, []), (0, [(''field0'', ''a'')]), (0, []), (1, [])], s')"
proof -
  have "list_valid []" by (simp add: list_valid_def)
  from bindings_refine_map [OF list_store_laws this, of "unified_db list_store"
      "[Insert_Call ''t'' ''k'' [(''field0'', ''a''), (''field1'', ''b'')],
        Read_Call ''t'' ''k'' None, Delete_Call ''t'' ''k'', Read_Call ''t'' ''k'' None]"]
  show ?thesis
    by (auto simp: read_answer_def kOK_def kErrorNoData_def first_value_def result_row_def)
qed

text \<open>
  an update does not overwrite one field of a record, as \<open>core/db.h\<close> asks, but replaces
  the record: afterwards every requested field, whatever its name, reads as the first
  value of the update.
\<close>

theorem update_replaces_record:
  assumes "lsm_laws A content valid" "valid s" "D = split_db A \<or> D = unified_db A" "v \<noteq> []"
  shows "\<exists>s'. db_run D s [Insert_Call t k kvs, Update_Call t k ((f, v) # rest), Read_Call t k (Some fs)] =
    Inr ([(kOK, []), (kOK, []), (kOK, map (\<lambda>g. (g, v)) fs)], s')"
  using split_i.run_spec [of A content valid s "[Insert_Call t k kvs, Update_Call t k ((f, v) # rest),
        Read_Call t k (Some fs)]"]
    unified_i.run_spec [of A content valid s "[Insert_Call t k kvs, Update_Call t k ((f, v) # rest),
        Read_Call t k (Some fs)]"] assms
  by (auto simp: read_answer_def first_value_def result_row_def)

theorem update_replaces_record_witness:
  "\<exists>s'. db_run (split_db list_store) []
       [Insert_Call ''t'' ''k'' [(''field0'', ''a''), (''field1'', ''b'')],
        Update_Call ''t'' ''k'' [(''field1'', ''c'')], Read_Call ''t'' ''k'' (Some [''field0'', ''field1''])] =
     Inr ([(kOK, []), (kOK, []), (kOK, [(''field0'', ''c''), (''field1'', ''c'')])], s')"
proof -
  have "list_valid []" by (simp add: list_valid_def)
  from update_replaces_record [OF list_store_laws this, of "split_db list_store" "''c''" "''t''" "''k''"
      "[(''field0'', ''a''), (''field1'', ''b'')]" "''field1''" "[]" "[''field0'', ''field1'']"]
  show ?thesis by simp
qed

section \<open>Absent keys\<close>



section \<open>Errors\<close>

text \<open>A store whose calls throw nothing but standard exceptions, with no other promise.\<close>

definition throws_std :: "'s lsm_api \<Rightarrow> bool" where
  "throws_std A \<longleftrightarrow>
     (\<forall>s k e. fst (lsm_Get A s k) = Inl e \<longrightarrow> is_std_exception e) \<and>
     (\<forall>s k v e. fst (lsm_Put A s k v) = Inl e \<longrightarrow> is_std_exception e) \<and>
     (\<forall>s k e. fst (lsm_Delete A s k) = Inl e \<longrightarrow> is_std_exception e) \<and>
     (\<forall>s k n e. fst (lsm_Scan A s k n) = Inl e \<longrightarrow> is_std_exception e)"

lemma throws_stdD:
  assumes "throws_std A"
  shows "lsm_Get A s k = (Inl e, s') \<Longrightarrow> is_std_exception e"
    and "lsm_Put A s k v = (Inl e, s') \<Longrightarrow> is_std_exception e"
    and "lsm_Delete A s k = (Inl e, s') \<Longrightarrow> is_std_exception e"
  using assms unfolding throws_std_def by (metis fst_conv)+

lemma db_step_status:
  assumes "throws_std A"
  shows "\<exists>st res s'. db_step (split_db A) s c = Inr ((st, res), s') \<and> (st = kOK \<or> st = kErrorNoData)"
  using throws_stdD [OF assms]
  by (cases c) (auto simp: split_db_def split_Read_def split_Insert_def split_Update_def
      split_Delete_def catch_std_def split: prod.splits sum.splits)

text \<open>
  when the store throws only standard exceptions, no database call lets an exception
  through or reports \<open>kErrorConflict\<close>: a read, update, insert or delete returns \<open>kOK\<close> or
  \<open>kErrorNoData\<close>, whatever the store returns.
\<close>

theorem status_ok_or_no_data:
  assumes "throws_std A" "D = split_db A \<or> D = unified_db A"
  shows "\<exists>answers s'. db_run D s cs = Inr (answers, s') \<and> length answers = length cs \<and>
    fst ` set answers \<subseteq> {kOK, kErrorNoData} \<and> kErrorConflict \<notin> fst ` set answers"
proof -
  have D: "D = split_db A" using assms(2) unified_is_split by metis
  have "\<exists>answers s'. db_run D s cs = Inr (answers, s') \<and> length answers = length cs \<and>
    fst ` set answers \<subseteq> {kOK, kErrorNoData}"
  proof (induction cs arbitrary: s)
    case (Cons c cs)
    obtain st res s1 where "db_step D s c = Inr ((st, res), s1)" "st = kOK \<or> st = kErrorNoData"
      using db_step_status [OF assms(1), of s c] D by blast
    with Cons.IH [of s1] show ?case by fastforce
  qed simp
  moreover have "kErrorConflict \<notin> {kOK, kErrorNoData}"
    by (simp add: kErrorConflict_def kOK_def kErrorNoData_def)
  ultimately show ?thesis by blast
qed

theorem status_ok_or_no_data_witness:
  "\<exists>a s'. db_run (split_db (list_store\<lparr>lsm_Put := \<lambda>s k v. (Inl (Out_Of_Range ''full''), s)\<rparr>)) []
       [Insert_Call ''t'' ''k'' [(''field0'', ''a'')]] = Inr ([a], s') \<and> fst a \<in> {kOK, kErrorNoData}"
proof -
  let ?A = "list_store\<lparr>lsm_Put := \<lambda>s k v. (Inl (Out_Of_Range ''full''), s)\<rparr>"
  have "throws_std ?A" by (simp add: throws_std_def list_store_def)
  from status_ok_or_no_data [OF this, of "split_db ?A" "[]" "[Insert_Call ''t'' ''k'' [(''field0'', ''a'')]]"]
  obtain answers s' where a: "db_run (split_db ?A) [] [Insert_Call ''t'' ''k'' [(''field0'', ''a'')]] =
      Inr (answers, s')" "length answers = 1" "fst ` set answers \<subseteq> {kOK, kErrorNoData}" by auto
  then obtain x where "answers = [x]" by (cases answers) auto
  with a show ?thesis by auto
qed

text \<open>
  a scan with a negative record count returns \<open>kErrorNoData\<close> and leaves the result and
  the store alone: \<open>reserve\<close> throws before the store is called.  A count that is not
  negative asks the store for that many entries and makes one row of each.
\<close>

theorem scan_counts:
  assumes "int_min \<le> n" "n \<le> int_max" "D = split_db A \<or> D = unified_db A"
  shows "(n < 0 \<longrightarrow> db_Scan D s t k n fs res = Inr (kErrorNoData, res, s)) \<and>
    (0 \<le> n \<and> lsm_Scan A s k (of_int n) = (Inr out, s') \<longrightarrow>
       db_Scan D s t k n fs res = Inr (kOK, res @ map (\<lambda>e. result_row (snd e) fs) out, s'))"
proof -
  have D: "db_Scan D = split_Scan A" using assms(3) unified_is_split by (metis split_db_def db_class.simps(4))
  show ?thesis
    using reserve_pairs_int [of n] assms(1,2)
    by (auto simp: D split_Scan_def catch_std_def populate_row reserve_pairs_def split: if_splits)
qed

theorem scan_counts_witness:
  "db_Scan (unified_db list_store) [] ''t'' ''k'' (-1) None [] = Inr (kErrorNoData, [], [])"
  using scan_counts [of "-1" "unified_db list_store" list_store "[]" "''t''" "''k''" None "[]"]
  by (simp add: int_min_def int_max_def)

section \<open>Configuration and factory\<close>

lemma split_config_no_path:
  "GetProperty p ''splitlsm.dbpath'' [] = [] \<Longrightarrow>
   split_config_of R p = Inl (Throw (Invalid_Argument ''splitlsm.dbpath must be set''))"
  by (simp add: split_config_of_def)

lemma split_config_Inr:
  assumes "split_config_of R p = Inr c"
  shows "sc_db_path c \<noteq> [] \<and> sc_db_path c = GetProperty p ''splitlsm.dbpath'' [] \<and>
    ParseSizeT p ''splitlsm.buffer_size'' 8388608 = Inr (sc_buffer_size c) \<and>
    ParseSizeT p ''splitlsm.collect_size'' 134217728 = Inr (sc_collect_size c) \<and>
    ParseSizeT p ''splitlsm.collect_threshold'' (sc_collect_size c) = Inr (sc_collect_threshold c) \<and>
    ParseSizeT p ''splitlsm.punch_hole_threshold'' (sc_collect_size c) = Inr (sc_punch_hole_threshold c) \<and>
    ParseBool p ''splitlsm.enable_gc'' True = Inr (sc_enable_gc c) \<and>
    split_BuildOptions R p ''splitlsm.'' = Inr (sc_options c)"
proof (cases "GetProperty p ''splitlsm.dbpath'' [] = []")
  case False
  then show ?thesis
    using assms unfolding split_config_of_def Let_def if_not_P [OF False] bind_r_eq_Inr
    by (elim exE conjE) auto
qed (use assms in \<open>simp add: split_config_no_path\<close>)

lemma ParseSizeT_default: "GetProperty p k [] = [] \<Longrightarrow> ParseSizeT p k d = Inr d"
  by (simp add: ParseSizeT_def)

text \<open>
  the constructor of \<open>SplitLsmDB\<close> succeeds only with a database path, and where
  \<open>collect_threshold\<close> or \<open>punch_hole_threshold\<close> is not set it is the collect size, 128
  MiB if that is not set either; a missing path throws \<open>std::invalid_argument\<close> before
  any other property is read.
\<close>

theorem split_config_defaults:
  "(GetProperty p ''splitlsm.dbpath'' [] = [] \<longrightarrow>
      split_config_of R p = Inl (Throw (Invalid_Argument ''splitlsm.dbpath must be set''))) \<and>
   (split_config_of R p = Inr c \<longrightarrow>
      sc_db_path c \<noteq> [] \<and>
      (GetProperty p ''splitlsm.collect_size'' [] = [] \<longrightarrow> sc_collect_size c = 134217728) \<and>
      (GetProperty p ''splitlsm.collect_threshold'' [] = [] \<longrightarrow>
        sc_collect_threshold c = sc_collect_size c) \<and>
      (GetProperty p ''splitlsm.punch_hole_threshold'' [] = [] \<longrightarrow>
        sc_punch_hole_threshold c = sc_collect_size c))"
  using split_config_no_path [of p R] split_config_Inr [of R p c]
  by (auto simp: ParseSizeT_default)

lemma stoull_literals: "stoull ''4096'' = Inr 4096"
  by (simp add: stoull_def cisspace_def is_digit_def digit_val_def nat_of_dec_def)

theorem split_config_defaults_witness:
  "\<exists>c. split_config_of \<lparr>rk_options = \<lparr>create_if_missing = False, compression = (), max_background_jobs = 2,
         write_buffer_size = 64\<rparr>, rk_kNoCompression = (), rk_IncreaseParallelism = \<lambda>_ opts. opts,
         rk_hardware_concurrency = 8\<rparr>
       [''splitlsm.dbpath'' \<mapsto> ''/tmp/db'', ''splitlsm.collect_size'' \<mapsto> ''4096''] = Inr c \<and>
     sc_collect_threshold c = sc_collect_size c"
proof -
  let ?R = "\<lparr>rk_options = \<lparr>create_if_missing = False, compression = (), max_background_jobs = 2,
      write_buffer_size = 64\<rparr>, rk_kNoCompression = (), rk_IncreaseParallelism = \<lambda>_ opts. opts,
      rk_hardware_concurrency = 8\<rparr>"
    and ?p = "[''splitlsm.dbpath'' \<mapsto> ''/tmp/db'', ''splitlsm.collect_size'' \<mapsto> ''4096'']"
  obtain c where c: "split_config_of ?R ?p = Inr c"
    by (simp add: split_config_of_def GetProperty_def ParseSizeT_def ParseBool_def stoull_literals
        split_BuildOptions_def)
  moreover have "GetProperty ?p ''splitlsm.collect_threshold'' [] = []"
    by (simp add: GetProperty_def)
  ultimately show ?thesis using split_config_defaults [of ?p ?R c] by blast
qed

text \<open>
  the write buffer size of a \<open>UnifiedLsmDB\<close> is the property \<open>write_buffer_size\<close> if set, else
  the property \<open>buffer_size\<close>; \<open>SplitLsmDB\<close> ignores the latter for its options.  In both
  the number of background jobs is a set property, and the file is created if missing.
\<close>

theorem build_options:
  assumes "GetProperty p (prefix @ ''max_background_jobs'') [] \<noteq> []"
  shows "(unified_BuildOptions R p prefix = Inr u \<longrightarrow>
      create_if_missing u \<and> compression u = rk_kNoCompression R \<and>
      stoi (GetProperty p (prefix @ ''max_background_jobs'') []) = Inr (max_background_jobs u) \<and>
      (if GetProperty p (prefix @ ''write_buffer_size'') [] \<noteq> []
       then stoull (GetProperty p (prefix @ ''write_buffer_size'') []) = Inr (write_buffer_size u)
       else if GetProperty p (prefix @ ''buffer_size'') [] \<noteq> []
       then stoull (GetProperty p (prefix @ ''buffer_size'') []) = Inr (write_buffer_size u)
       else write_buffer_size u = write_buffer_size (rk_options R))) \<and>
    (split_BuildOptions R p prefix = Inr s \<longrightarrow>
      create_if_missing s \<and> compression s = rk_kNoCompression R \<and>
      stoi (GetProperty p (prefix @ ''max_background_jobs'') []) = Inr (max_background_jobs s) \<and>
      (if GetProperty p (prefix @ ''write_buffer_size'') [] \<noteq> []
       then stoull (GetProperty p (prefix @ ''write_buffer_size'') []) = Inr (write_buffer_size s)
       else write_buffer_size s = write_buffer_size (rk_options R)))"
  using assms
  by (auto simp: unified_BuildOptions_def split_BuildOptions_def bind_r_eq_Inr Let_def
      split: if_splits)

theorem build_options_witness:
  "\<exists>u. unified_BuildOptions \<lparr>rk_options = \<lparr>create_if_missing = False, compression = (), max_background_jobs = 2,
         write_buffer_size = 64\<rparr>, rk_kNoCompression = (), rk_IncreaseParallelism = \<lambda>_ opts. opts,
         rk_hardware_concurrency = 8\<rparr>
       [''u.max_background_jobs'' \<mapsto> ''3'', ''u.buffer_size'' \<mapsto> ''4096''] ''u.'' = Inr u \<and>
     create_if_missing u \<and> write_buffer_size u = 4096"
proof -
  let ?R = "\<lparr>rk_options = \<lparr>create_if_missing = False, compression = (), max_background_jobs = 2,
      write_buffer_size = 64\<rparr>, rk_kNoCompression = (), rk_IncreaseParallelism = \<lambda>_ opts. opts,
      rk_hardware_concurrency = 8\<rparr>"
    and ?p = "[''u.max_background_jobs'' \<mapsto> ''3'', ''u.buffer_size'' \<mapsto> ''4096'']"
  obtain u where u: "unified_BuildOptions ?R ?p ''u.'' = Inr u"
    by (simp add: unified_BuildOptions_def GetProperty_def stoull_literals stoi_literals)
  have "GetProperty ?p (''u.'' @ ''max_background_jobs'') [] \<noteq> []"
    "GetProperty ?p (''u.'' @ ''write_buffer_size'') [] = []"
    "GetProperty ?p (''u.'' @ ''buffer_size'') [] = ''4096''"
    by (simp_all add: GetProperty_def)
  with build_options [of ?p "''u.''" ?R u] u show ?thesis by (auto simp: stoull_literals)
qed

text \<open>
  \<open>CreateDB\<close> throws \<open>std::out_of_range\<close> when no database name was given, although the
  usage message names a default, returns the null pointer for an unknown name, and
  otherwise the binding of that name, whose constructor alone can fail.
\<close>

theorem CreateDB_cases:
  "CreateDB L p =
     (case p ''dbname'' of
        None \<Rightarrow> Inl (Throw (Out_Of_Range ''map::at''))
      | Some n \<Rightarrow>
          if n = ''splitlsm'' then bind_r (split_new L p) (\<lambda>(D, s). Inr (Some (split_db (le_split L), s)))
          else if n = ''unifiedlsm''
            then bind_r (unified_new L p) (\<lambda>(D, s). Inr (Some (unified_db (le_unified L), s)))
          else Inr None)"
proof (cases "p ''dbname''")
  case (Some n)
  have s: "bind_r (split_new L p) (\<lambda>d. Inr (Some d)) =
      bind_r (split_new L p) (\<lambda>(D, s). Inr (Some (split_db (le_split L), s)))"
    by (auto simp: split_new_def bind_r_assoc)
  have u: "bind_r (unified_new L p) (\<lambda>d. Inr (Some d)) =
      bind_r (unified_new L p) (\<lambda>(D, s). Inr (Some (unified_db (le_unified L), s)))"
    by (auto simp: unified_new_def bind_r_assoc split_beta)
  show ?thesis by (simp add: CreateDB_def property_at_def Some s u)
qed (simp add: CreateDB_def property_at_def)

end
