(* ===== verification/Client.thy ===== *)
theory Client
  imports Workload_Ops Workload_Values Db_Facts
begin

text \<open>
  \<open>core/client.h\<close>: the client that turns workload draws into database calls.  Its two
  references are the workload and the database, here the workload record and the
  state of a \<open>db_class\<close>; an operation returns its result with the new workload,
  random positions and database state.
\<close>

section \<open>Operations\<close>

type_synonym 's client_result = "stop + (int \<times> workload \<times> rng \<times> 's)"

text \<open>
  The field list of a read or scan: \<open>NULL\<close> to read all fields, otherwise one name, to
  which the client adds the prefix that \<open>NextFieldName\<close> has put in front already.
\<close>

definition choose_fields ::
  "env \<Rightarrow> workload \<Rightarrow> rng \<Rightarrow> stop + (string list option \<times> workload \<times> rng)" where
  "choose_fields E w r =
     (if \<not> w_read_all_fields w
      then bind_r (NextFieldName E w r) (\<lambda>(f, w, r). Inr (Some [''field'' @ f], w, r))
      else Inr (None, w, r))"

definition choose_values ::
  "env \<Rightarrow> workload \<Rightarrow> rng \<Rightarrow> stop + (kvpair list \<times> workload \<times> rng)" where
  "choose_values E w r =
     (if w_write_all_fields w then BuildValues E [] w r else BuildUpdate E [] w r)"

definition TransactionRead :: "env \<Rightarrow> 's db_class \<Rightarrow> workload \<Rightarrow> rng \<Rightarrow> 's \<Rightarrow> 's client_result" where
  "TransactionRead E D w r s =
     (let table = NextTable w in
     bind_r (NextTransactionKey E w r) (\<lambda>(key, w, r).
     bind_r (choose_fields E w r) (\<lambda>(flds, w, r).
     bind_r (db_Read D s table key flds []) (\<lambda>(status, _, s). Inr (status, w, r, s)))))"

definition TransactionReadModifyWrite ::
  "env \<Rightarrow> 's db_class \<Rightarrow> workload \<Rightarrow> rng \<Rightarrow> 's \<Rightarrow> 's client_result" where
  "TransactionReadModifyWrite E D w r s =
     (let table = NextTable w in
     bind_r (NextTransactionKey E w r) (\<lambda>(key, w, r).
     bind_r (choose_fields E w r) (\<lambda>(flds, w, r).
     bind_r (db_Read D s table key flds []) (\<lambda>(_, _, s).
     bind_r (choose_values E w r) (\<lambda>(vals, w, r).
     bind_r (db_Update D s table key vals) (\<lambda>(status, s). Inr (status, w, r, s)))))))"

text \<open>The scan length, a \<open>size_t\<close>, is converted to \<open>int\<close> (modulo \<open>2 ^ 32\<close>).\<close>

definition int_of_size :: "u64 \<Rightarrow> int" where
  "int_of_size n = sint (ucast n :: 32 word)"

definition TransactionScan :: "env \<Rightarrow> 's db_class \<Rightarrow> workload \<Rightarrow> rng \<Rightarrow> 's \<Rightarrow> 's client_result" where
  "TransactionScan E D w r s =
     (let table = NextTable w in
     bind_r (NextTransactionKey E w r) (\<lambda>(key, w, r).
     bind_r (NextScanLength E w r) (\<lambda>(n, w, r).
     (let len = int_of_size n in
     bind_r (choose_fields E w r) (\<lambda>(flds, w, r).
     bind_r (db_Scan D s table key len flds []) (\<lambda>(status, _, s). Inr (status, w, r, s)))))))"

definition TransactionUpdate :: "env \<Rightarrow> 's db_class \<Rightarrow> workload \<Rightarrow> rng \<Rightarrow> 's \<Rightarrow> 's client_result" where
  "TransactionUpdate E D w r s =
     (let table = NextTable w in
     bind_r (NextTransactionKey E w r) (\<lambda>(key, w, r).
     bind_r (choose_values E w r) (\<lambda>(vals, w, r).
     bind_r (db_Update D s table key vals) (\<lambda>(status, s). Inr (status, w, r, s)))))"

definition TransactionInsert :: "env \<Rightarrow> 's db_class \<Rightarrow> workload \<Rightarrow> rng \<Rightarrow> 's \<Rightarrow> 's client_result" where
  "TransactionInsert E D w r s =
     (let table = NextTable w in
     bind_r (NextSequenceKey E w r) (\<lambda>(key, w, r).
     bind_r (BuildValues E [] w r) (\<lambda>(vals, w, r).
     bind_r (db_Insert D s table key vals) (\<lambda>(status, s). Inr (status, w, r, s)))))"

definition TransactionDelete :: "env \<Rightarrow> 's db_class \<Rightarrow> workload \<Rightarrow> rng \<Rightarrow> 's \<Rightarrow> 's client_result" where
  "TransactionDelete E D w r s =
     (let table = NextTable w in
     bind_r (NextTransactionKey E w r) (\<lambda>(key, w, r).
     bind_r (db_Delete D s table key) (\<lambda>(status, s). Inr (status, w, r, s))))"

definition DoInsert ::
  "env \<Rightarrow> 's db_class \<Rightarrow> workload \<Rightarrow> rng \<Rightarrow> 's \<Rightarrow> stop + (bool \<times> workload \<times> rng \<times> 's)" where
  "DoInsert E D w r s =
     bind_r (NextSequenceKey E w r) (\<lambda>(key, w, r).
     bind_r (BuildValues E [] w r) (\<lambda>(pairs, w, r).
     bind_r (db_Insert D s (NextTable w) key pairs) (\<lambda>(status, s). Inr (status = kOK, w, r, s))))"

text \<open>The \<open>switch\<close>; its \<open>default\<close> is unreachable, since every operation has a case.\<close>

definition transaction_of ::
  "operation \<Rightarrow> env \<Rightarrow> 's db_class \<Rightarrow> workload \<Rightarrow> rng \<Rightarrow> 's \<Rightarrow> 's client_result" where
  "transaction_of op =
     (case op of
        READ \<Rightarrow> TransactionRead
      | UPDATE \<Rightarrow> TransactionUpdate
      | DELETE \<Rightarrow> TransactionDelete
      | INSERT \<Rightarrow> TransactionInsert
      | SCAN \<Rightarrow> TransactionScan
      | READMODIFYWRITE \<Rightarrow> TransactionReadModifyWrite)"

definition DoTransaction ::
  "env \<Rightarrow> 's db_class \<Rightarrow> workload \<Rightarrow> rng \<Rightarrow> 's \<Rightarrow> stop + (bool \<times> workload \<times> rng \<times> 's)" where
  "DoTransaction E D w r s =
     bind_r (NextOperation E w r) (\<lambda>(op, w, r).
     bind_r (transaction_of op E D w r s) (\<lambda>(status, w, r, s).
     bind_r (cassert (ndebug E) (0 \<le> status)) (\<lambda>_. Inr (status = kOK, w, r, s))))"

section \<open>What the operations leave alone\<close>

text \<open>The settings of a workload: everything but its generators and the operation chooser.\<close>

definition settings :: "workload \<Rightarrow> string \<times> int \<times> bool \<times> bool \<times> counter \<times> bool \<times> u64 \<times> int" where
  "settings w =
     (w_table_name w, w_field_count w, w_read_all_fields w, w_write_all_fields w,
      w_insert_key_sequence w, w_ordered_inserts w, w_record_count w, w_zero_padding w)"

lemma settings_update [simp]:
  "settings (w\<lparr>w_key_chooser := g\<rparr>) = settings w"
  "settings (w\<lparr>w_key_generator := g\<rparr>) = settings w"
  "settings (w\<lparr>w_field_chooser := g\<rparr>) = settings w"
  "settings (w\<lparr>w_scan_len_chooser := g\<rparr>) = settings w"
  "settings (w\<lparr>w_field_len_generator := g\<rparr>) = settings w"
  "settings (w\<lparr>w_op_chooser := d\<rparr>) = settings w"
  by (simp_all add: settings_def)

lemma next_value_settings: "next_value E w r = Inr (v, w', r') \<Longrightarrow> settings w' = settings w"
  by (auto simp: next_value_def RandomPrintChar_def bind_r_eq_Inr)

lemma values_loop_settings:
  "values_loop E is kvs w r = Inr (kvs', w', r') \<Longrightarrow> settings w' = settings w"
  by (induction "is" arbitrary: kvs w r)
    (auto simp: bind_r_eq_Inr dest: next_value_settings)

lemma workload_settings:
  "NextSequenceKey E w r = Inr (k, w', r') \<Longrightarrow> settings w' = settings w"
  "NextTransactionKey E w r = Inr (k, w', r') \<Longrightarrow> settings w' = settings w"
  "NextOperation E w r = Inr (op, w', r') \<Longrightarrow> settings w' = settings w"
  "NextFieldName E w r = Inr (f, w', r') \<Longrightarrow> settings w' = settings w"
  "NextScanLength E w r = Inr (n, w', r') \<Longrightarrow> settings w' = settings w"
  "BuildValues E kvs w r = Inr (kvs', w', r') \<Longrightarrow> settings w' = settings w"
  "BuildUpdate E kvs w r = Inr (kvs', w', r') \<Longrightarrow> settings w' = settings w"
  by (auto simp: NextSequenceKey_def NextTransactionKey_def NextOperation_def NextFieldName_def
      NextScanLength_def BuildValues_def BuildUpdate_def bind_r_eq_Inr
      dest: values_loop_settings next_value_settings)

lemma choose_settings:
  "choose_fields E w r = Inr (fs, w', r') \<Longrightarrow> settings w' = settings w"
  "choose_values E w r = Inr (kvs, w', r') \<Longrightarrow> settings w' = settings w"
  by (auto simp: choose_fields_def choose_values_def bind_r_eq_Inr dest: workload_settings
      split: if_splits)

lemma transaction_settings:
  assumes "transaction_of op E D w r s = Inr (st, w', r', s')"
  shows "settings w' = settings w"
  using assms
  by (cases op) (auto simp: transaction_of_def TransactionRead_def TransactionUpdate_def
      TransactionDelete_def TransactionInsert_def TransactionScan_def
      TransactionReadModifyWrite_def bind_r_eq_Inr Let_def
      dest!: workload_settings choose_settings)

lemma DoTransaction_settings:
  "DoTransaction E D w r s = Inr (b, w', r', s') \<Longrightarrow> settings w' = settings w"
  by (auto simp: DoTransaction_def bind_r_eq_Inr dest!: workload_settings transaction_settings)

lemma DoInsert_settings:
  "DoInsert E D w r s = Inr (b, w', r', s') \<Longrightarrow> settings w' = settings w"
  by (auto simp: DoInsert_def bind_r_eq_Inr dest!: workload_settings)

end
