(* ===== verification/Client_Facts.thy ===== *)
theory Client_Facts
  imports Client
begin

text \<open>
  The client over any database that meets the contract \<open>kv_db\<close>: on a workload that is
  ready, every operation returns, no assertion fails, and unless records are deleted
  every operation succeeds.
\<close>

section \<open>Ready workloads\<close>

text \<open>
  A workload on which no generator can fail: the operation table never runs past its
  end, the loop of the key chooser ends, field lengths are constant and
  not negative, and scan lengths are a range of positive \<open>int\<close> values.
\<close>

definition scan_lengths_ok :: "gen \<Rightarrow> bool" where
  "scan_lengths_ok g \<longleftrightarrow>
     (case g of Uniform_Gen u \<Rightarrow> uniform_ok u \<and> u_max u \<le> 0x7FFFFFFF | _ \<Rightarrow> False)"

definition wl_ready :: "env \<Rightarrow> workload \<Rightarrow> bool" where
  "wl_ready E w \<longleftrightarrow>
     draws_ok E \<and> padding_ok w \<and> mix_safe (w_op_chooser w) \<and>
     chooser_returns E (w_insert_key_sequence w) (w_key_chooser w) \<and>
     (case w_key_generator w of Counter_Gen _ \<Rightarrow> True | _ \<Rightarrow> False) \<and>
     (case w_field_len_generator w of Const_Gen g \<Rightarrow> const_val g \<le> 0x7FFFFFFFFFFFFFFF | _ \<Rightarrow> False) \<and>
     (case w_field_chooser w of Uniform_Gen _ \<Rightarrow> True | _ \<Rightarrow> False) \<and>
     scan_lengths_ok (w_scan_len_chooser w)"

lemma ready_parts:
  assumes "wl_ready E w"
  shows "draws_ok E" "padding_ok w" "mix_safe (w_op_chooser w)"
    and "chooser_returns E (w_insert_key_sequence w) (w_key_chooser w)"
    and "\<exists>c. w_key_generator w = Counter_Gen c"
    and "\<exists>g. w_field_len_generator w = Const_Gen g \<and> const_val g \<le> 0x7FFFFFFFFFFFFFFF"
    and "\<exists>g. w_field_chooser w = Uniform_Gen g"
    and "\<exists>u. w_scan_len_chooser w = Uniform_Gen u \<and> uniform_ok u \<and> u_max u \<le> 0x7FFFFFFF"
  using assms by (auto simp: wl_ready_def scan_lengths_ok_def split: gen.splits)

lemma padding_ok_more [simp]:
  "padding_ok (w\<lparr>w_op_chooser := d\<rparr>) = padding_ok w"
  "padding_ok (w\<lparr>w_field_chooser := g\<rparr>) = padding_ok w"
  "padding_ok (w\<lparr>w_scan_len_chooser := g\<rparr>) = padding_ok w"
  by (simp_all add: padding_ok_def)

lemma ready_key_chooser:
  "wl_ready E w \<Longrightarrow> chooser_returns E (w_insert_key_sequence w) g \<Longrightarrow>
   wl_ready E (w\<lparr>w_key_chooser := g\<rparr>)"
  by (simp add: wl_ready_def)

text \<open>What two states of one workload share: its settings, table of operations and value lengths.\<close>

definition same_run :: "workload \<Rightarrow> workload \<Rightarrow> bool" where
  "same_run w w' \<longleftrightarrow>
     settings w' = settings w \<and> w_field_len_generator w' = w_field_len_generator w \<and>
     d_values (w_op_chooser w') = d_values (w_op_chooser w)"

lemma same_run_refl [simp]: "same_run w w"
  by (simp add: same_run_def)

lemma same_run_trans [trans]: "same_run u v \<Longrightarrow> same_run v w \<Longrightarrow> same_run u w"
  by (simp add: same_run_def)

lemma NextOperation_ready:
  assumes "wl_ready E w"
  shows "\<exists>op w' r'. NextOperation E w r = Inr (op, w', r') \<and> wl_ready E w' \<and> same_run w w' \<and>
    op \<in> fst ` set (d_values (w_op_chooser w))"
proof -
  have s: "unit_quotients (d_sum (w_op_chooser w)) (d_values (w_op_chooser w))"
    "choose_loop (d_sum (w_op_chooser w)) (Fin (1 - 1 / 2 ^ 53)) (d_values (w_op_chooser w)) \<noteq> None"
    using ready_parts(3) [OF assms] unfolding mix_safe_def by blast+
  obtain op where "discrete_next E (w_op_chooser w) r =
      Inr (op, (w_op_chooser w)\<lparr>d_last := op\<rparr>, r\<lparr>canon_pos := Suc (canon_pos r)\<rparr>)"
    "op \<in> fst ` set (d_values (w_op_chooser w))"
    using discrete_next_total_aux [OF ready_parts(1) [OF assms] s] by blast
  moreover have "wl_ready E (w\<lparr>w_op_chooser := (w_op_chooser w)\<lparr>d_last := op\<rparr>\<rparr>)"
    using assms s unfolding wl_ready_def mix_safe_def by simp
  ultimately show ?thesis by (simp add: NextOperation_def same_run_def)
qed

lemma NextTransactionKey_ready:
  assumes "wl_ready E w"
  shows "\<exists>k name w' r'. NextTransactionKey E w r = Inr (name, w', r') \<and> wl_ready E w' \<and>
    same_run w w' \<and> BuildKeyName w k = Inr name \<and> k \<le> counter_last (w_insert_key_sequence w)"
proof -
  obtain k s g r' where "NextTransactionKey E w r = Inr (s, w\<lparr>w_key_chooser := g\<rparr>, r')"
    "BuildKeyName w k = Inr s" "k \<le> counter_last (w_insert_key_sequence w)"
    "chooser_returns E (w_insert_key_sequence w) g"
    using transaction_key_step [OF ready_parts(2) [OF assms] ready_parts(4) [OF assms]] by blast
  with ready_key_chooser [OF assms] show ?thesis by (auto simp: same_run_def)
qed

lemma NextSequenceKey_ready:
  assumes "wl_ready E w" "w_key_generator w = Counter_Gen c"
  shows "\<exists>name w'. NextSequenceKey E w r = Inr (name, w', r) \<and> wl_ready E w' \<and> same_run w w' \<and>
    BuildKeyName w (counter_val c) = Inr name \<and>
    w_key_generator w' = Counter_Gen (counter_new (counter_val c + 1))"
  using sequence_key_step [OF ready_parts(2) [OF assms(1)] assms(2), of E r] assms(1)
  by (auto simp: same_run_def wl_ready_def)

lemma NextScanLength_ready:
  assumes "wl_ready E w"
  shows "\<exists>n w' r'. NextScanLength E w r = Inr (n, w', r') \<and> wl_ready E w' \<and> same_run w w' \<and>
    n \<le> 0x7FFFFFFF"
proof -
  obtain u where u: "w_scan_len_chooser w = Uniform_Gen u" "uniform_ok u" "u_max u \<le> 0x7FFFFFFF"
    using ready_parts(8) [OF assms] by blast
  have r: "uid (u_min u) (u_max u) (mt64 E (u_pos u)) \<le> u_max u"
    using uid_range [of "u_min u" "u_max u"] u(2) by (simp add: uniform_ok_def)
  have "uid (u_min u) (u_max u) (mt64 E (u_pos u)) \<le> 0x7FFFFFFF" using r u(3) by (rule order_trans)
  with u assms show ?thesis
    by (auto simp: NextScanLength_def uniform_next_def Let_def same_run_def wl_ready_def
        scan_lengths_ok_def uniform_ok_def)
qed

lemma choose_fields_ready:
  assumes "wl_ready E w"
  shows "\<exists>fs w' r'. choose_fields E w r = Inr (fs, w', r') \<and> wl_ready E w' \<and> same_run w w'"
proof -
  obtain g where "w_field_chooser w = Uniform_Gen g" using ready_parts(7) [OF assms] by blast
  with assms show ?thesis
    by (auto simp: choose_fields_def NextFieldName_def uniform_next_def Let_def same_run_def
        wl_ready_def)
qed

text \<open>The values written: a first one of the constant length, if the record has a field.\<close>

definition value_len :: "workload \<Rightarrow> nat" where
  "value_len w = (case w_field_len_generator w of Const_Gen g \<Rightarrow> unat (const_val g) | _ \<Rightarrow> 0)"

lemma next_value_ready:
  assumes "w_field_len_generator w = Const_Gen g" "const_val g \<le> 0x7FFFFFFFFFFFFFFF"
  shows "\<exists>v r'. next_value E w r = Inr (v, w, r') \<and> length v = unat (const_val g)"
proof -
  have "w\<lparr>w_field_len_generator := Const_Gen g\<rparr> = w" using assms(1) by (cases w) simp
  with assms show ?thesis
    by (auto simp: next_value_def append_fill_def const_next_def RandomPrintChar_def not_less)
qed

lemma values_loop_ready:
  assumes "w_field_len_generator w = Const_Gen g" "const_val g \<le> 0x7FFFFFFFFFFFFFFF"
  shows "\<exists>vs r'. values_loop E is kvs w r = Inr (kvs @ vs, w, r') \<and> length vs = length is \<and>
    (\<forall>kv \<in> set vs. length (snd kv) = unat (const_val g))"
proof (induction "is" arbitrary: kvs r)
  case (Cons i "is")
  obtain v r1 where v: "next_value E w r = Inr (v, w, r1)" "length v = unat (const_val g)"
    using next_value_ready [OF assms] by blast
  with Cons [of "kvs @ [(''field'' @ dec_string i, v)]" r1] show ?case by fastforce
qed simp

lemma BuildValues_ready:
  assumes "wl_ready E w"
  shows "\<exists>vs r'. BuildValues E [] w r = Inr (vs, w, r') \<and>
    (1 \<le> w_field_count w \<longrightarrow> length (first_value vs) = value_len w)"
proof -
  obtain g where g: "w_field_len_generator w = Const_Gen g" "const_val g \<le> 0x7FFFFFFFFFFFFFFF"
    using ready_parts(6) [OF assms] by blast
  from values_loop_ready [OF g, of E "[0..<nat (w_field_count w)]" "[]" r]
  obtain vs r' where v: "BuildValues E [] w r = Inr (vs, w, r')" "length vs = nat (w_field_count w)"
    "\<forall>kv \<in> set vs. length (snd kv) = unat (const_val g)" by (auto simp: BuildValues_def)
  have "length (first_value vs) = value_len w" if "1 \<le> w_field_count w"
    using v(2,3) that g(1) by (cases vs) (auto simp: first_value_def value_len_def)
  with v(1) show ?thesis by blast
qed

lemma choose_values_ready:
  assumes "wl_ready E w"
  shows "\<exists>vs w' r'. choose_values E w r = Inr (vs, w', r') \<and> wl_ready E w' \<and> same_run w w' \<and>
    (1 \<le> w_field_count w \<longrightarrow> length (first_value vs) = value_len w)"
proof (cases "w_write_all_fields w")
  case True
  with BuildValues_ready [OF assms, of r] assms show ?thesis by (fastforce simp: choose_values_def)
next
  case False
  obtain u where u: "w_field_chooser w = Uniform_Gen u" using ready_parts(7) [OF assms] by blast
  obtain g where g: "w_field_len_generator w = Const_Gen g" "const_val g \<le> 0x7FFFFFFFFFFFFFFF"
    using ready_parts(6) [OF assms] by blast
  obtain f u' where f: "NextFieldName E w r = Inr (f, w\<lparr>w_field_chooser := Uniform_Gen u'\<rparr>, r)"
    by (auto simp: NextFieldName_def u uniform_next_def Let_def)
  let ?w = "w\<lparr>w_field_chooser := Uniform_Gen u'\<rparr>"
  have g': "w_field_len_generator ?w = Const_Gen g" using g(1) by simp
  obtain v r' where "next_value E ?w r = Inr (v, ?w, r')" "length v = unat (const_val g)"
    using next_value_ready [OF g' g(2)] by blast
  moreover have "wl_ready E ?w" using assms by (simp add: wl_ready_def)
  ultimately show ?thesis using False f g(1)
    by (auto simp: choose_values_def BuildUpdate_def same_run_def first_value_def value_len_def)
qed

section \<open>One operation\<close>

text \<open>
  \<open>present w m\<close>: every key a transaction can pick names a record with a value that does
  not read as missing.
\<close>

definition present :: "workload \<Rightarrow> (string \<rightharpoonup> string) \<Rightarrow> bool" where
  "present w m \<longleftrightarrow> (\<forall>k name. k \<le> counter_last (w_insert_key_sequence w) \<longrightarrow>
     BuildKeyName w k = Inr name \<longrightarrow> (\<exists>v. m name = Some v \<and> v \<noteq> []))"

lemma present_upd: "present w m \<Longrightarrow> v \<noteq> [] \<Longrightarrow> present w (m(k \<mapsto> v))"
  by (auto simp: present_def)

lemma same_run_seq: "same_run w w' \<Longrightarrow> w_insert_key_sequence w' = w_insert_key_sequence w"
  by (simp add: same_run_def settings_def)

lemma same_run_name: "same_run w w' \<Longrightarrow> BuildKeyName w' k = BuildKeyName w k"
  by (rule BuildKeyName_cong) (simp_all add: same_run_def settings_def)

lemma same_run_present: "same_run w w' \<Longrightarrow> present w' m = present w m"
  by (simp add: present_def same_run_seq same_run_name)

lemma same_run_values:
  "same_run w w' \<Longrightarrow> w_field_count w' = w_field_count w \<and> value_len w' = value_len w"
  by (simp add: same_run_def settings_def value_len_def)

text \<open>Records are not empty: there is a field, and values have a positive length.\<close>

definition nonempty_values :: "workload \<Rightarrow> bool" where
  "nonempty_values w \<longleftrightarrow> 1 \<le> w_field_count w \<and> 0 < value_len w"

lemma int_of_size_small:
  assumes "n \<le> 0x7FFFFFFF"
  shows "0 \<le> int_of_size n \<and> int_of_size n \<le> int_max"
proof -
  have n: "uint n \<le> 2147483647" using assms by (simp add: word_le_def)
  have "uint (ucast n :: 32 word) = uint n mod 4294967296" by (simp add: unsigned_ucast_eq take_bit_eq_mod)
  also have "\<dots> = uint n" using n by simp
  finally have u: "uint (ucast n :: 32 word) = uint n" .
  have "sint (ucast n :: 32 word) = uint (ucast n :: 32 word)"
  proof -
    have "- (2 ^ 31) \<le> uint n" by (rule order_trans [of _ 0]) simp_all
    then have "signed_take_bit 31 (uint n) = uint n"
      using n by (intro signed_take_bit_int_eq_self) simp_all
    then show ?thesis by (simp add: sint_uint u)
  qed
  with u n show ?thesis by (simp add: int_of_size_def int_max_def)
qed

text \<open>
  The result of an operation in the contract: it returns with a status that is not
  negative, the database still meets the contract, and unless the operation deletes,
  its status is \<open>kOK\<close> and all keys stay present, if they were and values are not empty.
\<close>

definition good_result ::
  "('s \<Rightarrow> string \<rightharpoonup> string) \<Rightarrow> ('s \<Rightarrow> bool) \<Rightarrow> env \<Rightarrow> workload \<Rightarrow> 's \<Rightarrow> bool \<Rightarrow>
    's client_result \<Rightarrow> bool" where
  "good_result content ok E w s keeps res \<longleftrightarrow>
     (\<exists>st w' r' s'. res = Inr (st, w', r', s') \<and> 0 \<le> st \<and> wl_ready E w' \<and> same_run w w' \<and> ok s' \<and>
       (keeps \<and> nonempty_values w \<and> present w (content s) \<longrightarrow>
          st = kOK \<and> present w (content s')))"

context kv_db
begin

lemma read_cases:
  assumes "ok s"
  shows "\<exists>st row s'. db_Read D s t k fs res = Inr (st, row, s') \<and> 0 \<le> st \<and> ok s' \<and>
    content s' = content s \<and> ((\<exists>v. content s k = Some v \<and> v \<noteq> []) \<longrightarrow> st = kOK)"
  using read_law [OF assms, of t k fs res]
  by (force simp: read_answer_def kOK_def kErrorNoData_def split: option.splits)

lemma scan_cases:
  assumes "ok s" "0 \<le> n" "n \<le> int_max"
  shows "\<exists>rows s'. db_Scan D s t k n fs [] = Inr (kOK, rows, s') \<and> ok s' \<and> content s' = content s"
  using scan_law [OF assms(1), of t k n fs "[]"] assms(2,3) by auto

lemma kOK_nonneg [simp]: "0 \<le> kOK"
  by (simp add: kOK_def)

lemma read_good:
  assumes "wl_ready E w" "ok s"
  shows "good_result content ok E w s True (TransactionRead E D w r s)"
proof -
  obtain k name w1 r1 where n: "NextTransactionKey E w r = Inr (name, w1, r1)" "wl_ready E w1"
    "same_run w w1" "BuildKeyName w k = Inr name" "k \<le> counter_last (w_insert_key_sequence w)"
    using NextTransactionKey_ready [OF assms(1)] by blast
  obtain fs w2 r2 where f: "choose_fields E w1 r1 = Inr (fs, w2, r2)" "wl_ready E w2" "same_run w1 w2"
    using choose_fields_ready [OF n(2)] by blast
  obtain st row s' where d: "db_Read D s (NextTable w) name fs [] = Inr (st, row, s')" "0 \<le> st" "ok s'"
    "content s' = content s" "(\<exists>v. content s name = Some v \<and> v \<noteq> []) \<longrightarrow> st = kOK"
    using read_cases [OF assms(2)] by blast
  have "TransactionRead E D w r s = Inr (st, w2, r2, s')"
    using n(1) f(1) d(1) by (simp add: TransactionRead_def Let_def)
  moreover have "present w (content s) \<Longrightarrow> st = kOK" using d(5) n(4,5) by (auto simp: present_def)
  ultimately show ?thesis
    using d f n same_run_trans [OF n(3) f(3)] by (auto simp: good_result_def)
qed

lemma update_good:
  assumes "wl_ready E w" "ok s"
  shows "good_result content ok E w s True (TransactionUpdate E D w r s)"
proof -
  obtain k name w1 r1 where n: "NextTransactionKey E w r = Inr (name, w1, r1)" "wl_ready E w1"
    "same_run w w1"
    using NextTransactionKey_ready [OF assms(1)] by blast
  obtain vs w2 r2 where v: "choose_values E w1 r1 = Inr (vs, w2, r2)" "wl_ready E w2" "same_run w1 w2"
    "1 \<le> w_field_count w1 \<longrightarrow> length (first_value vs) = value_len w1"
    using choose_values_ready [OF n(2)] by blast
  obtain s' where d: "db_Update D s (NextTable w) name vs = Inr (kOK, s')" "ok s'"
    "content s' = (content s)(name \<mapsto> first_value vs)"
    using update_law [OF assms(2)] by blast
  have "TransactionUpdate E D w r s = Inr (kOK, w2, r2, s')"
    using n(1) v(1) d(1) by (simp add: TransactionUpdate_def Let_def)
  moreover have "nonempty_values w \<Longrightarrow> first_value vs \<noteq> []"
    using v(4) same_run_values [OF n(3)] by (auto simp: nonempty_values_def)
  ultimately show ?thesis
    using d v n same_run_trans [OF n(3) v(3)] by (auto simp: good_result_def intro: present_upd)
qed

lemma rmw_good:
  assumes "wl_ready E w" "ok s"
  shows "good_result content ok E w s True (TransactionReadModifyWrite E D w r s)"
proof -
  obtain k name w1 r1 where n: "NextTransactionKey E w r = Inr (name, w1, r1)" "wl_ready E w1"
    "same_run w w1"
    using NextTransactionKey_ready [OF assms(1)] by blast
  obtain fs w2 r2 where f: "choose_fields E w1 r1 = Inr (fs, w2, r2)" "wl_ready E w2" "same_run w1 w2"
    using choose_fields_ready [OF n(2)] by blast
  obtain st row s1 where d: "db_Read D s (NextTable w) name fs [] = Inr (st, row, s1)" "ok s1"
    "content s1 = content s"
    using read_cases [OF assms(2)] by blast
  have s2: "same_run w w2" using n(3) f(3) by (rule same_run_trans)
  obtain vs w3 r3 where v: "choose_values E w2 r2 = Inr (vs, w3, r3)" "wl_ready E w3" "same_run w2 w3"
    "1 \<le> w_field_count w2 \<longrightarrow> length (first_value vs) = value_len w2"
    using choose_values_ready [OF f(2)] by blast
  obtain s' where u: "db_Update D s1 (NextTable w) name vs = Inr (kOK, s')" "ok s'"
    "content s' = (content s1)(name \<mapsto> first_value vs)"
    using update_law [OF d(2)] by blast
  have "TransactionReadModifyWrite E D w r s = Inr (kOK, w3, r3, s')"
    using n(1) f(1) d(1) v(1) u(1) by (simp add: TransactionReadModifyWrite_def Let_def)
  moreover have "nonempty_values w \<Longrightarrow> first_value vs \<noteq> []"
    using v(4) same_run_values [OF s2] by (auto simp: nonempty_values_def)
  ultimately show ?thesis
    using d u v same_run_trans [OF s2 v(3)] by (auto simp: good_result_def intro: present_upd)
qed

lemma scan_good:
  assumes "wl_ready E w" "ok s"
  shows "good_result content ok E w s True (TransactionScan E D w r s)"
proof -
  obtain k name w1 r1 where n: "NextTransactionKey E w r = Inr (name, w1, r1)" "wl_ready E w1"
    "same_run w w1"
    using NextTransactionKey_ready [OF assms(1)] by blast
  obtain m w2 r2 where l: "NextScanLength E w1 r1 = Inr (m, w2, r2)" "wl_ready E w2" "same_run w1 w2"
    "m \<le> 0x7FFFFFFF"
    using NextScanLength_ready [OF n(2)] by blast
  obtain fs w3 r3 where f: "choose_fields E w2 r2 = Inr (fs, w3, r3)" "wl_ready E w3" "same_run w2 w3"
    using choose_fields_ready [OF l(2)] by blast
  obtain rows s' where d: "db_Scan D s (NextTable w) name (int_of_size m) fs [] = Inr (kOK, rows, s')"
    "ok s'" "content s' = content s"
    using scan_cases [OF assms(2)] int_of_size_small [OF l(4)] by blast
  have "TransactionScan E D w r s = Inr (kOK, w3, r3, s')"
    using n(1) l(1) f(1) d(1) by (simp add: TransactionScan_def Let_def)
  moreover have "same_run w w3" using n(3) l(3) f(3) same_run_trans by blast
  ultimately show ?thesis using d f by (auto simp: good_result_def)
qed

lemma insert_good:
  assumes "wl_ready E w" "ok s"
  shows "good_result content ok E w s True (TransactionInsert E D w r s)"
proof -
  obtain c where c: "w_key_generator w = Counter_Gen c" using ready_parts(5) [OF assms(1)] by blast
  obtain name w1 where n: "NextSequenceKey E w r = Inr (name, w1, r)" "wl_ready E w1" "same_run w w1"
    using NextSequenceKey_ready [OF assms(1) c] by blast
  obtain vs r2 where v: "BuildValues E [] w1 r = Inr (vs, w1, r2)"
    "1 \<le> w_field_count w1 \<longrightarrow> length (first_value vs) = value_len w1"
    using BuildValues_ready [OF n(2)] by blast
  obtain s' where d: "db_Insert D s (NextTable w) name vs = Inr (kOK, s')" "ok s'"
    "content s' = (content s)(name \<mapsto> first_value vs)"
    using insert_map [OF assms(2)] by blast
  have "TransactionInsert E D w r s = Inr (kOK, w1, r2, s')"
    using n(1) v(1) d(1) by (simp add: TransactionInsert_def Let_def)
  moreover have "nonempty_values w \<Longrightarrow> first_value vs \<noteq> []"
    using v(2) same_run_values [OF n(3)] by (auto simp: nonempty_values_def)
  ultimately show ?thesis
    using d n by (auto simp: good_result_def intro: present_upd)
qed

lemma delete_good:
  assumes "wl_ready E w" "ok s"
  shows "good_result content ok E w s False (TransactionDelete E D w r s)"
proof -
  obtain k name w1 r1 where n: "NextTransactionKey E w r = Inr (name, w1, r1)" "wl_ready E w1"
    "same_run w w1"
    using NextTransactionKey_ready [OF assms(1)] by blast
  obtain s' where d: "db_Delete D s (NextTable w) name = Inr (kOK, s')" "ok s'"
    using delete_law [OF assms(2)] by blast
  have "TransactionDelete E D w r s = Inr (kOK, w1, r1, s')"
    using n(1) d(1) by (simp add: TransactionDelete_def Let_def)
  with d n show ?thesis by (auto simp: good_result_def)
qed

lemma transaction_good:
  assumes "wl_ready E w" "ok s"
  shows "good_result content ok E w s (op \<noteq> DELETE) (transaction_of op E D w r s)"
  using read_good [OF assms] update_good [OF assms] rmw_good [OF assms] scan_good [OF assms]
    insert_good [OF assms] delete_good [OF assms]
  by (cases op) (simp_all add: transaction_of_def)

text \<open>One transaction: it returns, and is counted as successful unless records are deleted.\<close>

lemma DoTransaction_good:
  assumes "wl_ready E w" "ok s"
  shows "\<exists>b w' r' s'. DoTransaction E D w r s = Inr (b, w', r', s') \<and> wl_ready E w' \<and>
    same_run w w' \<and> ok s' \<and>
    (DELETE \<notin> fst ` set (d_values (w_op_chooser w)) \<and> nonempty_values w \<and> present w (content s) \<longrightarrow>
       b \<and> present w (content s'))"
proof -
  obtain op w1 r1 where o: "NextOperation E w r = Inr (op, w1, r1)" "wl_ready E w1" "same_run w w1"
    "op \<in> fst ` set (d_values (w_op_chooser w))"
    using NextOperation_ready [OF assms(1)] by blast
  obtain st w2 r2 s' where t: "transaction_of op E D w1 r1 s = Inr (st, w2, r2, s')" "0 \<le> st"
    "wl_ready E w2" "same_run w1 w2" "ok s'"
    "op \<noteq> DELETE \<and> nonempty_values w1 \<and> present w1 (content s) \<longrightarrow> st = kOK \<and> present w1 (content s')"
    using transaction_good [OF o(2) assms(2), of op r1] unfolding good_result_def by blast
  have e: "DoTransaction E D w r s = Inr (st = kOK, w2, r2, s')"
    using o(1) t(1,2) by (simp add: DoTransaction_def)
  have "nonempty_values w1 = nonempty_values w"
    using same_run_values [OF o(3)] by (simp add: nonempty_values_def)
  with t(6) o(4) have "DELETE \<notin> fst ` set (d_values (w_op_chooser w)) \<and> nonempty_values w \<and>
      present w (content s) \<longrightarrow> st = kOK \<and> present w (content s')"
    unfolding same_run_present [OF o(3)] by blast
  with e t(3,5) same_run_trans [OF o(3) t(4)] show ?thesis by blast
qed

text \<open>One load insert: it succeeds and stores the record of the next key.\<close>

lemma DoInsert_good:
  assumes "wl_ready E w" "ok s" "w_key_generator w = Counter_Gen c"
  shows "\<exists>name v w' r' s'. DoInsert E D w r s = Inr (True, w', r', s') \<and> wl_ready E w' \<and>
    same_run w w' \<and> ok s' \<and> w_key_generator w' = Counter_Gen (counter_new (counter_val c + 1)) \<and>
    BuildKeyName w (counter_val c) = Inr name \<and> content s' = (content s)(name \<mapsto> v) \<and>
    (nonempty_values w \<longrightarrow> v \<noteq> [])"
proof -
  obtain name w1 where n: "NextSequenceKey E w r = Inr (name, w1, r)" "wl_ready E w1" "same_run w w1"
    "BuildKeyName w (counter_val c) = Inr name"
    "w_key_generator w1 = Counter_Gen (counter_new (counter_val c + 1))"
    using NextSequenceKey_ready [OF assms(1,3)] by blast
  obtain vs r2 where v: "BuildValues E [] w1 r = Inr (vs, w1, r2)"
    "1 \<le> w_field_count w1 \<longrightarrow> length (first_value vs) = value_len w1"
    using BuildValues_ready [OF n(2)] by blast
  obtain s' where d: "db_Insert D s (NextTable w1) name vs = Inr (kOK, s')" "ok s'"
    "content s' = (content s)(name \<mapsto> first_value vs)"
    using insert_map [OF assms(2)] by blast
  have "DoInsert E D w r s = Inr (True, w1, r2, s')"
    using n(1) v(1) d(1) by (simp add: DoInsert_def)
  moreover have "nonempty_values w \<Longrightarrow> first_value vs \<noteq> []"
    using v(2) same_run_values [OF n(3)] by (auto simp: nonempty_values_def)
  ultimately show ?thesis using d n by blast
qed

end

end
