(* ===== verification/Driver.thy ===== *)
theory Driver
  imports Client_Facts Timer
begin

text \<open>
  \<open>ycsbc.cc\<close>: the command line, the client loop and \<open>main\<close>.  The program's output is a
  list of events.  A run that stops early is the events printed so far and the reason.
  Files are a map from names to contents; the clock is a parameter.

  The threads of a phase share the workload and the database.  Here one iteration of a
  client loop is one step, and a schedule says which thread steps next; threads left
  over at its end finish one after the other, so every order of whole iterations is
  the order of some schedule.
\<close>

section \<open>Output\<close>

text \<open>
  \<open>Usage\<close> has the lines of the usage message; \<open>Loading_Records\<close> and \<open>Throughput\<close> are the two
  reports on \<open>cerr\<close>, with the values they print.
\<close>

datatype event =
    Usage "string list"
  | Message string
  | Loading_Records int
  | Throughput string string int double

type_synonym 'a prog = "(event list \<times> stop) + 'a"

definition after :: "event list \<Rightarrow> stop + 'a \<Rightarrow> 'a prog" where
  "after evs m = (case m of Inl e \<Rightarrow> Inl (evs, e) | Inr x \<Rightarrow> Inr x)"

lemma after_simps [simp]: "after evs (Inl e) = Inl (evs, e)" "after evs (Inr x) = Inr x"
  by (simp_all add: after_def)

section \<open>The command line\<close>

definition StrStartWith :: "string \<Rightarrow> string \<Rightarrow> bool" where
  "StrStartWith str pre \<longleftrightarrow> take (length pre) str = pre"

definition usage_lines :: "string \<Rightarrow> string list" where
  "usage_lines command =
     [''Usage: '' @ command @ '' [options]'',
      ''Options:'',
      ''  -threads n: execute using n threads (default: 1)'',
      ''  -db dbname: specify the name of the DB to use (default: basic)'',
      ''  -P propertyfile: load properties from the given file. Multiple files can'',
      ''                   be specified, and will be processed in the order specified'',
      ''  -p name=value: specify a property value on the command line'',
      ''  -load/-run: perform only the load phase or only the run phase (default: do both)'']"

definition UsageMessage :: "string list \<Rightarrow> 'a prog" where
  "UsageMessage argv =
     (case argv of [] \<Rightarrow> Inl ([], Undefined) | c # _ \<Rightarrow> Inl ([Usage (usage_lines c)], Exit_With 0))"

record options =
  op_props :: properties
  op_load :: bool
  op_run :: bool
  op_filename :: string

text \<open>
  The body of the loop on \<open>argv[argindex]\<close>: the options and the next index.  The \<open>catch\<close>
  around \<open>Load\<close> is for \<open>std::string\<close>, which \<open>Load\<close> does not throw.
\<close>

definition parse_option ::
  "(string \<Rightarrow> string option) \<Rightarrow> string list \<Rightarrow> nat \<Rightarrow> options \<Rightarrow> (options \<times> nat) prog" where
  "parse_option files argv i opts =
     (if argv ! i = ''-threads'' then
        if i + 1 \<ge> length argv then UsageMessage argv
        else Inr (opts\<lparr>op_props := SetProperty (op_props opts) ''threadcount'' (argv ! (i + 1))\<rparr>, i + 2)
      else if argv ! i = ''-db'' then
        if i + 1 \<ge> length argv then UsageMessage argv
        else Inr (opts\<lparr>op_props := SetProperty (op_props opts) ''dbname'' (argv ! (i + 1))\<rparr>, i + 2)
      else if argv ! i = ''-P'' then
        if i + 1 \<ge> length argv then UsageMessage argv
        else
          bind_r (after [] (Load (op_props opts) (files (argv ! (i + 1))))) (\<lambda>p.
          Inr (opts\<lparr>op_props := p, op_filename := argv ! (i + 1)\<rparr>, i + 2))
      else if argv ! i = ''-load'' then Inr (opts\<lparr>op_load := True\<rparr>, i + 1)
      else if argv ! i = ''-run'' then Inr (opts\<lparr>op_run := True\<rparr>, i + 1)
      else if argv ! i = ''-p'' then
        if i + 1 \<ge> length argv then UsageMessage argv
        else
          (let prop = argv ! (i + 1)
           in case find_char CHR ''='' prop of
                None \<Rightarrow> Inl ([Message ''Argument for -p must be in key=value format''], Exit_With 0)
              | Some eqpos \<Rightarrow>
                  Inr (opts\<lparr>op_props := SetProperty (op_props opts) (take eqpos prop) (drop (eqpos + 1) prop)\<rparr>,
                       i + 2))
      else Inl ([Message (''Unknown option '' @ [CHR 0x27] @ argv ! i @ [CHR 0x27])], Exit_With 0))"

lemma UsageMessage_not_Inr [simp]: "UsageMessage argv \<noteq> Inr x"
  by (simp add: UsageMessage_def split: list.splits)

lemma parse_option_next:
  "parse_option files argv i opts = Inr (opts', j) \<Longrightarrow> i < j"
  by (auto simp: parse_option_def bind_r_eq_Inr Let_def split: if_splits option.splits)

function parse_loop ::
  "(string \<Rightarrow> string option) \<Rightarrow> string list \<Rightarrow> nat \<Rightarrow> options \<Rightarrow> (options \<times> nat) prog" where
  "parse_loop files argv i opts =
     (if i < length argv \<and> StrStartWith (argv ! i) ''-''
      then bind_r (parse_option files argv i opts) (\<lambda>(opts, i). parse_loop files argv i opts)
      else Inr (opts, i))"
  by pat_completeness auto
termination
  by (relation "measure (\<lambda>(_, argv, i, _). length argv - i)")
    (auto dest: parse_option_next)

declare parse_loop.simps [simp del]

definition ParseCommandLine :: "(string \<Rightarrow> string option) \<Rightarrow> string list \<Rightarrow> options prog" where
  "ParseCommandLine files argv =
     bind_r (parse_loop files argv 1
       \<lparr>op_props = Map.empty, op_load = False, op_run = False, op_filename = []\<rparr>) (\<lambda>(opts, i).
     if i = 1 \<or> i \<noteq> length argv then UsageMessage argv else Inr opts)"

section \<open>The client loop\<close>

fun delegate_loop ::
  "env \<Rightarrow> 's db_class \<Rightarrow> bool \<Rightarrow> nat \<Rightarrow> int \<Rightarrow> workload \<Rightarrow> rng \<Rightarrow> 's \<Rightarrow>
    stop + (int \<times> workload \<times> rng \<times> 's)" where
  "delegate_loop E D is_loading 0 oks w r s = Inr (oks, w, r, s)"
| "delegate_loop E D is_loading (Suc n) oks w r s =
     bind_r (if is_loading then DoInsert E D w r s else DoTransaction E D w r s) (\<lambda>(b, w, r, s).
     delegate_loop E D is_loading n (oks + of_bool b) w r s)"

definition DelegateClient ::
  "env \<Rightarrow> 's db_class \<Rightarrow> int \<Rightarrow> bool \<Rightarrow> workload \<Rightarrow> rng \<Rightarrow> 's \<Rightarrow>
    stop + (int \<times> workload \<times> rng \<times> 's)" where
  "DelegateClient E D num_ops is_loading w r s =
     bind_r (delegate_loop E D is_loading (nat num_ops) 0 w r (db_Init D s)) (\<lambda>(oks, w, r, s).
     Inr (oks, w, r, db_Close D s))"

section \<open>Threads\<close>

text \<open>The iterations each thread has left, its successes so far, and the shared state.\<close>

record 's threads =
  th_todo :: "nat list"
  th_oks :: "int list"
  th_wl :: workload
  th_rng :: rng
  th_db :: 's

definition thread_step ::
  "env \<Rightarrow> 's db_class \<Rightarrow> bool \<Rightarrow> nat \<Rightarrow> 's threads \<Rightarrow> stop + 's threads" where
  "thread_step E D is_loading i t =
     (if i < length (th_todo t) \<and> 0 < th_todo t ! i
      then bind_r (if is_loading then DoInsert E D (th_wl t) (th_rng t) (th_db t)
                   else DoTransaction E D (th_wl t) (th_rng t) (th_db t)) (\<lambda>(b, w, r, s).
           Inr \<lparr>th_todo = (th_todo t)[i := th_todo t ! i - 1],
                th_oks = (th_oks t)[i := th_oks t ! i + of_bool b],
                th_wl = w, th_rng = r, th_db = s\<rparr>)
      else Inr t)"

fun run_schedule ::
  "env \<Rightarrow> 's db_class \<Rightarrow> bool \<Rightarrow> nat list \<Rightarrow> 's threads \<Rightarrow> stop + 's threads" where
  "run_schedule E D is_loading [] t = Inr t"
| "run_schedule E D is_loading (i # is) t =
     bind_r (thread_step E D is_loading i t) (\<lambda>t. run_schedule E D is_loading is t)"

text \<open>All that is left, thread by thread.\<close>

definition finish_schedule :: "nat list \<Rightarrow> nat list" where
  "finish_schedule todo = concat (map (\<lambda>i. replicate (todo ! i) i) [0..<length todo])"

text \<open>
  One phase: \<open>num_threads\<close> clients of \<open>total_ops / num_threads\<close> operations each, and the
  sum of their results.  C division rounds towards 0; it is evaluated only when there
  is a thread to start.
\<close>

definition c_div :: "int \<Rightarrow> int \<Rightarrow> int" where
  "c_div a b = sgn a * sgn b * (\<bar>a\<bar> div \<bar>b\<bar>)"

definition run_phase ::
  "env \<Rightarrow> 's db_class \<Rightarrow> bool \<Rightarrow> int \<Rightarrow> int \<Rightarrow> nat list \<Rightarrow> workload \<Rightarrow> rng \<Rightarrow> 's \<Rightarrow>
    stop + (int \<times> workload \<times> rng \<times> 's)" where
  "run_phase E D is_loading total_ops num_threads sched w r s =
     bind_r (cassert (ndebug E) (int (nat num_threads) = num_threads)) (\<lambda>_.
     (let todo = replicate (nat num_threads) (nat (c_div total_ops num_threads));
          t = \<lparr>th_todo = todo, th_oks = replicate (nat num_threads) 0, th_wl = w, th_rng = r,
               th_db = (db_Init D ^^ nat num_threads) s\<rparr>
      in bind_r (run_schedule E D is_loading sched t) (\<lambda>t.
         bind_r (run_schedule E D is_loading (finish_schedule (th_todo t)) t) (\<lambda>t.
         Inr (sum_list (th_oks t), th_wl t, th_rng t, (db_Close D ^^ nat num_threads) (th_db t))))))"

section \<open>\<open>main\<close>\<close>

definition main ::
  "env \<Rightarrow> ('c, 's) lsm_env \<Rightarrow> (string \<Rightarrow> string option) \<Rightarrow> nat list \<Rightarrow> nat list \<Rightarrow> clock \<Rightarrow>
    string list \<Rightarrow> event list prog" where
  "main E L files load_sched run_sched C argv =
     bind_r (ParseCommandLine files argv) (\<lambda>opts.
     (let props = op_props opts; file_name = op_filename opts;
          both = (\<not> op_load opts \<and> \<not> op_run opts);
          do_load = (op_load opts \<or> both); do_run = (op_run opts \<or> both) in
     bind_r (after [] (CreateDB L props)) (\<lambda>db.
     case db of
       None \<Rightarrow>
         bind_r (after [] (property_at props ''dbname'')) (\<lambda>n.
         Inl ([Message (''Unknown database name '' @ n)], Exit_With 0))
     | Some (D, s) \<Rightarrow>
         bind_r (after [] (Init E props workload_new \<lparr>canon_pos = 0, crand_pos = 0\<rparr>)) (\<lambda>(w, r).
         bind_r (after [] (stoi (GetProperty props ''threadcount'' ''1''))) (\<lambda>num_threads.
         bind_r (if do_load
                 then bind_r (after [] (bind_r (property_at props RECORD_COUNT_PROPERTY) stoi)) (\<lambda>total_ops.
                      bind_r (after [] (run_phase E D True total_ops num_threads load_sched w r s))
                        (\<lambda>(sum, w, r, s). Inr ([Loading_Records sum], w, r, s)))
                 else Inr ([], w, r, s)) (\<lambda>(evs, w, r, s).
         if do_run
         then bind_r (after evs (bind_r (property_at props OPERATION_COUNT_PROPERTY) stoi)) (\<lambda>total_ops.
              (let timer = Timer_Start (ck_now C 0) \<lparr>tm_time = 0\<rparr> in
              bind_r (after evs (run_phase E D False total_ops num_threads run_sched w r s)) (\<lambda>(sum, w, r, s).
              bind_r (after evs (Timer_End (ck_den C) (ck_now C 1) timer)) (\<lambda>duration.
              bind_r (after evs (property_at props ''dbname'')) (\<lambda>n.
              Inr (evs @ [Throughput n file_name num_threads (of_cint total_ops / duration / Fin 1000)]))))))
         else Inr evs))))))"

end
