(* ===== verification/Driver_Facts.thy ===== *)
theory Driver_Facts
  imports Driver
begin

text \<open>
  The driver: the phases for every schedule of their threads, the client loop as the
  one-thread case, and the command line read as a list of options.
\<close>

section \<open>Schedules\<close>

abbreviation client_op ::
  "env \<Rightarrow> 's db_class \<Rightarrow> bool \<Rightarrow> workload \<Rightarrow> rng \<Rightarrow> 's \<Rightarrow> stop + (bool \<times> workload \<times> rng \<times> 's)" where
  "client_op E D is_loading w r s \<equiv>
     (if is_loading then DoInsert E D w r s else DoTransaction E D w r s)"

lemma sum_list_take_one:
  "i < length xs \<Longrightarrow> 0 < xs ! i \<Longrightarrow> Suc (sum_list (xs[i := xs ! i - 1])) = sum_list xs" for xs :: "nat list"
  by (induction xs arbitrary: i) (auto simp: nth_Cons split: nat.splits)

lemma sum_list_add_at:
  "i < length xs \<Longrightarrow> sum_list (xs[i := xs ! i + d]) = sum_list xs + d" for xs :: "int list"
  by (induction xs arbitrary: i) (auto simp: nth_Cons split: nat.splits)

text \<open>
  \<open>Inv n\<close> holds of the shared state after \<open>n\<close> operations.  If every operation returns and
  keeps it, then so does every schedule; the threads' work left shrinks by what the
  schedule names, and if every operation succeeds, each one counts as a success.
\<close>

definition phase_step ::
  "env \<Rightarrow> 's db_class \<Rightarrow> bool \<Rightarrow> bool \<Rightarrow> (nat \<Rightarrow> workload \<Rightarrow> rng \<Rightarrow> 's \<Rightarrow> bool) \<Rightarrow> bool" where
  "phase_step E D is_loading strict Inv \<longleftrightarrow>
     (\<forall>n w r s. Inv n w r s \<longrightarrow> (\<exists>b w' r' s'. client_op E D is_loading w r s = Inr (b, w', r', s') \<and>
        (strict \<longrightarrow> b) \<and> Inv (Suc n) w' r' s'))"

lemma thread_step_run:
  assumes "phase_step E D ld strict Inv" "Inv n (th_wl t) (th_rng t) (th_db t)"
    and "length (th_oks t) = length (th_todo t)" "n + sum_list (th_todo t) = N"
    and "strict \<longrightarrow> sum_list (th_oks t) = int n"
  shows "\<exists>m t'. thread_step E D ld i t = Inr t' \<and> Inv m (th_wl t') (th_rng t') (th_db t') \<and>
    length (th_todo t') = length (th_todo t) \<and>
    length (th_oks t') = length (th_todo t') \<and> m + sum_list (th_todo t') = N \<and>
    (strict \<longrightarrow> sum_list (th_oks t') = int m) \<and>
    (\<forall>j < length (th_todo t). th_todo t' ! j = th_todo t ! j - (if j = i then 1 else 0))"
proof (cases "i < length (th_todo t) \<and> 0 < th_todo t ! i")
  case True
  obtain b w' r' s' where st: "client_op E D ld (th_wl t) (th_rng t) (th_db t) = Inr (b, w', r', s')"
    "strict \<longrightarrow> b" "Inv (Suc n) w' r' s'"
    using assms(1,2) unfolding phase_step_def by blast
  let ?t = "\<lparr>th_todo = (th_todo t)[i := th_todo t ! i - 1],
    th_oks = (th_oks t)[i := th_oks t ! i + of_bool b], th_wl = w', th_rng = r', th_db = s'\<rparr>"
  have "thread_step E D ld i t = Inr ?t" using True st(1) by (simp add: thread_step_def)
  moreover have "Suc n + sum_list (th_todo ?t) = N"
    using sum_list_take_one [of i "th_todo t"] True assms(4) by simp
  moreover have "strict \<longrightarrow> sum_list (th_oks ?t) = int (Suc n)"
    using sum_list_add_at [of i "th_oks t" "of_bool b"] True assms(3,5) st(2) by auto
  moreover have "\<forall>j < length (th_todo t). th_todo ?t ! j = th_todo t ! j - (if j = i then 1 else 0)"
    by (simp add: nth_list_update)
  ultimately show ?thesis using assms(3) st(3)
    by (intro exI [of _ "Suc n"] exI [of _ ?t]) simp
next
  case False
  then have "thread_step E D ld i t = Inr t" by (simp only: thread_step_def if_False)
  moreover have "\<forall>j < length (th_todo t). th_todo t ! j = th_todo t ! j - (if j = i then 1 else 0)"
    using False by simp
  ultimately show ?thesis using assms(2-5)
    by (intro exI [of _ n] exI [of _ t]) blast
qed

lemma run_schedule_run:
  assumes "phase_step E D ld strict Inv" "Inv n (th_wl t) (th_rng t) (th_db t)"
    and "length (th_oks t) = length (th_todo t)" "n + sum_list (th_todo t) = N"
    and "strict \<longrightarrow> sum_list (th_oks t) = int n"
  shows "\<exists>m t'. run_schedule E D ld sch t = Inr t' \<and> Inv m (th_wl t') (th_rng t') (th_db t') \<and>
    length (th_todo t') = length (th_todo t) \<and>
    length (th_oks t') = length (th_todo t') \<and> m + sum_list (th_todo t') = N \<and>
    (strict \<longrightarrow> sum_list (th_oks t') = int m) \<and>
    (\<forall>j < length (th_todo t). th_todo t' ! j = th_todo t ! j - count_list sch j)"
  using assms(2-5)
proof (induction sch arbitrary: n t)
  case Nil
  then show ?case by (intro exI [of _ n] exI [of _ t]) simp
next
  case (Cons i sch)
  obtain m t1 where s: "thread_step E D ld i t = Inr t1" "Inv m (th_wl t1) (th_rng t1) (th_db t1)"
    "length (th_todo t1) = length (th_todo t)" "length (th_oks t1) = length (th_todo t1)"
    "m + sum_list (th_todo t1) = N" "strict \<longrightarrow> sum_list (th_oks t1) = int m"
    "\<forall>j < length (th_todo t). th_todo t1 ! j = th_todo t ! j - (if j = i then 1 else 0)"
    using thread_step_run [OF assms(1) Cons.prems, of i] by blast
  obtain m' t' where f: "run_schedule E D ld sch t1 = Inr t'" "Inv m' (th_wl t') (th_rng t') (th_db t')"
    "length (th_todo t') = length (th_todo t1)" "length (th_oks t') = length (th_todo t')"
    "m' + sum_list (th_todo t') = N" "strict \<longrightarrow> sum_list (th_oks t') = int m'"
    "\<forall>j < length (th_todo t1). th_todo t' ! j = th_todo t1 ! j - count_list sch j"
    using Cons.IH [OF s(2,4-6)] by blast
  have "\<forall>j < length (th_todo t). th_todo t' ! j = th_todo t ! j - count_list (i # sch) j"
    using s(3,7) f(7) by auto
  then show ?case using s(1,3) f
    by (intro exI [of _ m'] exI [of _ t']) simp
qed

lemma count_finish:
  "j < length todo \<Longrightarrow> count_list (finish_schedule todo) j = todo ! j"
proof -
  have "count_list (concat (map (\<lambda>i. replicate (f i) i) is)) j = (\<Sum>i \<leftarrow> is. if i = j then f i else 0)"
    for f :: "nat \<Rightarrow> nat" and "is"
  proof (induction "is")
    case (Cons i "is")
    have "count_list (replicate n i) j = (if i = j then n else 0)" for n by (induction n) auto
    with Cons show ?case by simp
  qed simp
  moreover have "(\<Sum>i \<leftarrow> [0..<n]. if i = j then f i else 0) = (if j < n then f j else 0)"
    for f :: "nat \<Rightarrow> nat" and n by (induction n) auto
  ultimately show "j < length todo \<Longrightarrow> ?thesis" by (simp add: finish_schedule_def)
qed

section \<open>Phases\<close>

lemma c_div_pos: "0 \<le> a \<Longrightarrow> 0 < b \<Longrightarrow> c_div a b = a div b"
  by (cases "a = 0") (simp_all add: c_div_def)

lemma run_phase_run:
  assumes "phase_step E D ld strict Inv" "Inv 0 w r ((db_Init D ^^ nat nt) s)"
    and "0 \<le> tot" "1 \<le> nt"
  shows "\<exists>sum w' r' s'. run_phase E D ld tot nt sch w r s =
      Inr (sum, w', r', (db_Close D ^^ nat nt) s') \<and>
    Inv (nat (nt * (tot div nt))) w' r' s' \<and> (strict \<longrightarrow> sum = nt * (tot div nt))"
proof -
  define per where "per = nat (tot div nt)"
  have per: "c_div tot nt = int per" "int (nat nt * per) = nt * (tot div nt)"
    using assms(3,4) by (simp_all add: c_div_pos per_def pos_imp_zdiv_nonneg_iff)
  define t where "t = \<lparr>th_todo = replicate (nat nt) per, th_oks = replicate (nat nt) 0, th_wl = w,
    th_rng = r, th_db = (db_Init D ^^ nat nt) s\<rparr>"
  have t: "Inv 0 (th_wl t) (th_rng t) (th_db t)" "length (th_oks t) = length (th_todo t)"
    "0 + sum_list (th_todo t) = nat nt * per" "strict \<longrightarrow> sum_list (th_oks t) = int 0"
    using assms(2) by (simp_all add: t_def sum_list_replicate)
  obtain m t1 where s: "run_schedule E D ld sch t = Inr t1" "Inv m (th_wl t1) (th_rng t1) (th_db t1)"
    "length (th_oks t1) = length (th_todo t1)" "m + sum_list (th_todo t1) = nat nt * per"
    "strict \<longrightarrow> sum_list (th_oks t1) = int m"
    using run_schedule_run [OF assms(1) t, of sch] by blast
  obtain m' t2 where f: "run_schedule E D ld (finish_schedule (th_todo t1)) t1 = Inr t2"
    "Inv m' (th_wl t2) (th_rng t2) (th_db t2)" "length (th_todo t2) = length (th_todo t1)"
    "m' + sum_list (th_todo t2) = nat nt * per" "strict \<longrightarrow> sum_list (th_oks t2) = int m'"
    "\<forall>j < length (th_todo t1). th_todo t2 ! j =
       th_todo t1 ! j - count_list (finish_schedule (th_todo t1)) j"
    using run_schedule_run [OF assms(1) s(2-5), of "finish_schedule (th_todo t1)"] by blast
  have "th_todo t2 = replicate (length (th_todo t1)) 0"
    using f(3,6) by (intro nth_equalityI) (simp_all add: count_finish)
  then have "sum_list (th_todo t2) = 0" by (simp add: sum_list_replicate)
  with f(4) have m: "m' = nat nt * per" by simp
  have "run_phase E D ld tot nt sch w r s =
      Inr (sum_list (th_oks t2), th_wl t2, th_rng t2, (db_Close D ^^ nat nt) (th_db t2))"
    using assms(4) s(1) f(1) unfolding t_def by (simp add: run_phase_def per(1))
  moreover have "nat (nt * (tot div nt)) = m'" using m per(2) by linarith
  moreover have "strict \<longrightarrow> sum_list (th_oks t2) = nt * (tot div nt)" using f(5) m per(2) by simp
  ultimately show ?thesis using f(2) by (metis (no_types))
qed

lemma counter_eta: "counter_new (counter_val c) = c"
  by (simp add: counter_new_def)

lemma funpow_fix: "(\<And>s. P s \<Longrightarrow> P (f s) \<and> g (f s) = g s) \<Longrightarrow> P s \<Longrightarrow> P ((f ^^ n) s) \<and> g ((f ^^ n) s) = g s"
  by (induction n) auto

text \<open>The names of \<open>n\<close> consecutive key numbers.\<close>

definition key_block :: "workload \<Rightarrow> u64 \<Rightarrow> nat \<Rightarrow> string set" where
  "key_block w c n = {k. \<exists>i < n. BuildKeyName w (c + of_nat i) = Inr k}"

lemma key_block_0 [simp]: "key_block w c 0 = {}"
  by (simp add: key_block_def)

lemma key_block_Suc:
  "BuildKeyName w (c + of_nat n) = Inr k \<Longrightarrow> key_block w c (Suc n) = insert k (key_block w c n)"
  by (auto simp: key_block_def less_Suc_eq)

text \<open>
  \<open>m'\<close> is \<open>m\<close> with a record for every key of \<open>ks\<close>, not an empty one unless the workload
  makes empty values.
\<close>

definition loaded_map ::
  "workload \<Rightarrow> string set \<Rightarrow> (string \<rightharpoonup> string) \<Rightarrow> (string \<rightharpoonup> string) \<Rightarrow> bool" where
  "loaded_map w ks m m' \<longleftrightarrow>
     (\<forall>k. if k \<in> ks then \<exists>v. m' k = Some v \<and> (nonempty_values w \<longrightarrow> v \<noteq> []) else m' k = m k)"

lemma loaded_map_insert:
  "loaded_map w ks m m' \<Longrightarrow> (nonempty_values w \<longrightarrow> v \<noteq> []) \<Longrightarrow>
   loaded_map w (insert k ks) m (m'(k \<mapsto> v))"
  by (simp add: loaded_map_def)

context kv_db
begin

lemma init_run: "ok s \<Longrightarrow> ok ((db_Init D ^^ n) s) \<and> content ((db_Init D ^^ n) s) = content s"
  by (rule funpow_fix) (simp_all add: init_law)

lemma close_run: "ok s \<Longrightarrow> ok ((db_Close D ^^ n) s) \<and> content ((db_Close D ^^ n) s) = content s"
  by (rule funpow_fix) (simp_all add: close_law)

text \<open>The state after \<open>n\<close> inserts of a load that started with key number \<open>c\<close>.\<close>

definition load_state :: "env \<Rightarrow> workload \<Rightarrow> u64 \<Rightarrow> (string \<rightharpoonup> string) \<Rightarrow> nat \<Rightarrow> workload \<Rightarrow> rng \<Rightarrow> 's \<Rightarrow> bool" where
  "load_state E w0 c m n w r s \<longleftrightarrow>
     wl_ready E w \<and> same_run w0 w \<and> ok s \<and>
     w_key_generator w = Counter_Gen (counter_new (c + of_nat n)) \<and>
     loaded_map w0 (key_block w0 c n) m (content s)"

lemma load_step: "phase_step E D True True (load_state E w0 c m)"
proof -
  have "\<exists>w' r' s'. DoInsert E D w r s = Inr (True, w', r', s') \<and> load_state E w0 c m (Suc n) w' r' s'"
    if a: "load_state E w0 c m n w r s" for n w r s
  proof -
    have l: "wl_ready E w" "same_run w0 w" "ok s" "w_key_generator w = Counter_Gen (counter_new (c + of_nat n))"
      "loaded_map w0 (key_block w0 c n) m (content s)"
      using a by (simp_all add: load_state_def)
    obtain name v w' r' s' where d: "DoInsert E D w r s = Inr (True, w', r', s')" "wl_ready E w'"
      "same_run w w'" "ok s'" "w_key_generator w' = Counter_Gen (counter_new (c + of_nat n + 1))"
      "BuildKeyName w (c + of_nat n) = Inr name" "content s' = (content s)(name \<mapsto> v)"
      "nonempty_values w \<longrightarrow> v \<noteq> []"
      using DoInsert_good [OF l(1,3,4), of r] by (auto simp: counter_new_def)
    have k: "BuildKeyName w0 (c + of_nat n) = Inr name" using d(6) same_run_name [OF l(2)] by simp
    have ne: "nonempty_values w0 \<longrightarrow> v \<noteq> []"
      using d(8) same_run_values [OF l(2)] by (simp add: nonempty_values_def)
    have "load_state E w0 c m (Suc n) w' r' s'"
      using d(2,4,5) same_run_trans [OF l(2) d(3)] loaded_map_insert [OF l(5) ne, of name]
      by (simp add: load_state_def key_block_Suc [OF k] d(7) ac_simps)
    with d(1) show ?thesis by blast
  qed
  then show ?thesis unfolding phase_step_def if_True by blast
qed

lemma load_phase:
  assumes "wl_ready E w" "w_key_generator w = Counter_Gen c" "ok s" "0 \<le> tot" "1 \<le> nt"
  shows "\<exists>w' r' s'. run_phase E D True tot nt sch w r s = Inr (nt * (tot div nt), w', r', s') \<and>
    wl_ready E w' \<and> same_run w w' \<and> ok s' \<and>
    loaded_map w (key_block w (counter_val c) (nat (nt * (tot div nt)))) (content s) (content s')"
proof -
  have "load_state E w (counter_val c) (content s) 0 w r ((db_Init D ^^ nat nt) s)"
    using assms(1-3) init_run [OF assms(3)]
    by (simp add: load_state_def counter_eta loaded_map_def)
  from run_phase_run [OF load_step this assms(4,5), of sch] obtain w' r' s' where
    p: "run_phase E D True tot nt sch w r s = Inr (nt * (tot div nt), w', r', (db_Close D ^^ nat nt) s')"
    "load_state E w (counter_val c) (content s) (nat (nt * (tot div nt))) w' r' s'" by blast
  have "ok ((db_Close D ^^ nat nt) s')" "content ((db_Close D ^^ nat nt) s') = content s'"
    using close_run p(2) by (auto simp: load_state_def)
  with p show ?thesis by (auto simp: load_state_def)
qed

text \<open>The state of a run phase that deletes nothing.\<close>

definition run_state :: "env \<Rightarrow> bool \<Rightarrow> workload \<Rightarrow> nat \<Rightarrow> workload \<Rightarrow> rng \<Rightarrow> 's \<Rightarrow> bool" where
  "run_state E strict w0 n w r s \<longleftrightarrow>
     wl_ready E w \<and> same_run w0 w \<and> ok s \<and> (strict \<longrightarrow> present w0 (content s))"

definition keeps_records :: "workload \<Rightarrow> bool" where
  "keeps_records w \<longleftrightarrow> DELETE \<notin> fst ` set (d_values (w_op_chooser w)) \<and> nonempty_values w"

lemma run_step:
  assumes "strict \<longrightarrow> keeps_records w0"
  shows "phase_step E D False strict (run_state E strict w0)"
proof -
  have "\<exists>b w' r' s'. DoTransaction E D w r s = Inr (b, w', r', s') \<and> (strict \<longrightarrow> b) \<and>
      run_state E strict w0 (Suc n) w' r' s'" if a: "run_state E strict w0 n w r s" for n w r s
  proof -
    have l: "wl_ready E w" "same_run w0 w" "ok s" "strict \<longrightarrow> present w0 (content s)"
      using a by (simp_all add: run_state_def)
    obtain b w' r' s' where d: "DoTransaction E D w r s = Inr (b, w', r', s')" "wl_ready E w'"
      "same_run w w'" "ok s'" "DELETE \<notin> fst ` set (d_values (w_op_chooser w)) \<and> nonempty_values w \<and>
       present w (content s) \<longrightarrow> b \<and> present w (content s')"
      using DoTransaction_good [OF l(1,3), of r] by blast
    have "DELETE \<notin> fst ` set (d_values (w_op_chooser w)) \<and> nonempty_values w" if strict
      using that assms l(2) same_run_values [OF l(2)]
      by (simp add: keeps_records_def same_run_def nonempty_values_def)
    with d(5) l(4) have "strict \<longrightarrow> b \<and> present w0 (content s')"
      unfolding same_run_present [OF l(2)] by blast
    with d(1,2,4) same_run_trans [OF l(2) d(3)] show ?thesis
      by (auto simp: run_state_def)
  qed
  then show ?thesis by (simp add: phase_step_def)
qed

lemma run_phase_good:
  assumes "wl_ready E w" "ok s" "0 \<le> tot" "1 \<le> nt"
    and "strict \<longrightarrow> keeps_records w \<and> present w (content s)"
  shows "\<exists>n w' r' s'. run_phase E D False tot nt sch w r s = Inr (n, w', r', s') \<and>
    wl_ready E w' \<and> same_run w w' \<and> ok s' \<and>
    (strict \<longrightarrow> n = nt * (tot div nt) \<and> present w (content s'))"
proof -
  have "run_state E strict w 0 w r ((db_Init D ^^ nat nt) s)"
    using assms(1,2,5) init_run [OF assms(2)] by (auto simp: run_state_def)
  from run_phase_run [OF run_step this assms(3,4), of sch] assms(5) obtain n w' r' s' where
    p: "run_phase E D False tot nt sch w r s = Inr (n, w', r', (db_Close D ^^ nat nt) s')"
    "run_state E strict w (nat (nt * (tot div nt))) w' r' s'" "strict \<longrightarrow> n = nt * (tot div nt)" by blast
  have "ok ((db_Close D ^^ nat nt) s')" "content ((db_Close D ^^ nat nt) s') = content s'"
    using close_run p(2) by (auto simp: run_state_def)
  with p show ?thesis by (auto simp: run_state_def)
qed

end

end
