(* ===== verification/Command_Line.thy ===== *)
theory Command_Line
  imports Driver_Facts
begin

text \<open>
  The command line: a list of options, written out as arguments and parsed, has the
  effect of its options in order.  And the client loop: a phase of one thread is
  \<open>DelegateClient\<close>.
\<close>

section \<open>Options\<close>

text \<open>The options of the usage message.\<close>

datatype cli_option =
    Threads string
  | Database string
  | Property_File string
  | Set_Property string string
  | Only_Load
  | Only_Run

fun cli_args :: "cli_option \<Rightarrow> string list" where
  "cli_args (Threads n) = [''-threads'', n]"
| "cli_args (Database d) = [''-db'', d]"
| "cli_args (Property_File f) = [''-P'', f]"
| "cli_args (Set_Property k v) = [''-p'', k @ CHR ''='' # v]"
| "cli_args Only_Load = [''-load'']"
| "cli_args Only_Run = [''-run'']"

fun cli_apply :: "(string \<Rightarrow> string option) \<Rightarrow> cli_option \<Rightarrow> options \<Rightarrow> options prog" where
  "cli_apply files (Threads n) o' = Inr (o'\<lparr>op_props := (op_props o')(''threadcount'' \<mapsto> n)\<rparr>)"
| "cli_apply files (Database d) o' = Inr (o'\<lparr>op_props := (op_props o')(''dbname'' \<mapsto> d)\<rparr>)"
| "cli_apply files (Property_File f) o' =
     bind_r (after [] (Load (op_props o') (files f))) (\<lambda>p. Inr (o'\<lparr>op_props := p, op_filename := f\<rparr>))"
| "cli_apply files (Set_Property k v) o' = Inr (o'\<lparr>op_props := (op_props o')(k \<mapsto> v)\<rparr>)"
| "cli_apply files Only_Load o' = Inr (o'\<lparr>op_load := True\<rparr>)"
| "cli_apply files Only_Run o' = Inr (o'\<lparr>op_run := True\<rparr>)"

fun cli_apply_all :: "(string \<Rightarrow> string option) \<Rightarrow> cli_option list \<Rightarrow> options \<Rightarrow> options prog" where
  "cli_apply_all files [] o' = Inr o'"
| "cli_apply_all files (c # cs) o' = bind_r (cli_apply files c o') (cli_apply_all files cs)"

definition cli_ok :: "cli_option \<Rightarrow> bool" where
  "cli_ok c \<longleftrightarrow> (case c of Set_Property k v \<Rightarrow> CHR ''='' \<notin> set k | _ \<Rightarrow> True)"

lemma cli_args_nonempty [simp]: "cli_args c \<noteq> []"
  by (cases c) simp_all

lemma cli_args_dash: "StrStartWith (hd (cli_args c)) ''-''"
  by (cases c) (simp_all add: StrStartWith_def)

lemma find_char_none: "c \<notin> set s \<Longrightarrow> find_char c s = None"
proof -
  assume "c \<notin> set s"
  then have "takeWhile (\<lambda>x. x \<noteq> c) s = s" by (auto simp: takeWhile_eq_all_conv)
  then show "find_char c s = None" by (simp only: find_char_def Let_def less_irrefl if_False)
qed

text \<open>One turn of the loop, on an option after the arguments \<open>pre\<close>.\<close>

lemma parse_option_cli:
  assumes "cli_ok c"
  shows "parse_option files (pre @ cli_args c @ post) (length pre) o' =
    bind_r (cli_apply files c o') (\<lambda>o'. Inr (o', length pre + length (cli_args c)))"
  using assms
  by (cases c) (simp_all add: parse_option_def nth_append SetProperty_def Let_def cli_ok_def
      find_char_prefix bind_r_assoc)

lemma parse_loop_cli:
  assumes "list_all cli_ok cs"
  shows "parse_loop files (pre @ concat (map cli_args cs) @ rest) (length pre) o' =
    bind_r (cli_apply_all files cs o') (parse_loop files (pre @ concat (map cli_args cs) @ rest)
      (length pre + length (concat (map cli_args cs))))"
  using assms
proof (induction cs arbitrary: pre o')
  case (Cons c cs)
  let ?post = "concat (map cli_args cs) @ rest"
  obtain a as where c: "cli_args c = a # as" by (cases "cli_args c") auto
  have d: "StrStartWith a ''-''" using cli_args_dash [of c] c by simp
  have e: "parse_loop files (pre @ cli_args c @ ?post) (length pre) o' =
      bind_r (parse_option files (pre @ cli_args c @ ?post) (length pre) o')
        (\<lambda>(o', i). parse_loop files (pre @ cli_args c @ ?post) i o')"
    using d by (subst parse_loop.simps) (simp add: c nth_append)
  have IH: "parse_loop files (pre @ cli_args c @ ?post) (length pre + length (cli_args c)) o1 =
      bind_r (cli_apply_all files cs o1) (parse_loop files (pre @ cli_args c @ ?post)
        (length pre + length (cli_args c) + length (concat (map cli_args cs))))" for o1
    using Cons.IH [of "pre @ cli_args c" o1] Cons.prems by simp
  show ?case
    using Cons.prems e by (simp add: parse_option_cli bind_r_assoc IH ac_simps)
qed simp

lemma parse_loop_stop:
  assumes "rest = [] \<or> \<not> StrStartWith (hd rest) ''-''"
  shows "parse_loop files (pre @ rest) (length pre) o' = Inr (o', length pre)"
proof -
  have "\<not> (length pre < length (pre @ rest) \<and> StrStartWith ((pre @ rest) ! length pre) ''-'')"
    using assms by (cases rest) (auto simp: nth_append)
  then show ?thesis by (rule trans [OF parse_loop.simps if_not_P])
qed

lemma parse_loop_word:
  assumes "StrStartWith a ''-''"
  shows "parse_loop files (pre @ a # as) (length pre) o' =
    bind_r (parse_option files (pre @ a # as) (length pre) o')
      (\<lambda>(o', i). parse_loop files (pre @ a # as) i o')"
  using assms by (subst parse_loop.simps) simp

definition start_options :: options where
  "start_options = \<lparr>op_props = Map.empty, op_load = False, op_run = False, op_filename = []\<rparr>"

lemma ParseCommandLine_cli:
  assumes "list_all cli_ok cs" "rest = [] \<or> \<not> StrStartWith (hd rest) ''-''"
  shows "ParseCommandLine files (cmd # concat (map cli_args cs) @ rest) =
    bind_r (cli_apply_all files cs start_options) (\<lambda>opts.
    if cs = [] \<or> rest \<noteq> [] then Inl ([Usage (usage_lines cmd)], Exit_With 0) else Inr opts)"
proof -
  have n: "concat (map cli_args cs) = [] \<longleftrightarrow> cs = []"
    by (cases cs) simp_all
  let ?pre = "cmd # concat (map cli_args cs)"
  have "parse_loop files (?pre @ rest) 1 start_options =
      bind_r (cli_apply_all files cs start_options) (\<lambda>o'. Inr (o', length ?pre))"
    using parse_loop_cli [OF assms(1), of files "[cmd]" rest start_options]
      parse_loop_stop [OF assms(2), of files ?pre] by (simp cong: bind_r_cong)
  with n show ?thesis
    by (simp add: ParseCommandLine_def start_options_def bind_r_assoc UsageMessage_def cong: if_cong)
qed

text \<open>
  C23: a list of options written out as arguments is parsed to the options applied in order,
  later ones overriding earlier ones, with the exceptions of the files they load; no
  option at all, or a word that is not an option after them, prints the usage message.
\<close>

theorem ParseCommandLine_options:
  assumes "list_all cli_ok cs" "rest = [] \<or> \<not> StrStartWith (hd rest) ''-''"
  shows "ParseCommandLine files (cmd # concat (map cli_args cs) @ rest) =
    bind_r (cli_apply_all files cs start_options) (\<lambda>opts.
    if cs = [] \<or> rest \<noteq> [] then Inl ([Usage (usage_lines cmd)], Exit_With 0) else Inr opts)"
  by (rule ParseCommandLine_cli [OF assms])

theorem ParseCommandLine_options_witness:
  "ParseCommandLine Map.empty [''ycsbc'', ''-p'', ''a=b=c'', ''-threads'', ''4'', ''-run'', ''-p'', ''a=d''] =
     Inr \<lparr>op_props = [''a'' \<mapsto> ''d'', ''threadcount'' \<mapsto> ''4''], op_load = False, op_run = True,
       op_filename = []\<rparr>"
proof -
  have "list_all cli_ok [Set_Property ''a'' ''b=c'', Threads ''4'', Only_Run, Set_Property ''a'' ''d'']"
    by (simp add: cli_ok_def)
  from ParseCommandLine_options [OF this, of "[]" Map.empty "''ycsbc''"] show ?thesis
    by (simp add: start_options_def fun_upd_twist)
qed

section \<open>Errors\<close>

text \<open>
  C24: an option that misses its argument prints the usage message, an argument of \<open>-p\<close>
  without \<open>=\<close> and an unknown option print theirs, and a property file that cannot be
  read ends the program by an exception that the \<open>catch\<close> around \<open>Load\<close> does not catch;
  all this after the options before it have been handled.
\<close>

theorem ParseCommandLine_errors:
  assumes "list_all cli_ok cs" "cli_apply_all files cs start_options = Inr opts"
  shows "(a \<in> {''-threads'', ''-db'', ''-P'', ''-p''} \<longrightarrow>
      ParseCommandLine files (cmd # concat (map cli_args cs) @ [a]) = Inl ([Usage (usage_lines cmd)], Exit_With 0)) \<and>
    (CHR ''='' \<notin> set kv \<longrightarrow>
      ParseCommandLine files (cmd # concat (map cli_args cs) @ ''-p'' # kv # rest) =
        Inl ([Message ''Argument for -p must be in key=value format''], Exit_With 0)) \<and>
    (files f = None \<longrightarrow>
      (\<exists>m. ParseCommandLine files (cmd # concat (map cli_args cs) @ ''-P'' # f # rest) =
        Inl ([], Throw (Utils_Exception m)))) \<and>
    (StrStartWith u ''-'' \<and> u \<notin> {''-threads'', ''-db'', ''-P'', ''-load'', ''-run'', ''-p''} \<longrightarrow>
      ParseCommandLine files (cmd # concat (map cli_args cs) @ u # rest) =
        Inl ([Message (''Unknown option '' @ [CHR 0x27] @ u @ [CHR 0x27])], Exit_With 0))"
proof -
  let ?pre = "cmd # concat (map cli_args cs)"
  have run: "parse_loop files (?pre @ a # as) 1 start_options =
      bind_r (parse_option files (?pre @ a # as) (length ?pre) opts)
        (\<lambda>(o', i). parse_loop files (?pre @ a # as) i o')"
    if "StrStartWith a ''-''" for a as
    using parse_loop_cli [OF assms(1), of files "[cmd]" "a # as" start_options] assms(2)
      parse_loop_word [OF that, of files ?pre as opts] by simp
  have st: "StrStartWith ''-p'' ''-''" "StrStartWith ''-P'' ''-''"
    "a \<in> {''-threads'', ''-db'', ''-P'', ''-p''} \<Longrightarrow> StrStartWith a ''-''"
    by (auto simp: StrStartWith_def)
  have f: "CHR ''='' \<notin> set kv \<Longrightarrow> find_char CHR ''='' kv = None"
    by (simp add: find_char_none)
  show ?thesis
    using run [OF st(1), of "kv # rest"] run [OF st(2), of "f # rest"] run [OF st(3), of "[]"]
      run [of u rest] st f
    by (auto simp: ParseCommandLine_def start_options_def parse_option_def nth_append
        UsageMessage_def Load_def)
qed


theorem ParseCommandLine_errors_witness:
  "ParseCommandLine Map.empty [''ycsbc'', ''-load'', ''-db''] = Inl ([Usage (usage_lines ''ycsbc'')], Exit_With 0) \<and>
   ParseCommandLine Map.empty [''ycsbc'', ''-load'', ''-p'', ''x''] =
     Inl ([Message ''Argument for -p must be in key=value format''], Exit_With 0) \<and>
   (\<exists>m. ParseCommandLine Map.empty [''ycsbc'', ''-load'', ''-P'', ''no_file''] =
     Inl ([], Throw (Utils_Exception m)))"
proof -
  have o: "list_all cli_ok [Only_Load]"
    "cli_apply_all Map.empty [Only_Load] start_options = Inr (start_options\<lparr>op_load := True\<rparr>)"
    by (simp_all add: cli_ok_def)
  from ParseCommandLine_errors [OF o, of "''-db''" "''ycsbc''" "''x''" "[]" "''no_file''"] show ?thesis
    by simp
qed

section \<open>One thread\<close>

lemma delegate_loop_add:
  "delegate_loop E D ld (m + n) oks w r s =
     bind_r (delegate_loop E D ld m oks w r s) (\<lambda>(oks, w, r, s). delegate_loop E D ld n oks w r s)"
  by (induction m arbitrary: oks w r s) (auto simp: bind_r_assoc split_def intro: bind_r_cong)

text \<open>The state of the only thread with \<open>n\<close> iterations left.\<close>

definition one_thread :: "nat \<Rightarrow> int \<times> workload \<times> rng \<times> 's \<Rightarrow> 's threads" where
  "one_thread n = (\<lambda>(oks, w, r, s). \<lparr>th_todo = [n], th_oks = [oks], th_wl = w, th_rng = r, th_db = s\<rparr>)"

lemma one_thread_sel [simp]:
  "th_todo (one_thread n st) = [n]" "th_oks (one_thread n st) = [fst st]"
  "th_wl (one_thread n st) = fst (snd st)" "th_rng (one_thread n st) = fst (snd (snd st))"
  "th_db (one_thread n st) = snd (snd (snd st))"
  by (simp_all add: one_thread_def split_def)

lemma one_thread_steps:
  "run_schedule E D ld sch (one_thread n (oks, w, r, s)) =
     (let k = min n (count_list sch 0)
      in bind_r (delegate_loop E D ld k oks w r s) (\<lambda>st. Inr (one_thread (n - k) st)))"
proof (induction sch arbitrary: n oks w r s)
  case (Cons i sch)
  show ?case
  proof (cases "i = 0 \<and> 0 < n")
    case True
    then obtain m where i: "i = 0" "n = Suc m" by (cases n) auto
    have "thread_step E D ld 0 (one_thread n (oks, w, r, s)) =
        bind_r (if ld then DoInsert E D w r s else DoTransaction E D w r s)
          (\<lambda>(b, w, r, s). Inr (one_thread m (oks + of_bool b, w, r, s)))"
      by (simp add: thread_step_def one_thread_def i(2) split_def)
    moreover have "run_schedule E D ld sch (one_thread m (a, x)) =
        bind_r (delegate_loop E D ld (min m (count_list sch 0)) a (fst x) (fst (snd x)) (snd (snd x)))
          (\<lambda>st. Inr (one_thread (m - min m (count_list sch 0)) st))" for a x
      using Cons.IH [of m a "fst x" "fst (snd x)" "snd (snd x)"] by (simp add: Let_def)
    ultimately show ?thesis using i
      by (simp add: bind_r_assoc split_def Let_def)
  next
    case False
    then have "thread_step E D ld i (one_thread n (oks, w, r, s)) = Inr (one_thread n (oks, w, r, s))"
      by (auto simp: thread_step_def one_thread_def)
    with Cons.IH [of n oks w r s] False show ?thesis by auto
  qed
qed simp

text \<open>
  C25: a phase with one thread is one call of \<open>DelegateClient\<close>, whatever the schedule, also
  when an operation stops the program.
\<close>

theorem one_thread_is_DelegateClient:
  "run_phase E D is_loading num_ops 1 sched w r s = DelegateClient E D num_ops is_loading w r s"
proof -
  have c: "c_div num_ops 1 = num_ops" by (simp add: c_div_def mult_sgn_abs)
  let ?n = "nat num_ops" and ?k = "min (nat num_ops) (count_list sched 0)"
  let ?s = "db_Init D s"
  have fin: "run_schedule E D is_loading (finish_schedule [m]) (one_thread m st) =
      bind_r (delegate_loop E D is_loading m (fst st) (fst (snd st)) (fst (snd (snd st))) (snd (snd (snd st))))
        (\<lambda>st. Inr (one_thread 0 st))" for m st
    using one_thread_steps [of E D is_loading "finish_schedule [m]" m "fst st" "fst (snd st)"
        "fst (snd (snd st))" "snd (snd (snd st))"]
    by (simp add: count_finish)
  have start: "\<lparr>th_todo = [?n], th_oks = [0], th_wl = w, th_rng = r, th_db = ?s\<rparr> = one_thread ?n (0, w, r, ?s)"
    by (simp add: one_thread_def)
  have all: "delegate_loop E D is_loading ?n 0 w r ?s =
      bind_r (delegate_loop E D is_loading ?k 0 w r ?s)
        (\<lambda>(oks, w, r, s). delegate_loop E D is_loading (?n - ?k) oks w r s)"
    using delegate_loop_add [of E D is_loading ?k "?n - ?k" 0 w r ?s] by simp
  have "run_phase E D is_loading num_ops 1 sched w r s =
      bind_r (delegate_loop E D is_loading ?n 0 w r ?s) (\<lambda>(oks, w, r, s). Inr (oks, w, r, db_Close D s))"
    unfolding all using one_thread_steps [of E D is_loading sched ?n 0 w r ?s]
    by (simp add: run_phase_def c start Let_def bind_r_assoc fin split_def)
  then show ?thesis by (simp add: DelegateClient_def)
qed

end
