(* ===== verification/Run_Facts.thy ===== *)
theory Run_Facts
  imports Command_Line Request_Choosers
begin

text \<open>
  Whole runs: a plain property file gives a workload on which nothing can fail, and a
  load followed by a run phase then counts every operation as a success, whatever the
  order in which the threads take their turns.
\<close>

section \<open>Plain workloads\<close>

text \<open>
  \<open>plain_props p n\<close>: \<open>n\<close> records from key number 0, uniform scan lengths,
  constant field lengths, at least one field of at least one character, and one of the
  shipped operation mixes.
\<close>

definition stoi_sat :: "(int \<Rightarrow> bool) \<Rightarrow> string \<Rightarrow> bool" where
  "stoi_sat P s \<longleftrightarrow> (case stoi s of Inl _ \<Rightarrow> False | Inr n \<Rightarrow> P n)"

definition plain_props :: "properties \<Rightarrow> nat \<Rightarrow> bool" where
  "plain_props p n \<longleftrightarrow>
     GetProperty p RECORD_COUNT_PROPERTY [] = dec_string n \<and> 1 \<le> n \<and> n \<le> 2147483647 \<and>
     GetProperty p INSERT_START_PROPERTY INSERT_START_DEFAULT = ''0'' \<and>
     GetProperty p SCAN_LENGTH_DISTRIBUTION_PROPERTY SCAN_LENGTH_DISTRIBUTION_DEFAULT = ''uniform'' \<and>
     GetProperty p FIELD_LENGTH_DISTRIBUTION_PROPERTY FIELD_LENGTH_DISTRIBUTION_DEFAULT \<in> {''constant'', ''fixed''} \<and>
     stoi_sat (\<lambda>l. 1 \<le> l) (GetProperty p FIELD_LENGTH_PROPERTY FIELD_LENGTH_DEFAULT) \<and>
     stoi_sat (\<lambda>c. 1 \<le> c) (GetProperty p FIELD_COUNT_PROPERTY FIELD_COUNT_DEFAULT) \<and>
     stoi_sat (\<lambda>m. 1 \<le> m) (GetProperty p MAX_SCAN_LENGTH_PROPERTY MAX_SCAN_LENGTH_DEFAULT) \<and>
     stoi_sat (\<lambda>z. z \<le> int_max - 4) (GetProperty p ZERO_PADDING_PROPERTY ZERO_PADDING_DEFAULT) \<and>
     GetProperty p READ_ALL_FIELDS_PROPERTY READ_ALL_FIELDS_DEFAULT \<in> {''true'', ''false''} \<and>
     GetProperty p WRITE_ALL_FIELDS_PROPERTY WRITE_ALL_FIELDS_DEFAULT \<in> {''true'', ''false''} \<and>
     mix_of p \<in> set shipped_mixes"

lemma stoi_satD: "stoi_sat P s \<Longrightarrow> \<exists>n. stoi s = Inr n \<and> P n \<and> n \<le> int_max"
  using stoi_range by (auto simp: stoi_sat_def split: sum.splits)

lemma word_of_pos:
  assumes "1 \<le> n" "n \<le> int_max"
  shows "(1 :: u64) \<le> of_int n" "(of_int n :: u64) \<le> 0x7FFFFFFF" "unat (of_int n :: u64) = nat n"
proof -
  have n: "uint (of_int n :: u64) = n" using assms by (simp add: uint_word_of_int int_max_def)
  show "(1 :: u64) \<le> of_int n" using n assms(1) by (simp add: word_le_def)
  show "(of_int n :: u64) \<le> 0x7FFFFFFF" using n assms(2) by (simp add: word_le_def int_max_def)
  show "unat (of_int n :: u64) = nat n" using n by (simp add: unat_eq_nat_uint)
qed

lemma shipped_stod:
  assumes "mix \<in> set shipped_mixes"
  shows "\<exists>ps. map stod mix = map Inr ps"
proof -
  have "list_all (\<lambda>s. \<exists>x. stod s = Inr x) mix"
    using assms unfolding shipped_mixes_def list.set insert_iff empty_iff
    by (elim disjE) (simp_all add: stod_literals)
  then show ?thesis by (induction mix) (auto intro: exI [of _ "_ # _"])
qed

lemma mix_reads:
  assumes "mix_of p \<in> set shipped_mixes"
  shows "\<exists>a b c d e f.
    stod (GetProperty p READ_PROPORTION_PROPERTY READ_PROPORTION_DEFAULT) = Inr a \<and>
    stod (GetProperty p UPDATE_PROPORTION_PROPERTY UPDATE_PROPORTION_DEFAULT) = Inr b \<and>
    stod (GetProperty p DELETE_PROPORTION_PROPERTY DELETE_PROPORTION_DEFAULT) = Inr c \<and>
    stod (GetProperty p INSERT_PROPORTION_PROPERTY INSERT_PROPORTION_DEFAULT) = Inr d \<and>
    stod (GetProperty p SCAN_PROPORTION_PROPERTY SCAN_PROPORTION_DEFAULT) = Inr e \<and>
    stod (GetProperty p READMODIFYWRITE_PROPORTION_PROPERTY READMODIFYWRITE_PROPORTION_DEFAULT) = Inr f"
  using shipped_stod [OF assms] by (auto simp: mix_of_def mix_names_def map_eq_Cons_conv Cons_eq_map_conv)

lemma plain_bool: "s \<in> {''true'', ''false''} \<Longrightarrow> \<exists>b. StrToBool s = Inr b"
  by (auto simp: bool_literals)

lemma plain_new:
  assumes "1 \<le> n" "n \<le> int_max"
  shows "uniform_new E 1 (of_int n) \<noteq> Inl e" "uniform_new E 0 (of_int n - 1) \<noteq> Inl e"
  using word_of_pos [OF assms] by (auto simp: uniform_new_def not_less)

lemma counter_set_new: "counter_set v c = counter_new v"
  by (simp add: counter_set_def counter_new_def)

text \<open>The values of a plain property file, and the two choosers that do not depend on requests.\<close>

lemma plain_values:
  assumes "plain_props p n"
  obtains c l m z b1 b2 pr pu pd pi ps pm g2 g3 where
    "stoi (GetProperty p FIELD_COUNT_PROPERTY FIELD_COUNT_DEFAULT) = Inr c" "c \<noteq> int_min"
    "stoi (GetProperty p FIELD_LENGTH_PROPERTY FIELD_LENGTH_DEFAULT) = Inr l"
    "stoi (GetProperty p MAX_SCAN_LENGTH_PROPERTY MAX_SCAN_LENGTH_DEFAULT) = Inr m"
    "stoi (GetProperty p ZERO_PADDING_PROPERTY ZERO_PADDING_DEFAULT) = Inr z"
    "stoi (GetProperty p INSERT_START_PROPERTY INSERT_START_DEFAULT) = Inr 0"
    "stoi (GetProperty p RECORD_COUNT_PROPERTY []) = Inr (int n)"
    "StrToBool (GetProperty p READ_ALL_FIELDS_PROPERTY READ_ALL_FIELDS_DEFAULT) = Inr b1"
    "StrToBool (GetProperty p WRITE_ALL_FIELDS_PROPERTY WRITE_ALL_FIELDS_DEFAULT) = Inr b2"
    "stod (GetProperty p READ_PROPORTION_PROPERTY READ_PROPORTION_DEFAULT) = Inr pr"
    "stod (GetProperty p UPDATE_PROPORTION_PROPERTY UPDATE_PROPORTION_DEFAULT) = Inr pu"
    "stod (GetProperty p DELETE_PROPORTION_PROPERTY DELETE_PROPORTION_DEFAULT) = Inr pd"
    "stod (GetProperty p INSERT_PROPORTION_PROPERTY INSERT_PROPORTION_DEFAULT) = Inr pi"
    "stod (GetProperty p SCAN_PROPORTION_PROPERTY SCAN_PROPORTION_DEFAULT) = Inr ps"
    "stod (GetProperty p READMODIFYWRITE_PROPORTION_PROPERTY READMODIFYWRITE_PROPORTION_DEFAULT) = Inr pm"
    "GetProperty p SCAN_LENGTH_DISTRIBUTION_PROPERTY SCAN_LENGTH_DISTRIBUTION_DEFAULT = ''uniform''"
    "GetProperty p FIELD_LENGTH_DISTRIBUTION_PROPERTY FIELD_LENGTH_DISTRIBUTION_DEFAULT = ''constant'' \<or>
     GetProperty p FIELD_LENGTH_DISTRIBUTION_PROPERTY FIELD_LENGTH_DISTRIBUTION_DEFAULT = ''fixed''"
    "uniform_new E 0 (of_int (c - 1)) = Inr g2" "uniform_new E 1 (of_int m) = Inr g3"
proof -
  note pl = assms [unfolded plain_props_def]
  obtain l where l: "stoi (GetProperty p FIELD_LENGTH_PROPERTY FIELD_LENGTH_DEFAULT) = Inr l"
    using pl stoi_satD by blast
  obtain c where c: "stoi (GetProperty p FIELD_COUNT_PROPERTY FIELD_COUNT_DEFAULT) = Inr c" "1 \<le> c" "c \<le> int_max"
    using pl stoi_satD by blast
  obtain m where m: "stoi (GetProperty p MAX_SCAN_LENGTH_PROPERTY MAX_SCAN_LENGTH_DEFAULT) = Inr m" "1 \<le> m" "m \<le> int_max"
    using pl stoi_satD by blast
  obtain z where z: "stoi (GetProperty p ZERO_PADDING_PROPERTY ZERO_PADDING_DEFAULT) = Inr z"
    using pl stoi_satD by blast
  obtain b1 where b1: "StrToBool (GetProperty p READ_ALL_FIELDS_PROPERTY READ_ALL_FIELDS_DEFAULT) = Inr b1"
    using plain_bool pl by blast
  obtain b2 where b2: "StrToBool (GetProperty p WRITE_ALL_FIELDS_PROPERTY WRITE_ALL_FIELDS_DEFAULT) = Inr b2"
    using plain_bool pl by blast
  have s: "stoi (GetProperty p INSERT_START_PROPERTY INSERT_START_DEFAULT) = Inr 0"
    using pl by (simp add: stoi_literals)
  have n: "stoi (GetProperty p RECORD_COUNT_PROPERTY []) = Inr (int n)"
    using pl by (simp add: stoi_dec_string)
  have mx: "mix_of p \<in> set shipped_mixes" using pl by simp
  have d: "GetProperty p SCAN_LENGTH_DISTRIBUTION_PROPERTY SCAN_LENGTH_DISTRIBUTION_DEFAULT = ''uniform''"
    "GetProperty p FIELD_LENGTH_DISTRIBUTION_PROPERTY FIELD_LENGTH_DISTRIBUTION_DEFAULT = ''constant'' \<or>
     GetProperty p FIELD_LENGTH_DISTRIBUTION_PROPERTY FIELD_LENGTH_DISTRIBUTION_DEFAULT = ''fixed''"
    using pl by simp_all
  obtain g2 where g2: "uniform_new E 0 (of_int (c - 1)) = Inr g2"
    using plain_new(2) [OF c(2,3), of E] by (cases "uniform_new E 0 (of_int (c - 1))") auto
  obtain g3 where g3: "uniform_new E 1 (of_int m) = Inr g3"
    using plain_new(1) [OF m(2,3), of E] by (cases "uniform_new E 1 (of_int m)") auto
  have cm: "c \<noteq> int_min" using c(2) by (simp add: int_min_def)
  from mix_reads [OF mx] show ?thesis
    by (elim exE conjE) (rule that [OF c(1) cm l m(1) z s n b1 b2 _ _ _ _ _ _ d g2 g3])
qed

lemma plain_Init:
  assumes "plain_props p n" "requests_ok E p n" "draws_ok E"
  shows "\<exists>w r'. Init E p workload_new r = Inr (w, r')"
  using assms(1)
proof (rule plain_values [where E = E])
  fix c l m z b1 b2 pr pu pd pi ps pm g2 g3
  assume v: "stoi (GetProperty p FIELD_COUNT_PROPERTY FIELD_COUNT_DEFAULT) = Inr c" "c \<noteq> int_min"
    "stoi (GetProperty p FIELD_LENGTH_PROPERTY FIELD_LENGTH_DEFAULT) = Inr l"
    "stoi (GetProperty p MAX_SCAN_LENGTH_PROPERTY MAX_SCAN_LENGTH_DEFAULT) = Inr m"
    "stoi (GetProperty p ZERO_PADDING_PROPERTY ZERO_PADDING_DEFAULT) = Inr z"
    "stoi (GetProperty p INSERT_START_PROPERTY INSERT_START_DEFAULT) = Inr 0"
    "stoi (GetProperty p RECORD_COUNT_PROPERTY []) = Inr (int n)"
    "StrToBool (GetProperty p READ_ALL_FIELDS_PROPERTY READ_ALL_FIELDS_DEFAULT) = Inr b1"
    "StrToBool (GetProperty p WRITE_ALL_FIELDS_PROPERTY WRITE_ALL_FIELDS_DEFAULT) = Inr b2"
    "stod (GetProperty p READ_PROPORTION_PROPERTY READ_PROPORTION_DEFAULT) = Inr pr"
    "stod (GetProperty p UPDATE_PROPORTION_PROPERTY UPDATE_PROPORTION_DEFAULT) = Inr pu"
    "stod (GetProperty p DELETE_PROPORTION_PROPERTY DELETE_PROPORTION_DEFAULT) = Inr pd"
    and ip: "stod (GetProperty p INSERT_PROPORTION_PROPERTY INSERT_PROPORTION_DEFAULT) = Inr pi"
    and v2: "stod (GetProperty p SCAN_PROPORTION_PROPERTY SCAN_PROPORTION_DEFAULT) = Inr ps"
    "stod (GetProperty p READMODIFYWRITE_PROPORTION_PROPERTY READMODIFYWRITE_PROPORTION_DEFAULT) = Inr pm"
    "GetProperty p SCAN_LENGTH_DISTRIBUTION_PROPERTY SCAN_LENGTH_DISTRIBUTION_DEFAULT = ''uniform''"
    "GetProperty p FIELD_LENGTH_DISTRIBUTION_PROPERTY FIELD_LENGTH_DISTRIBUTION_DEFAULT = ''constant'' \<or>
     GetProperty p FIELD_LENGTH_DISTRIBUTION_PROPERTY FIELD_LENGTH_DISTRIBUTION_DEFAULT = ''fixed''"
    "uniform_new E 0 (of_int (c - 1)) = Inr g2" "uniform_new E 1 (of_int m) = Inr g3"
  have nn: "1 \<le> n" "n \<le> 2147483647" using assms(1) by (simp_all add: plain_props_def)
  obtain g1 r1 where g1: "init_key_chooser E p
      (GetProperty p REQUEST_DISTRIBUTION_PROPERTY REQUEST_DISTRIBUTION_DEFAULT)
      (of_nat n) pi (counter_new (of_nat n)) r = Inr (g1, r1)"
    using request_chooser [OF assms(2,3) nn ip] by blast
  show ?thesis
    by (simp add: Init_def GetFieldLenGenerator_def init_field_chooser_def init_scan_len_def Let_def
        v ip v2 g1 counter_set_new del: of_int_diff)
qed

text \<open>What \<open>Init\<close> makes of a plain property file.\<close>

lemma plain_ready:
  assumes "plain_props p n" "Init E p workload_new r = Inr (w, r')" "draws_ok E" "requests_ok E p n"
  shows "wl_ready E w \<and> nonempty_values w \<and> w_key_generator w = Counter_Gen (counter_new 0) \<and>
    w_insert_key_sequence w = counter_new (of_nat n)"
proof -
  note pl = assms(1) [unfolded plain_props_def]
  have s: "stoi (GetProperty p INSERT_START_PROPERTY INSERT_START_DEFAULT) = Inr 0"
    using pl by (simp add: stoi_literals)
  have n: "stoi (GetProperty p RECORD_COUNT_PROPERTY []) = Inr (int n)" "int n \<le> int_max"
    using pl by (simp_all add: stoi_dec_string int_max_def)
  from Init_fields [OF assms(2)] obtain msl ip r1 r2 where
    f: "stoi (GetProperty p ZERO_PADDING_PROPERTY ZERO_PADDING_DEFAULT) = Inr (w_zero_padding w)"
      "stoi (GetProperty p FIELD_COUNT_PROPERTY FIELD_COUNT_DEFAULT) = Inr (w_field_count w)"
      "stoi (GetProperty p MAX_SCAN_LENGTH_PROPERTY MAX_SCAN_LENGTH_DEFAULT) = Inr msl"
      "w_insert_key_sequence w = counter_new (of_int (int n))"
      "w_key_generator w = Counter_Gen (counter_new (of_int 0))"
      "GetFieldLenGenerator E p r = Inr (w_field_len_generator w, r1)"
      "init_field_chooser E (w_field_count w) = Inr (w_field_chooser w)"
      "init_scan_len E ''uniform'' msl r2 = Inr (w_scan_len_chooser w, r')"
    using pl unfolding s n(1) by auto
  obtain l where l: "stoi (GetProperty p FIELD_LENGTH_PROPERTY FIELD_LENGTH_DEFAULT) = Inr l" "1 \<le> l" "l \<le> int_max"
    using pl stoi_satD by blast
  have len: "w_field_len_generator w = Const_Gen (const_new l)"
    using f(6) pl l(1) by (auto simp: GetFieldLenGenerator_def Let_def)
  have m: "1 \<le> msl" "msl \<le> int_max" using pl f(3) stoi_satD by fastforce+
  have c: "1 \<le> w_field_count w" using pl f(2) stoi_satD by fastforce
  have z: "w_zero_padding w \<le> int_max - 4" using pl f(1) stoi_satD by fastforce
  obtain u where u: "w_field_chooser w = Uniform_Gen u"
    using f(7) by (auto simp: init_field_chooser_def bind_r_eq_Inr dest: sym split: if_splits)
  obtain v where v: "w_scan_len_chooser w = Uniform_Gen v" "uniform_ok v" "u_max v = of_int msl"
    using f(8) uniform_new_ok [of E 1 "of_int msl"] by (auto simp: init_scan_len_def bind_r_eq_Inr dest: sym)
  obtain ps where ps: "map stod (mix_of p) = map Inr ps" "w_op_chooser w = mix_chooser ps"
    using Init_mix [OF assms(2) small_op_start] by blast
  have mix: "mix_safe (w_op_chooser w)" using pl shipped_mix_safe [OF _ ps(1)] ps(2) by simp
  have nn: "1 \<le> n" "n \<le> 2147483647" using pl by simp_all
  obtain ip ra rb where i: "stod (GetProperty p INSERT_PROPORTION_PROPERTY INSERT_PROPORTION_DEFAULT) = Inr ip"
    and q: "init_key_chooser E p (GetProperty p REQUEST_DISTRIBUTION_PROPERTY REQUEST_DISTRIBUTION_DEFAULT)
      (of_nat n) ip (counter_new (of_nat n)) ra = Inr (w_key_chooser w, rb)"
    using Init_requests [OF assms(2)] unfolding n(1) by auto
  have ch: "chooser_returns E (counter_new (of_nat n)) (w_key_chooser w)"
    using request_chooser [OF assms(4,3) nn i, of ra] unfolding q by simp
  have "wl_ready E w"
    using assms(3) z mix ch f(4,5) word_of_pos(2) [OF l(2,3)]
      word_of_pos(2) [OF m] v
    by (auto simp: wl_ready_def padding_ok_def len u scan_lengths_ok_def const_new_def intro: order_trans)
  moreover have "nonempty_values w"
    using c word_of_pos(3) [OF l(2,3)] l(2) by (simp add: nonempty_values_def value_len_def len const_new_def)
  ultimately show ?thesis using f(4,5) by simp
qed

lemma plain_keeps:
  assumes "Init E p workload_new r = Inr (w, r')"
    and "stod (GetProperty p DELETE_PROPORTION_PROPERTY DELETE_PROPORTION_DEFAULT) = Inr dp" "\<not> 0 < dp"
  shows "DELETE \<notin> fst ` set (d_values (w_op_chooser w))"
proof -
  from Init_ops [OF assms(1)] obtain rp up ip sp mp where
    "w_op_chooser w = add_op READMODIFYWRITE mp (add_op SCAN sp (add_op INSERT ip
       (add_op DELETE dp (add_op UPDATE up (add_op READ rp (w_op_chooser workload_new))))))"
    using assms(2) by auto
  with assms(3) show ?thesis by (simp add: add_op_values small_op_start)
qed

section \<open>Requests and the load\<close>

text \<open>
  C11: with key numbers starting at 0 and any of the three request distributions, prepared
  in order, after \<open>recordcount\<close> load inserts every transaction key, of any number of
  transactions, is the key of a loaded record, and choosing it ends and does not fail.
\<close>

theorem requests_hit_load:
  assumes "Init E p w0 r0 = Inr (w, r)" "requests_ok E p n" "draws_ok E"
    and "GetProperty p INSERT_START_PROPERTY INSERT_START_DEFAULT = ''0''"
    and "GetProperty p RECORD_COUNT_PROPERTY [] = dec_string n" "1 \<le> n" "n \<le> 2147483647"
    and "padding_ok w" "draws (NextSequenceKey E) n w r = Inr (loaded, w1, r1)"
  shows "\<exists>ss w2 r2. draws (NextTransactionKey E) m w1 r1 = Inr (ss, w2, r2) \<and>
    length ss = m \<and> set ss \<subseteq> set loaded"
proof -
  have n: "stoi (GetProperty p RECORD_COUNT_PROPERTY []) = Inr (int n)"
    using assms(5,7) by (simp add: stoi_dec_string)
  have s: "stoi (GetProperty p INSERT_START_PROPERTY INSERT_START_DEFAULT) = Inr 0"
    using assms(4) by (simp add: stoi_literals)
  have f: "w_insert_key_sequence w = counter_new (of_nat n)" "w_key_generator w = Counter_Gen (counter_new 0)"
    using Init_fields [OF assms(1)] unfolding n s by auto
  obtain ip ra rb where i: "stod (GetProperty p INSERT_PROPORTION_PROPERTY INSERT_PROPORTION_DEFAULT) = Inr ip"
    and q: "init_key_chooser E p (GetProperty p REQUEST_DISTRIBUTION_PROPERTY REQUEST_DISTRIBUTION_DEFAULT)
      (of_nat n) ip (counter_new (of_nat n)) ra = Inr (w_key_chooser w, rb)"
    using Init_requests [OF assms(1)] unfolding n by auto
  have "chooser_returns E (counter_new (of_nat n)) (w_key_chooser w)"
    using request_chooser [OF assms(2,3,6,7) i, of ra] unfolding q by simp
  then show ?thesis
    using assms(6-9) f by (intro transaction_keys_in_load [where n = "int n"]) (simp_all add: int_max_def)
qed

section \<open>A load followed by a run\<close>

lemma loaded_present:
  assumes "w_insert_key_sequence w = counter_new (of_nat n)" "1 \<le> n" "n \<le> 2147483647"
    and "nonempty_values w" "loaded_map w (key_block w 0 n) m m'"
  shows "present w m'"
  unfolding present_def
proof (intro allI impI)
  fix k name
  assume k: "k \<le> counter_last (w_insert_key_sequence w)" "BuildKeyName w k = Inr name"
  have "unat k < nat (int n)"
    using assms(1-3) k(1) by (intro counter_last_of_int) (simp_all add: int_max_def)
  then have "unat k < n" by simp
  with k(2) have "name \<in> key_block w 0 n"
    by (auto simp: key_block_def intro!: exI [of _ "unat k"])
  then show "\<exists>v. m' name = Some v \<and> v \<noteq> []"
    using assms(4) spec [OF assms(5) [unfolded loaded_map_def], of name] by simp
qed

context kv_db
begin

lemma load_ready:
  assumes "wl_ready E w" "nonempty_values w" "DELETE \<notin> fst ` set (d_values (w_op_chooser w))"
    and "w_key_generator w = Counter_Gen (counter_new 0)" "w_insert_key_sequence w = counter_new (of_nat n)"
    and "1 \<le> n" "n \<le> 2147483647" "ok s" "1 \<le> nt" "nt dvd int n"
  shows "\<exists>w1 r1 s1. run_phase E D True (int n) nt sch w r s = Inr (int n, w1, r1, s1) \<and>
    wl_ready E w1 \<and> ok s1 \<and> keeps_records w1 \<and> present w1 (content s1)"
proof -
  have N: "nt * (int n div nt) = int n" using assms(10) by simp
  have z: "counter_val (counter_new 0) = 0" by (simp add: counter_new_def)
  have "\<exists>w' r' s'. run_phase E D True (int n) nt sch w r s = Inr (int n, w', r', s') \<and>
    wl_ready E w' \<and> same_run w w' \<and> ok s' \<and> loaded_map w (key_block w 0 n) (content s) (content s')"
    using load_phase [OF assms(1,4,8) _ assms(9), of "int n" sch r] unfolding N z nat_int by simp
  then obtain w1 r1 s1 where l: "run_phase E D True (int n) nt sch w r s = Inr (int n, w1, r1, s1)"
    "wl_ready E w1" "same_run w w1" "ok s1" "loaded_map w (key_block w 0 n) (content s) (content s1)"
    by blast
  have "present w (content s1)" using loaded_present [OF assms(5-7,2) l(5)] .
  then have "present w1 (content s1)" using same_run_present [OF l(3)] by simp
  moreover have "keeps_records w1"
    using assms(2,3) l(3) same_run_values [OF l(3)]
    by (simp add: keeps_records_def nonempty_values_def same_run_def)
  ultimately show ?thesis using l(1,2,4) by blast
qed

lemma load_then_run:
  assumes "wl_ready E w" "nonempty_values w" "DELETE \<notin> fst ` set (d_values (w_op_chooser w))"
    and "w_key_generator w = Counter_Gen (counter_new 0)" "w_insert_key_sequence w = counter_new (of_nat n)"
    and "1 \<le> n" "n \<le> 2147483647" "ok s" "1 \<le> nt" "nt dvd int n" "0 \<le> ops"
  shows "\<exists>w1 r1 s1 w2 r2 s2. run_phase E D True (int n) nt sch w r s = Inr (int n, w1, r1, s1) \<and>
    run_phase E D False ops nt sch2 w1 r1 s1 = Inr (nt * (ops div nt), w2, r2, s2)"
proof -
  obtain w1 r1 s1 where l: "run_phase E D True (int n) nt sch w r s = Inr (int n, w1, r1, s1)"
    "wl_ready E w1" "ok s1" "keeps_records w1" "present w1 (content s1)"
    using load_ready [OF assms(1-10)] by blast
  obtain w2 r2 s2 where "run_phase E D False ops nt sch2 w1 r1 s1 =
      Inr (nt * (ops div nt), w2, r2, s2)"
    using run_phase_good [OF l(2,3) assms(11,9), of True sch2 r1] l(4,5) by auto
  with l(1) show ?thesis by blast
qed

end

section \<open>The load phase\<close>

lemma loaded_map_dom:
  assumes "loaded_map w ks m m'"
  shows "\<forall>k. if k \<in> ks then m' k \<noteq> None else m' k = m k"
proof
  fix k
  show "if k \<in> ks then m' k \<noteq> None else m' k = m k"
    using spec [OF assms [unfolded loaded_map_def], of k] by (auto split: if_splits)
qed

text \<open>
  C9: over a store that behaves as documented, the load phase of a ready workload inserts
  one record for each of \<open>num_threads * (total_ops / num_threads)\<close> consecutive key numbers
  and reports that number, in whatever order the threads take their turns; nothing
  else in the store changes, and so the last \<open>total_ops mod num_threads\<close> records are
  never loaded.
\<close>

theorem load_phase_stores:
  assumes "lsm_laws A content valid" "valid s" "D = split_db A \<or> D = unified_db A"
    and "wl_ready E w" "w_key_generator w = Counter_Gen c" "0 \<le> total_ops" "1 \<le> num_threads"
  shows "\<exists>w' r' s'. run_phase E D True total_ops num_threads sched w r s =
      Inr (total_ops - total_ops mod num_threads, w', r', s') \<and> valid s' \<and>
    (\<forall>k. if k \<in> key_block w (counter_val c) (nat (total_ops - total_ops mod num_threads))
         then content s' k \<noteq> None else content s' k = content s k)"
proof -
  have n: "num_threads * (total_ops div num_threads) = total_ops - total_ops mod num_threads"
    by (simp add: minus_mod_eq_mult_div)
  have ok: "lsm_laws A content valid \<and> valid s" using assms(1,2) by simp
  have "\<exists>w' r' s'. run_phase E D True total_ops num_threads sched w r s =
      Inr (total_ops - total_ops mod num_threads, w', r', s') \<and> valid s' \<and>
    loaded_map w (key_block w (counter_val c) (nat (total_ops - total_ops mod num_threads)))
      (content s) (content s')"
    using assms(3) split_i.load_phase [OF assms(4,5) ok assms(6,7), of sched r]
      unified_i.load_phase [OF assms(4,5) ok assms(6,7), of sched r]
    unfolding n by blast
  then show ?thesis using loaded_map_dom by blast
qed

section \<open>Load and run\<close>

lemma plain_run:
  assumes "plain_props p n" "draws_ok E"
    and "stod (GetProperty p DELETE_PROPORTION_PROPERTY DELETE_PROPORTION_DEFAULT) = Inr dp" "\<not> 0 < dp"
    and "lsm_laws A content valid" "valid s" "D = split_db A \<or> D = unified_db A"
    and "1 \<le> nt" "nt dvd int n" "0 \<le> ops" "requests_ok E p n"
  shows "\<exists>w r' w1 r1 s1 w2 r2 s2. Init E p workload_new r = Inr (w, r') \<and>
    run_phase E D True (int n) nt load_sched w r' s = Inr (int n, w1, r1, s1) \<and>
    run_phase E D False ops nt run_sched w1 r1 s1 = Inr (ops - ops mod nt, w2, r2, s2)"
proof -
  obtain w r' where i: "Init E p workload_new r = Inr (w, r')" using plain_Init [OF assms(1,11,2)] by blast
  have w: "wl_ready E w" "nonempty_values w" "w_key_generator w = Counter_Gen (counter_new 0)"
    "w_insert_key_sequence w = counter_new (of_nat n)"
    using plain_ready [OF assms(1) i assms(2,11)] by simp_all
  have n: "1 \<le> n" "n \<le> 2147483647" using assms(1) by (simp_all add: plain_props_def)
  have m: "nt * (ops div nt) = ops - ops mod nt" by (simp add: minus_mod_eq_mult_div)
  have ok: "lsm_laws A content valid \<and> valid s" using assms(5,6) by simp
  note run = w(1,2) plain_keeps [OF i assms(3,4)] w(3,4) n ok assms(8-10)
  have "\<exists>w1 r1 s1 w2 r2 s2. run_phase E D True (int n) nt load_sched w r' s = Inr (int n, w1, r1, s1) \<and>
    run_phase E D False ops nt run_sched w1 r1 s1 = Inr (ops - ops mod nt, w2, r2, s2)"
    using assms(7) split_i.load_then_run [OF run, of load_sched r' run_sched]
      unified_i.load_then_run [OF run, of load_sched r' run_sched] unfolding m by blast
  with i show ?thesis by blast
qed

text \<open>
  with a plain property file that deletes nothing, any of the three request
  distributions prepared in order, a number of threads that divides
  \<open>recordcount\<close>, and a store that behaves as documented, \<open>Init\<close> returns, the load phase
  reports \<open>recordcount\<close> records, and every operation of the run phase succeeds, whatever the
  schedules, the random draws and the contents of the store before.
\<close>

theorem plain_run_succeeds:
  assumes "plain_props p n" "draws_ok E"
    and "stod (GetProperty p DELETE_PROPORTION_PROPERTY DELETE_PROPORTION_DEFAULT) = Inr dp" "\<not> 0 < dp"
    and "lsm_laws A content valid" "valid s" "D = split_db A \<or> D = unified_db A"
    and "1 \<le> nt" "nt dvd int n" "0 \<le> ops" "requests_ok E p n"
  shows "\<exists>w r' w1 r1 s1 w2 r2 s2. Init E p workload_new r = Inr (w, r') \<and>
    run_phase E D True (int n) nt load_sched w r' s = Inr (int n, w1, r1, s1) \<and>
    run_phase E D False ops nt run_sched w1 r1 s1 = Inr (ops - ops mod nt, w2, r2, s2)"
  by (rule plain_run [OF assms])

section \<open>A small run\<close>

text \<open>Three threads, three records and ten operations on list stores.\<close>

definition sample_cli :: "cli_option list" where
  "sample_cli =
     [Database ''unifiedlsm'', Threads ''3'', Set_Property ''recordcount'' ''3'',
      Set_Property ''operationcount'' ''10'', Set_Property ''requestdistribution'' ''zipfian'', Set_Property ''unifiedlsm.dbpath'' ''x'']"

definition sample_argv :: "string list" where
  "sample_argv =
     [''ycsbc'', ''-db'', ''unifiedlsm'', ''-threads'', ''3'', ''-p'', ''recordcount=3'',
      ''-p'', ''operationcount=10'', ''-p'', ''requestdistribution=zipfian'', ''-p'', ''unifiedlsm.dbpath=x'']"

definition sample_opts :: options where
  "sample_opts =
     \<lparr>op_props = [''dbname'' \<mapsto> ''unifiedlsm'', ''threadcount'' \<mapsto> ''3'', ''recordcount'' \<mapsto> ''3'',
        ''operationcount'' \<mapsto> ''10'', ''requestdistribution'' \<mapsto> ''zipfian'',
        ''unifiedlsm.dbpath'' \<mapsto> ''x''],
      op_load = False, op_run = False, op_filename = []\<rparr>"

lemma sample_parse: "ParseCommandLine Map.empty sample_argv = Inr sample_opts"
proof -
  have "list_all cli_ok sample_cli" by (simp add: sample_cli_def cli_ok_def)
  from ParseCommandLine_cli [OF this, of "[]" Map.empty "''ycsbc''"] show ?thesis
    by (simp add: sample_cli_def sample_argv_def start_options_def sample_opts_def)
qed


lemma sample_plain: "plain_props (op_props sample_opts) 3"
proof -
  have d: "dec_string 3 = ''3''" by code_simp
  show ?thesis
    by (simp add: plain_props_def sample_opts_def GetProperty_def prop_names d stoi_sat_def
        stoi_literals int_max_def mix_of_def mix_names_def shipped_mixes_def)
qed

text \<open>The Zipf generator over the three records is the one evaluated in theory \<open>Zipfian\<close>.\<close>

lemma sample_ratio: "zeta_ratio_ok (sample_env u) 3"
proof -
  have "zeta_sum (sample_env u) kZipfianConst [1..<3] 0 = Fin (3385530973688771 / 2251799813685248)"
    "zeta_sum (sample_env u) kZipfianConst [1..<Suc 3] 0 = Fin (8288845115732705 / 4503599627370496)"
    by (simp_all add: zeta_sum_def upt_small sample_eval)
  then show ?thesis
    by (simp add: zeta_ratio_ok_def theta_val sample_eval)
qed

lemma sample_requests: "requests_ok (sample_env u) (op_props sample_opts) 3"
  by (simp add: requests_ok_def sample_opts_def GetProperty_def prop_names stoi_literals stod_literals
      sample_pow_unit sample_ratio)

lemmas sample_Init = plain_Init [OF sample_plain sample_requests sample_draws_ok]
lemmas sample_ready = plain_ready [OF sample_plain _ sample_draws_ok sample_requests]

lemma sample_deletes:
  "stod (GetProperty (op_props sample_opts) DELETE_PROPORTION_PROPERTY DELETE_PROPORTION_DEFAULT) = Inr (Fin 0)"
  "\<not> 0 < (Fin 0 :: double)"
  by (simp_all add: sample_opts_def GetProperty_def prop_names stod_literals double_ops)

theorem plain_run_succeeds_witness:
  "\<exists>w r' w1 r1 s1 w2 r2 s2.
     Init (sample_env (Fin 0)) (op_props sample_opts) workload_new \<lparr>canon_pos = 0, crand_pos = 0\<rparr> = Inr (w, r') \<and>
     run_phase (sample_env (Fin 0)) (split_db list_store) True 3 3 [2, 0] w r' [] = Inr (3, w1, r1, s1) \<and>
     run_phase (sample_env (Fin 0)) (split_db list_store) False 10 3 [1] w1 r1 s1 = Inr (9, w2, r2, s2)"
proof -
  have v: "list_valid []" by (simp add: list_valid_def)
  have d: "(3 :: int) dvd int 3" by simp
  have "split_db list_store = split_db list_store \<or> split_db list_store = unified_db list_store" by simp
  from plain_run_succeeds [OF sample_plain sample_draws_ok sample_deletes list_store_laws v this _ d _ sample_requests,
      of 10 "\<lparr>canon_pos = 0, crand_pos = 0\<rparr>" "[2, 0]" "[1]"]
  show ?thesis by simp
qed

theorem load_phase_stores_witness:
  "\<exists>w r' w1 r1 s1.
     Init (sample_env (Fin 0)) (op_props sample_opts) workload_new \<lparr>canon_pos = 0, crand_pos = 0\<rparr> = Inr (w, r') \<and>
     run_phase (sample_env (Fin 0)) (unified_db list_store) True 3 2 [1] w r' [(''old'', ''x'')] = Inr (2, w1, r1, s1) \<and>
     (\<forall>k \<in> key_block w 0 2. map_of s1 k \<noteq> None)"
proof -
  let ?E = "sample_env (Fin 0)"
  obtain w r' where i: "Init ?E (op_props sample_opts) workload_new \<lparr>canon_pos = 0, crand_pos = 0\<rparr> = Inr (w, r')"
    using sample_Init by blast
  have w: "wl_ready ?E w" "w_key_generator w = Counter_Gen (counter_new 0)"
    using sample_ready [OF i] by simp_all
  have v: "list_valid [(''old'', ''x'')]" by (simp add: list_valid_def)
  have z: "counter_val (counter_new 0) = 0" by (simp add: counter_new_def)
  have "unified_db list_store = split_db list_store \<or> unified_db list_store = unified_db list_store" by simp
  from load_phase_stores [OF list_store_laws v this w, of 3 2 "[1]" r'] i show ?thesis
    unfolding z by (auto split: if_splits)
qed

theorem requests_hit_load_witness:
  "\<exists>w r loaded w1 r1 ss w2 r2.
     Init (sample_env (Fin 0)) (op_props sample_opts) workload_new \<lparr>canon_pos = 0, crand_pos = 0\<rparr> = Inr (w, r) \<and>
     draws (NextSequenceKey (sample_env (Fin 0))) 3 w r = Inr (loaded, w1, r1) \<and>
     draws (NextTransactionKey (sample_env (Fin 0))) 5 w1 r1 = Inr (ss, w2, r2) \<and>
     length ss = 5 \<and> set ss \<subseteq> set loaded"
proof -
  let ?E = "sample_env (Fin 0)" and ?r = "\<lparr>canon_pos = 0, crand_pos = 0\<rparr>"
  obtain w r where i: "Init ?E (op_props sample_opts) workload_new ?r = Inr (w, r)"
    using sample_Init by blast
  have w: "padding_ok w" "w_key_generator w = Counter_Gen (counter_new 0)"
    using sample_ready [OF i] by (simp_all add: wl_ready_def)
  obtain loaded w1 r1 where l: "draws (NextSequenceKey ?E) 3 w r = Inr (loaded, w1, r1)"
    using sequence_keys_run [OF w, of ?E 3 r] by blast
  have p: "GetProperty (op_props sample_opts) INSERT_START_PROPERTY INSERT_START_DEFAULT = ''0''"
    "GetProperty (op_props sample_opts) RECORD_COUNT_PROPERTY [] = dec_string 3"
    using sample_plain by (simp_all add: plain_props_def)
  from requests_hit_load [OF i sample_requests sample_draws_ok p _ _ w(1) l, of 5] i l show ?thesis by auto
qed

end
