(* ===== verification/Workload_Types.thy ===== *)
theory Workload_Types
  imports Run_Facts
begin

text \<open>
  The classes of the generators behind the pointers of a \<open>CoreWorkload\<close>.  The properties
  decide them; a property file with an unknown distribution is rejected; every operation,
  and so every phase over any database, leaves them as they are; and the destructor
  deletes one object per pointer.
\<close>

section \<open>Classes\<close>

datatype gen_class =
    NULL | CounterGenerator | ConstGenerator | UniformGenerator | ZipfianGenerator
  | ScrambledZipfianGenerator | SkewedLatestGenerator

fun class_of :: "gen \<Rightarrow> gen_class" where
  "class_of Null_Gen = NULL"
| "class_of (Counter_Gen g) = CounterGenerator"
| "class_of (Const_Gen g) = ConstGenerator"
| "class_of (Uniform_Gen g) = UniformGenerator"
| "class_of (Zipfian_Gen g) = ZipfianGenerator"
| "class_of (Scrambled_Gen g) = ScrambledZipfianGenerator"
| "class_of (Latest_Gen g) = SkewedLatestGenerator"

text \<open>The five pointers, in the order of the destructor.\<close>

definition pointers :: "workload \<Rightarrow> gen list" where
  "pointers w =
     [w_field_len_generator w, w_key_generator w, w_key_chooser w, w_field_chooser w, w_scan_len_chooser w]"

definition classes :: "workload \<Rightarrow> gen_class list" where
  "classes w = map class_of (pointers w)"

text \<open>\<open>~CoreWorkload\<close>: the objects it deletes.\<close>

definition CoreWorkload_delete :: "workload \<Rightarrow> gen list" where
  "CoreWorkload_delete w =
     (if w_field_len_generator w \<noteq> Null_Gen then [w_field_len_generator w] else []) @
     (if w_key_generator w \<noteq> Null_Gen then [w_key_generator w] else []) @
     (if w_key_chooser w \<noteq> Null_Gen then [w_key_chooser w] else []) @
     (if w_field_chooser w \<noteq> Null_Gen then [w_field_chooser w] else []) @
     (if w_scan_len_chooser w \<noteq> Null_Gen then [w_scan_len_chooser w] else [])"

lemma class_of_NULL [simp]: "class_of g = NULL \<longleftrightarrow> g = Null_Gen"
  by (cases g) simp_all

lemma delete_all: "NULL \<notin> set (classes w) \<Longrightarrow> CoreWorkload_delete w = pointers w"
  by (auto simp: CoreWorkload_delete_def classes_def pointers_def)

lemma delete_none: "CoreWorkload_delete workload_new = []"
  by (simp add: CoreWorkload_delete_def workload_new_def)

section \<open>The classes a property file asks for\<close>

definition length_class :: "string \<Rightarrow> gen_class option" where
  "length_class d =
     (if d \<in> {''constant'', ''fixed''} then Some ConstGenerator
      else if d = ''uniform'' then Some UniformGenerator
      else if d = ''zipfian'' then Some ZipfianGenerator else None)"

definition request_class :: "string \<Rightarrow> gen_class option" where
  "request_class d =
     (if d = ''uniform'' then Some UniformGenerator
      else if d = ''zipfian'' then Some ScrambledZipfianGenerator
      else if d = ''latest'' then Some SkewedLatestGenerator else None)"

definition scan_class :: "string \<Rightarrow> gen_class option" where
  "scan_class d =
     (if d = ''uniform'' then Some UniformGenerator
      else if d = ''zipfian'' then Some ZipfianGenerator else None)"

definition property_classes :: "properties \<Rightarrow> gen_class list option" where
  "property_classes p =
     (case (length_class (GetProperty p FIELD_LENGTH_DISTRIBUTION_PROPERTY FIELD_LENGTH_DISTRIBUTION_DEFAULT),
            request_class (GetProperty p REQUEST_DISTRIBUTION_PROPERTY REQUEST_DISTRIBUTION_DEFAULT),
            scan_class (GetProperty p SCAN_LENGTH_DISTRIBUTION_PROPERTY SCAN_LENGTH_DISTRIBUTION_DEFAULT)) of
        (Some len, Some req, Some scan) \<Rightarrow> Some [len, CounterGenerator, req, UniformGenerator, scan]
      | _ \<Rightarrow> None)"

lemma length_classI:
  "GetFieldLenGenerator E p r = Inr (g, r') \<Longrightarrow>
    length_class (GetProperty p FIELD_LENGTH_DISTRIBUTION_PROPERTY FIELD_LENGTH_DISTRIBUTION_DEFAULT) =
      Some (class_of g)"
  by (auto simp: GetFieldLenGenerator_def length_class_def bind_r_eq_Inr Let_def split: if_splits)

lemma request_classI:
  "init_key_chooser E p d rc ip seq r = Inr (g, r') \<Longrightarrow> request_class d = Some (class_of g)"
  by (auto simp: init_key_chooser_def request_class_def bind_r_eq_Inr split: if_splits)

lemma scan_classI:
  "init_scan_len E d m r = Inr (g, r') \<Longrightarrow> scan_class d = Some (class_of g)"
  by (auto simp: init_scan_len_def scan_class_def bind_r_eq_Inr split: if_splits)

lemma field_classI:
  "init_field_chooser E n = Inr g \<Longrightarrow> class_of g = UniformGenerator"
  by (auto simp: init_field_chooser_def bind_r_eq_Inr split: if_splits)

lemma Init_classes:
  assumes "Init E p w0 r0 = Inr (w, r)"
  shows "property_classes p = Some (classes w)"
proof -
  obtain rc ip m start r1 r2 where
    "GetFieldLenGenerator E p r0 = Inr (w_field_len_generator w, r1)"
    "init_key_chooser E p (GetProperty p REQUEST_DISTRIBUTION_PROPERTY REQUEST_DISTRIBUTION_DEFAULT)
      (of_int rc) ip (counter_new (of_int rc)) r1 = Inr (w_key_chooser w, r2)"
    "init_field_chooser E (w_field_count w) = Inr (w_field_chooser w)"
    "init_scan_len E (GetProperty p SCAN_LENGTH_DISTRIBUTION_PROPERTY SCAN_LENGTH_DISTRIBUTION_DEFAULT)
      m r2 = Inr (w_scan_len_chooser w, r)"
    "w_key_generator w = Counter_Gen (counter_new (of_int start))"
    using Init_fields [OF assms] by blast
  then show ?thesis
    by (simp add: property_classes_def classes_def pointers_def length_classI request_classI scan_classI
        field_classI)
qed

lemma property_classes_not_null: "property_classes p = Some cs \<Longrightarrow> length cs = 5 \<and> NULL \<notin> set cs"
  by (auto simp: property_classes_def length_class_def request_class_def scan_class_def
      split: option.splits if_splits)

section \<open>Preservation\<close>

text \<open>What a call may change: the state of the generators, not their classes, nor the settings.\<close>

definition same_types :: "workload \<Rightarrow> workload \<Rightarrow> bool" where
  "same_types w w' \<longleftrightarrow> classes w' = classes w \<and> settings w' = settings w"

lemma same_types_refl [simp]: "same_types w w"
  by (simp add: same_types_def)

lemma same_types_trans [trans]: "same_types u v \<Longrightarrow> same_types v w \<Longrightarrow> same_types u w"
  by (simp add: same_types_def)

lemma gen_next_class: "gen_next E seq g r = Inr (v, g', r') \<Longrightarrow> class_of g' = class_of g"
  by (cases g) (auto simp: bind_r_eq_Inr Let_def split: prod.splits)

lemma key_loop_class:
  assumes "key_loop E seq g r = Some (Inr (v, g', r'))"
  shows "class_of g' = class_of g"
proof -
  have "case_sum (\<lambda>_. True) (\<lambda>(v, g', r'). class_of g' = class_of g) (Inr (v, g', r') :: stop + _)"
  proof (rule key_loop.raw_induct [OF _ assms], goal_cases)
    case (1 loop E seq g r res)
    show ?case
    proof (cases "gen_next E seq g r")
      case (Inr x)
      obtain k h q where x: "x = (k, h, q)" by (cases x)
      have h: "class_of h = class_of g" using Inr gen_next_class by (simp add: x)
      show ?thesis
      proof (cases "k > counter_last seq")
        case True
        then have "loop E seq h q = Some res" using 1(2) Inr by (simp add: x)
        from 1(1) [OF this] show ?thesis by (simp only: h)
      next
        case False
        then have "res = Inr (k, h, q)" using 1(2) Inr by (simp add: x)
        then show ?thesis by (simp add: h)
      qed
    qed (use 1(2) in \<open>auto split: sum.splits\<close>)
  qed
  then show ?thesis by simp
qed

lemma classes_update:
  "class_of g = class_of (w_field_len_generator w) \<Longrightarrow> same_types w (w\<lparr>w_field_len_generator := g\<rparr>)"
  "class_of g = class_of (w_key_generator w) \<Longrightarrow> same_types w (w\<lparr>w_key_generator := g\<rparr>)"
  "class_of g = class_of (w_key_chooser w) \<Longrightarrow> same_types w (w\<lparr>w_key_chooser := g\<rparr>)"
  "class_of g = class_of (w_field_chooser w) \<Longrightarrow> same_types w (w\<lparr>w_field_chooser := g\<rparr>)"
  "class_of g = class_of (w_scan_len_chooser w) \<Longrightarrow> same_types w (w\<lparr>w_scan_len_chooser := g\<rparr>)"
  "same_types w (w\<lparr>w_op_chooser := d\<rparr>)"
  by (simp_all add: same_types_def classes_def pointers_def)

lemma next_value_types: "next_value E w r = Inr (v, w', r') \<Longrightarrow> same_types w w'"
  by (auto simp: next_value_def RandomPrintChar_def bind_r_eq_Inr dest: gen_next_class intro: classes_update)

lemma values_loop_types: "values_loop E is kvs w r = Inr (kvs', w', r') \<Longrightarrow> same_types w w'"
  by (induction "is" arbitrary: kvs w r)
    (auto simp: bind_r_eq_Inr dest: next_value_types intro: same_types_trans)

lemma NextFieldName_types: "NextFieldName E w r = Inr (f, w', r') \<Longrightarrow> same_types w w'"
  by (auto simp: NextFieldName_def bind_r_eq_Inr dest: gen_next_class intro: classes_update)

lemma workload_types:
  "NextSequenceKey E w r = Inr (k, w', r') \<Longrightarrow> same_types w w'"
  "NextTransactionKey E w r = Inr (k, w', r') \<Longrightarrow> same_types w w'"
  "NextOperation E w r = Inr (op, w', r') \<Longrightarrow> same_types w w'"
  "NextScanLength E w r = Inr (n, w', r') \<Longrightarrow> same_types w w'"
  "BuildValues E kvs w r = Inr (kvs', w', r') \<Longrightarrow> same_types w w'"
  "BuildUpdate E kvs w r = Inr (kvs', w', r') \<Longrightarrow> same_types w w'"
  by (auto simp: NextSequenceKey_def NextTransactionKey_def NextOperation_def
      NextScanLength_def BuildValues_def BuildUpdate_def bind_r_eq_Inr
      dest: gen_next_class key_loop_class values_loop_types NextFieldName_types next_value_types
      intro: classes_update same_types_trans split: option.splits)

lemma choose_types:
  "choose_fields E w r = Inr (fs, w', r') \<Longrightarrow> same_types w w'"
  "choose_values E w r = Inr (kvs, w', r') \<Longrightarrow> same_types w w'"
  by (auto simp: choose_fields_def choose_values_def bind_r_eq_Inr
      dest: workload_types NextFieldName_types split: if_splits)

lemma transaction_types:
  assumes "transaction_of op E D w r s = Inr (st, w', r', s')"
  shows "same_types w w'"
  using assms
  by (cases op) (auto simp: transaction_of_def TransactionRead_def TransactionUpdate_def
      TransactionDelete_def TransactionInsert_def TransactionScan_def
      TransactionReadModifyWrite_def bind_r_eq_Inr Let_def
      dest!: workload_types choose_types intro: same_types_trans)

lemma client_types:
  "DoTransaction E D w r s = Inr (b, w', r', s') \<Longrightarrow> same_types w w'"
  "DoInsert E D w r s = Inr (b, w', r', s') \<Longrightarrow> same_types w w'"
  by (auto simp: DoTransaction_def DoInsert_def bind_r_eq_Inr
      dest!: workload_types transaction_types intro: same_types_trans)

lemma run_schedule_types:
  "run_schedule E D ld sch t = Inr t' \<Longrightarrow> same_types (th_wl t) (th_wl t')"
proof (induction sch arbitrary: t)
  case (Cons i sch)
  then obtain t1 where t1: "thread_step E D ld i t = Inr t1" "run_schedule E D ld sch t1 = Inr t'"
    by (auto simp: bind_r_eq_Inr)
  have "same_types (th_wl t) (th_wl t1)"
    using t1(1) by (auto simp: thread_step_def bind_r_eq_Inr dest: client_types split: if_splits)
  with Cons.IH [OF t1(2)] show ?case by (rule same_types_trans [rotated])
qed simp

lemma run_phase_types:
  "run_phase E D ld tot nt sch w r s = Inr (n, w', r', s') \<Longrightarrow> same_types w w'"
  by (auto simp: run_phase_def bind_r_eq_Inr Let_def dest!: run_schedule_types intro: same_types_trans)

text \<open>Any number of phases, each over the database as the one before left it or a fresh one.\<close>

inductive phases :: "env \<Rightarrow> 's db_class \<Rightarrow> workload \<Rightarrow> workload \<Rightarrow> bool" for E D where
  phases_none: "phases E D w w"
| phases_more: "phases E D w v \<Longrightarrow> run_phase E D is_loading total_ops num_threads sched v r s = Inr (n, w', r', s')
    \<Longrightarrow> phases E D w w'"

lemma phases_types: "phases E D w w' \<Longrightarrow> same_types w w'"
  by (induction rule: phases.induct) (auto dest: run_phase_types intro: same_types_trans)

section \<open>Progress\<close>

text \<open>Calls through a pointer to a generator without loops or conversions return.\<close>

lemma gen_next_returns:
  "class_of g \<in> {CounterGenerator, ConstGenerator, UniformGenerator} \<Longrightarrow> \<exists>v g'. gen_next E seq g r = Inr (v, g', r)"
  by (cases g) (auto split: prod.splits)

lemma typed_calls:
  assumes "property_classes p = Some (classes w)"
  shows "\<exists>f w' r'. NextFieldName E w r = Inr (f, w', r')"
    and "padding_ok w \<Longrightarrow> \<exists>k w' r'. NextSequenceKey E w r = Inr (k, w', r')"
proof -
  have c: "class_of (w_field_chooser w) = UniformGenerator" "class_of (w_key_generator w) = CounterGenerator"
    using assms by (auto simp: property_classes_def classes_def pointers_def split: option.splits)
  show "\<exists>f w' r'. NextFieldName E w r = Inr (f, w', r')"
    using gen_next_returns [of "w_field_chooser w" E "w_insert_key_sequence w" r] c(1)
    by (auto simp: NextFieldName_def)
  obtain v g where g: "gen_next E (w_insert_key_sequence w) (w_key_generator w) r = Inr (v, g, r)"
    using gen_next_returns [of "w_key_generator w" E "w_insert_key_sequence w" r] c(2) by auto
  show "padding_ok w \<Longrightarrow> \<exists>k w' r'. NextSequenceKey E w r = Inr (k, w', r')"
    using BuildKeyName_total [of w v] by (auto simp: NextSequenceKey_def g)
qed

text \<open>
  C13: type soundness of the generator pointers: the properties alone decide the class of
  each generator \<open>Init\<close> builds; after any phases over any database the pointers have these
  classes still, the settings are unchanged, so no call goes through a null pointer, a
  field name can be drawn, a key too if the padding fits an \<open>int\<close>; and the destructor
  deletes exactly the five generators, where a workload that was never initialised has
  none to delete.
\<close>

theorem generator_types_sound:
  assumes "Init E p workload_new r = Inr (w, r1)" "phases E D w w'"
  shows "property_classes p = Some (classes w') \<and> NULL \<notin> set (classes w') \<and> settings w' = settings w \<and>
    (\<exists>f w2 r2. NextFieldName E w' q = Inr (f, w2, r2)) \<and>
    (padding_ok w' \<longrightarrow> (\<exists>k w2 r2. NextSequenceKey E w' q = Inr (k, w2, r2))) \<and>
    CoreWorkload_delete w' = pointers w' \<and> CoreWorkload_delete workload_new = []"
proof -
  have t: "classes w' = classes w" "settings w' = settings w"
    using phases_types [OF assms(2)] by (simp_all add: same_types_def)
  have c: "property_classes p = Some (classes w')" using Init_classes [OF assms(1)] t(1) by simp
  then have "NULL \<notin> set (classes w')" using property_classes_not_null by blast
  then show ?thesis using c t(2) typed_calls [OF c] by (simp add: delete_all delete_none)
qed

theorem generator_types_sound_witness:
  "\<exists>w r' w1 r1 s1.
     Init (sample_env (Fin 0)) (op_props sample_opts) workload_new \<lparr>canon_pos = 0, crand_pos = 0\<rparr> = Inr (w, r') \<and>
     run_phase (sample_env (Fin 0)) (split_db list_store) True 3 3 [2, 0] w r' [] = Inr (3, w1, r1, s1) \<and>
     classes w1 = [ConstGenerator, CounterGenerator, ScrambledZipfianGenerator, UniformGenerator, UniformGenerator] \<and>
     length (CoreWorkload_delete w1) = 5"
proof -
  have v: "list_valid []" by (simp add: list_valid_def)
  have d: "(3 :: int) dvd int 3" by simp
  have D: "split_db list_store = split_db list_store \<or> split_db list_store = unified_db list_store" by simp
  obtain w r' w1 r1 s1 where
    i: "Init (sample_env (Fin 0)) (op_props sample_opts) workload_new \<lparr>canon_pos = 0, crand_pos = 0\<rparr> = Inr (w, r')"
    and l: "run_phase (sample_env (Fin 0)) (split_db list_store) True 3 3 [2, 0] w r' [] = Inr (3, w1, r1, s1)"
    using plain_run [OF sample_plain sample_draws_ok sample_deletes list_store_laws v D _ d _ sample_requests,
      of 10 "\<lparr>canon_pos = 0, crand_pos = 0\<rparr>" "[2, 0]" "[1]"] by auto
  have "phases (sample_env (Fin 0)) (split_db list_store) w w1"
    using phases_more [OF phases_none l] .
  from generator_types_sound [OF i this] have c:
    "property_classes (op_props sample_opts) = Some (classes w1)" "CoreWorkload_delete w1 = pointers w1"
    by simp_all
  have "property_classes (op_props sample_opts) =
      Some [ConstGenerator, CounterGenerator, ScrambledZipfianGenerator, UniformGenerator, UniformGenerator]"
    by (simp add: property_classes_def length_class_def request_class_def scan_class_def sample_opts_def
        GetProperty_def prop_names)
  then show ?thesis using i l c by (auto simp: pointers_def)
qed

end
