(* ===== verification/Init_Errors.thy ===== *)
theory Init_Errors
  imports Run_Facts
begin

text \<open>
  How \<open>CoreWorkload::Init\<close> rejects a configuration: from a plain property file in which one
  property is replaced by something that cannot be read, or a distribution by an unknown
  name, it stops with the exception of that property.
\<close>

section \<open>One property replaced\<close>

definition int_properties :: "string list" where
  "int_properties =
     [FIELD_COUNT_PROPERTY, FIELD_LENGTH_PROPERTY, RECORD_COUNT_PROPERTY, ZERO_PADDING_PROPERTY,
      MAX_SCAN_LENGTH_PROPERTY, INSERT_START_PROPERTY]"

definition bool_properties :: "string list" where
  "bool_properties = [READ_ALL_FIELDS_PROPERTY, WRITE_ALL_FIELDS_PROPERTY]"

lemma GetProperty_upd: "GetProperty (p(K \<mapsto> s)) k d = (if k = K then s else GetProperty p k d)"
  by (simp add: GetProperty_def)

lemma GetProperty_none: "GetProperty (p(K := None)) k d = (if k = K then d else GetProperty p k d)"
  by (simp add: GetProperty_def)

text \<open>The chooser asks for no other property than \<open>operationcount\<close>.\<close>

lemma init_key_chooser_upd:
  "K \<noteq> OPERATION_COUNT_PROPERTY \<Longrightarrow>
    init_key_chooser E (p(K \<mapsto> s)) d rc ip seq r = init_key_chooser E p d rc ip seq r"
  by (simp add: init_key_chooser_def GetProperty_upd)

lemma Init_bad_int:
  assumes "plain_props p n" "K \<in> set int_properties" "stoi s = Inl e"
  shows "Init E (p(K \<mapsto> s)) w0 r = Inl e"
  using assms(1)
proof (rule plain_values [where E = E], goal_cases)
  case v: 1
  consider "K = FIELD_COUNT_PROPERTY" | "K = FIELD_LENGTH_PROPERTY" | "K = RECORD_COUNT_PROPERTY"
    | "K = ZERO_PADDING_PROPERTY" | "K = MAX_SCAN_LENGTH_PROPERTY" | "K = INSERT_START_PROPERTY"
    using assms(2) by (auto simp: int_properties_def)
  then show ?case
    using v(1-17) assms(3) unfolding Init_def GetFieldLenGenerator_def GetProperty_upd prop_names Let_def
    by cases auto
qed

lemma Init_no_record_count:
  assumes "plain_props p n"
  shows "Init E (p(RECORD_COUNT_PROPERTY := None)) w0 r = Inl (Throw (Invalid_Argument ''stoi''))"
  using assms
proof (rule plain_values [where E = E], goal_cases)
  case v: 1
  have "stoi [] = Inl (Throw (Invalid_Argument ''stoi''))" by code_simp
  then show ?case
    using v(1-17) unfolding Init_def GetFieldLenGenerator_def GetProperty_none prop_names Let_def by auto
qed

lemma Init_bad_proportion:
  assumes "plain_props p n" "K \<in> fst ` set mix_names" "stod s = Inl e"
  shows "Init E (p(K \<mapsto> s)) w0 r = Inl e"
  using assms(1)
proof (rule plain_values [where E = E], goal_cases)
  case v: 1
  consider "K = READ_PROPORTION_PROPERTY" | "K = UPDATE_PROPORTION_PROPERTY" | "K = DELETE_PROPORTION_PROPERTY"
    | "K = INSERT_PROPORTION_PROPERTY" | "K = SCAN_PROPORTION_PROPERTY" | "K = READMODIFYWRITE_PROPORTION_PROPERTY"
    using assms(2) by (auto simp: mix_names_def)
  then show ?case
    using v(1-17) assms(3) unfolding Init_def GetFieldLenGenerator_def GetProperty_upd prop_names Let_def
    by cases auto
qed

lemma Init_bad_bool:
  assumes "plain_props p n" "K \<in> set bool_properties" "StrToBool s = Inl e"
  shows "Init E (p(K \<mapsto> s)) w0 r = Inl e"
  using assms(1)
proof (rule plain_values [where E = E], goal_cases)
  case v: 1
  consider "K = READ_ALL_FIELDS_PROPERTY" | "K = WRITE_ALL_FIELDS_PROPERTY"
    using assms(2) by (auto simp: bool_properties_def)
  then show ?case
    using v(1-17) assms(3) unfolding Init_def GetFieldLenGenerator_def GetProperty_upd prop_names Let_def
    by cases auto
qed

section \<open>Distributions\<close>

lemma Init_bad_field_length:
  assumes "plain_props p n" "s \<notin> {''constant'', ''fixed'', ''uniform'', ''zipfian''}"
  shows "Init E (p(FIELD_LENGTH_DISTRIBUTION_PROPERTY \<mapsto> s)) w0 r =
    Inl (Throw (Utils_Exception (''Unknown field length distribution: '' @ s)))"
  using assms(1)
proof (rule plain_values [where E = E], goal_cases)
  case v: 1
  then show ?case
    using v(1-16) assms(2) unfolding Init_def GetFieldLenGenerator_def GetProperty_upd prop_names Let_def by auto
qed

lemma Init_bad_requests:
  assumes "plain_props p n" "s \<notin> {''uniform'', ''zipfian'', ''latest''}"
  shows "Init E (p(REQUEST_DISTRIBUTION_PROPERTY \<mapsto> s)) w0 r =
    Inl (Throw (Utils_Exception (''Unknown request distribution: '' @ s)))"
  using assms(1)
proof (rule plain_values [where E = E], goal_cases)
  case v: 1
  then show ?case
    using v(1-17) assms(2)
    unfolding Init_def GetFieldLenGenerator_def init_key_chooser_def GetProperty_upd prop_names Let_def by auto
qed

text \<open>The last two choosers are built after the key chooser, which is then in place.\<close>

lemma Init_chooser:
  assumes "plain_props p n" "requests_ok E p n" "draws_ok E" "K \<noteq> OPERATION_COUNT_PROPERTY"
    and "stod (GetProperty p INSERT_PROPORTION_PROPERTY INSERT_PROPORTION_DEFAULT) = Inr ip"
  obtains g r1 where "init_key_chooser E (p(K \<mapsto> s))
      (GetProperty p REQUEST_DISTRIBUTION_PROPERTY REQUEST_DISTRIBUTION_DEFAULT)
      (of_nat n) ip (counter_new (of_nat n)) r = Inr (g, r1)"
proof -
  have "1 \<le> n" "n \<le> 2147483647" using assms(1) by (simp_all add: plain_props_def)
  from request_chooser [OF assms(2,3) this assms(5)] obtain g r1 where
    "init_key_chooser E p (GetProperty p REQUEST_DISTRIBUTION_PROPERTY REQUEST_DISTRIBUTION_DEFAULT)
      (of_nat n) ip (counter_new (of_nat n)) r = Inr (g, r1)" by blast
  then show thesis using that by (simp only: init_key_chooser_upd [OF assms(4)])
qed

lemma Init_bad_scan_length:
  assumes "plain_props p n" "requests_ok E p n" "draws_ok E" "s \<notin> {''uniform'', ''zipfian''}"
  shows "Init E (p(SCAN_LENGTH_DISTRIBUTION_PROPERTY \<mapsto> s)) w0 r =
    Inl (Throw (Utils_Exception (''Distribution not allowed for scan length: '' @ s)))"
  using assms(1)
proof (rule plain_values [where E = E], goal_cases)
  case v: (1 c l m z b1 b2 pr pu pd ip)
  have "SCAN_LENGTH_DISTRIBUTION_PROPERTY \<noteq> OPERATION_COUNT_PROPERTY" by (simp add: prop_names)
  then obtain g r1 where "init_key_chooser E (p(SCAN_LENGTH_DISTRIBUTION_PROPERTY \<mapsto> s))
      (GetProperty p REQUEST_DISTRIBUTION_PROPERTY REQUEST_DISTRIBUTION_DEFAULT)
      (of_nat n) ip (counter_new (of_nat n)) r = Inr (g, r1)"
    using Init_chooser [OF assms(1-3) _ v(13), of _ s r] by blast
  then show ?case
    using v assms(4) unfolding Init_def GetFieldLenGenerator_def init_field_chooser_def init_scan_len_def
      GetProperty_upd prop_names Let_def
    by (auto simp: counter_set_new simp del: of_int_diff)
qed

lemma Init_no_scans:
  assumes "plain_props p n" "requests_ok E p n" "draws_ok E" "stoi s = Inr 0"
  shows "Init E (p(MAX_SCAN_LENGTH_PROPERTY \<mapsto> s)) w0 r = Inl Undefined"
  using assms(1)
proof (rule plain_values [where E = E], goal_cases)
  case v: (1 c l m z b1 b2 pr pu pd ip)
  have "MAX_SCAN_LENGTH_PROPERTY \<noteq> OPERATION_COUNT_PROPERTY" by (simp add: prop_names)
  then obtain g r1 where "init_key_chooser E (p(MAX_SCAN_LENGTH_PROPERTY \<mapsto> s))
      (GetProperty p REQUEST_DISTRIBUTION_PROPERTY REQUEST_DISTRIBUTION_DEFAULT)
      (of_nat n) ip (counter_new (of_nat n)) r = Inr (g, r1)"
    using Init_chooser [OF assms(1-3) _ v(13), of _ s r] by blast
  moreover have "uniform_new E 1 0 = Inl Undefined" by (simp add: uniform_new_def)
  ultimately show ?case
    using v assms(4) unfolding Init_def GetFieldLenGenerator_def init_field_chooser_def init_scan_len_def
      GetProperty_upd prop_names Let_def
    by (auto simp: counter_set_new simp del: of_int_diff)
qed

text \<open>
  C16: what \<open>Init\<close> rejects: with one property of a plain file replaced, a number that
  \<open>std::stoi\<close> or \<open>std::stod\<close> cannot read and a truth value that is none end in exactly that
  exception, as does a missing record count; an unknown distribution of field lengths,
  requests or scan lengths is named in an exception of its own; and a maximal scan length
  of 0 is an empty range, undefined behaviour of the standard library.
\<close>

theorem Init_rejects:
  assumes "plain_props p n" "requests_ok E p n" "draws_ok E"
  shows "(K \<in> set int_properties \<and> stoi s = Inl e \<longrightarrow> Init E (p(K \<mapsto> s)) w0 r = Inl e) \<and>
    (K \<in> fst ` set mix_names \<and> stod s = Inl e \<longrightarrow> Init E (p(K \<mapsto> s)) w0 r = Inl e) \<and>
    (K \<in> set bool_properties \<and> StrToBool s = Inl e \<longrightarrow> Init E (p(K \<mapsto> s)) w0 r = Inl e) \<and>
    Init E (p(RECORD_COUNT_PROPERTY := None)) w0 r = Inl (Throw (Invalid_Argument ''stoi'')) \<and>
    (s \<notin> {''constant'', ''fixed'', ''uniform'', ''zipfian''} \<longrightarrow>
      Init E (p(FIELD_LENGTH_DISTRIBUTION_PROPERTY \<mapsto> s)) w0 r =
        Inl (Throw (Utils_Exception (''Unknown field length distribution: '' @ s)))) \<and>
    (s \<notin> {''uniform'', ''zipfian'', ''latest''} \<longrightarrow>
      Init E (p(REQUEST_DISTRIBUTION_PROPERTY \<mapsto> s)) w0 r =
        Inl (Throw (Utils_Exception (''Unknown request distribution: '' @ s)))) \<and>
    (s \<notin> {''uniform'', ''zipfian''} \<longrightarrow>
      Init E (p(SCAN_LENGTH_DISTRIBUTION_PROPERTY \<mapsto> s)) w0 r =
        Inl (Throw (Utils_Exception (''Distribution not allowed for scan length: '' @ s)))) \<and>
    (stoi s = Inr 0 \<longrightarrow> Init E (p(MAX_SCAN_LENGTH_PROPERTY \<mapsto> s)) w0 r = Inl Undefined)"
  by (intro conjI impI)
    (blast intro: Init_bad_int [OF assms(1)] Init_bad_proportion [OF assms(1)] Init_bad_bool [OF assms(1)]
      Init_no_record_count [OF assms(1)] Init_bad_field_length [OF assms(1)] Init_bad_requests [OF assms(1)]
      Init_bad_scan_length [OF assms] Init_no_scans [OF assms])+

theorem Init_rejects_witness:
  "Init (sample_env (Fin 0)) ((op_props sample_opts)(FIELD_COUNT_PROPERTY \<mapsto> ''ten'')) workload_new \<lparr>canon_pos = 0, crand_pos = 0\<rparr> =
     Inl (Throw (Invalid_Argument ''stoi'')) \<and>
   Init (sample_env (Fin 0)) ((op_props sample_opts)(REQUEST_DISTRIBUTION_PROPERTY \<mapsto> ''normal'')) workload_new \<lparr>canon_pos = 0, crand_pos = 0\<rparr> =
     Inl (Throw (Utils_Exception ''Unknown request distribution: normal''))"
proof -
  have "stoi ''ten'' = Inl (Throw (Invalid_Argument ''stoi''))" by code_simp
  moreover have "FIELD_COUNT_PROPERTY \<in> set int_properties" by (simp add: int_properties_def)
  ultimately show ?thesis
    using Init_rejects [OF sample_plain sample_requests sample_draws_ok, of FIELD_COUNT_PROPERTY "''ten''"
        "Throw (Invalid_Argument ''stoi'')" workload_new "\<lparr>canon_pos = 0, crand_pos = 0\<rparr>"]
      Init_rejects [OF sample_plain sample_requests sample_draws_ok, of FIELD_COUNT_PROPERTY "''normal''"
        Undefined workload_new "\<lparr>canon_pos = 0, crand_pos = 0\<rparr>"] by simp
qed

section \<open>Counts of zero\<close>

text \<open>
  \<open>record_count_ - 1\<close> and \<open>field_count_ - 1\<close> wrap around: with no records and no fields \<open>Init\<close>
  builds choosers over all 64-bit numbers, and every number counts as inserted.
\<close>

lemma Init_zero_counts:
  assumes "plain_props p n" "GetProperty p REQUEST_DISTRIBUTION_PROPERTY REQUEST_DISTRIBUTION_DEFAULT = ''uniform''"
  shows "\<exists>w r' g h. Init E (p(RECORD_COUNT_PROPERTY \<mapsto> ''0'', FIELD_COUNT_PROPERTY \<mapsto> ''0'')) w0 r = Inr (w, r') \<and>
    w_key_chooser w = Uniform_Gen g \<and> u_min g = 0 \<and> u_max g = -1 \<and>
    w_field_chooser w = Uniform_Gen h \<and> u_min h = 0 \<and> u_max h = -1 \<and>
    counter_last (w_insert_key_sequence w) = -1 \<and> w_field_count w = 0"
  using assms(1)
proof (rule plain_values [where E = E], goal_cases)
  case v: (1 c l m z b1 b2 pr pu pd ip)
  obtain g where g: "uniform_new E 0 (- 1) = Inr g" by (simp add: uniform_new_def)
  have "u_min g = 0" "u_max g = -1" using uniform_new_ok [OF g] by simp_all
  moreover have "stoi ''0'' = Inr 0" by (rule stoi_literals)
  ultimately show ?case
    using v assms(2) g unfolding Init_def GetFieldLenGenerator_def init_key_chooser_def init_field_chooser_def
      init_scan_len_def GetProperty_upd prop_names Let_def
    by (auto simp: counter_set_new counter_last_def counter_new_def int_min_def)
qed

text \<open>
  C32: an empty load is accepted and misread: with \<open>recordcount\<close> and \<open>fieldcount\<close> 0 and uniform
  requests \<open>Init\<close> returns, and the records it describes have no fields, but a transaction asks
  for the key of whatever 64-bit number the engine draws, and a read may name a field of
  any such number.
\<close>

theorem zero_counts_wrap:
  assumes "plain_props p n" "GetProperty p REQUEST_DISTRIBUTION_PROPERTY REQUEST_DISTRIBUTION_DEFAULT = ''uniform''"
  shows "\<exists>w r'. Init E (p(RECORD_COUNT_PROPERTY \<mapsto> ''0'', FIELD_COUNT_PROPERTY \<mapsto> ''0'')) w0 r = Inr (w, r') \<and>
    BuildValues E [] w q = Inr ([], w, q) \<and>
    (\<forall>k. (\<exists>h. NextTransactionKey (E\<lparr>mt64 := \<lambda>_. k\<rparr>) w q =
          bind_r (BuildKeyName w k) (\<lambda>s. Inr (s, w\<lparr>w_key_chooser := h\<rparr>, q))) \<and>
       (\<exists>h. NextFieldName (E\<lparr>mt64 := \<lambda>_. k\<rparr>) w q =
          Inr (''field'' @ dec_string (unat k), w\<lparr>w_field_chooser := h\<rparr>, q)))"
proof -
  obtain w r' g h where w: "Init E (p(RECORD_COUNT_PROPERTY \<mapsto> ''0'', FIELD_COUNT_PROPERTY \<mapsto> ''0'')) w0 r = Inr (w, r')"
    "w_key_chooser w = Uniform_Gen g" "u_min g = 0" "u_max g = -1"
    "w_field_chooser w = Uniform_Gen h" "u_min h = 0" "u_max h = -1"
    "counter_last (w_insert_key_sequence w) = -1" "w_field_count w = 0"
    using Init_zero_counts [OF assms] by blast
  have u: "uid 0 (-1) x = x" for x by (simp add: uid_def)
  have "\<exists>h. NextTransactionKey (E\<lparr>mt64 := \<lambda>_. k\<rparr>) w q =
      bind_r (BuildKeyName w k) (\<lambda>s. Inr (s, w\<lparr>w_key_chooser := h\<rparr>, q))" for k
    by (auto simp: NextTransactionKey_def key_loop.simps w uniform_next_def u not_less)
  moreover have "\<exists>h. NextFieldName (E\<lparr>mt64 := \<lambda>_. k\<rparr>) w q =
      Inr (''field'' @ dec_string (unat k), w\<lparr>w_field_chooser := h\<rparr>, q)" for k
    by (auto simp: NextFieldName_def w uniform_next_def u)
  moreover have "BuildValues E [] w q = Inr ([], w, q)" by (simp add: BuildValues_def w)
  ultimately show ?thesis using w(1) by blast
qed

definition uniform_props :: properties where
  "uniform_props = (op_props sample_opts)(REQUEST_DISTRIBUTION_PROPERTY := None)"

lemma uniform_plain: "plain_props uniform_props 3"
  using sample_plain by (simp add: plain_props_def uniform_props_def GetProperty_none mix_of_def mix_names_def prop_names)

theorem zero_counts_wrap_witness:
  "\<exists>w r'. Init (sample_env (Fin 0)) (uniform_props(RECORD_COUNT_PROPERTY \<mapsto> ''0'', FIELD_COUNT_PROPERTY \<mapsto> ''0''))
       workload_new \<lparr>canon_pos = 0, crand_pos = 0\<rparr> = Inr (w, r') \<and>
     (\<exists>w' f. NextFieldName ((sample_env (Fin 0))\<lparr>mt64 := \<lambda>_. 7\<rparr>) w \<lparr>canon_pos = 0, crand_pos = 0\<rparr> =
        Inr (''field7'', w', f))"
proof -
  have "GetProperty uniform_props REQUEST_DISTRIBUTION_PROPERTY REQUEST_DISTRIBUTION_DEFAULT = ''uniform''"
    by (simp add: uniform_props_def GetProperty_none prop_names)
  moreover have "''field'' @ dec_string (unat (7 :: u64)) = ''field7''" by code_simp
  ultimately show ?thesis
    using zero_counts_wrap [OF uniform_plain, of "sample_env (Fin 0)" workload_new
      "\<lparr>canon_pos = 0, crand_pos = 0\<rparr>" "\<lparr>canon_pos = 0, crand_pos = 0\<rparr>"] by metis
qed

end
