(* ===== verification/Main_Facts.thy ===== *)
theory Main_Facts
  imports Run_Facts
begin

text \<open>
  \<open>main\<close>, from the command line to its output: with a plain property file it goes through
  its phases without an exception or a failed assertion, and it reports what it did.
\<close>

section \<open>Phases over either binding\<close>

text \<open>The constructors of the stores return states in which the contract holds.\<close>

definition opens_valid :: "('c, 's) lsm_env \<Rightarrow> ('s \<Rightarrow> bool) \<Rightarrow> bool" where
  "opens_valid L valid \<longleftrightarrow>
     (\<forall>cfg s. le_open_split L cfg = Inr s \<longrightarrow> valid s) \<and>
     (\<forall>path options s. le_open_unified L path options = Inr s \<longrightarrow> valid s)"

lemma bindings_open:
  assumes "CreateDB L p = Inr (Some (D, s))"
    and "lsm_laws (le_split L) content valid" "lsm_laws (le_unified L) content valid"
    and "opens_valid L valid"
  shows "\<exists>A name. p ''dbname'' = Some name \<and> lsm_laws A content valid \<and> valid s \<and>
    (D = split_db A \<or> D = unified_db A)"
  using assms
  by (auto simp: opens_valid_def CreateDB_def split_new_def unified_new_def property_at_def bind_r_eq_Inr
      split: if_splits option.splits)


text \<open>Both phases return from any state in which the contract holds.\<close>

lemma load_returns:
  assumes "lsm_laws A content valid" "valid s" "D = split_db A \<or> D = unified_db A"
    and "wl_ready E w" "w_key_generator w = Counter_Gen c" "0 \<le> tot" "1 \<le> nt"
  shows "\<exists>w' r' s'. run_phase E D True tot nt sch w r s = Inr (tot - tot mod nt, w', r', s') \<and>
    wl_ready E w' \<and> valid s'"
proof -
  have D: "D = split_db A" using assms(3) unified_is_split by auto
  have ok: "lsm_laws A content valid \<and> valid s" using assms(1,2) by simp
  from split_i.load_phase [OF assms(4,5) ok assms(6,7), of sch r] show ?thesis
    unfolding D minus_mod_eq_mult_div by blast
qed

lemma run_returns:
  assumes "lsm_laws A content valid" "valid s" "D = split_db A \<or> D = unified_db A"
    and "wl_ready E w" "0 \<le> tot" "1 \<le> nt"
  shows "\<exists>n w' r' s'. run_phase E D False tot nt sch w r s = Inr (n, w', r', s')"
proof -
  have D: "D = split_db A" using assms(3) unified_is_split by auto
  have ok: "lsm_laws A content valid \<and> valid s" using assms(1,2) by simp
  from split_i.run_phase_good [OF assms(4) ok assms(5,6), of False sch r] show ?thesis
    unfolding D by blast
qed

section \<open>\<open>main\<close>\<close>

text \<open>The seconds that the timer of the run phase measures.\<close>

definition measured :: "clock \<Rightarrow> double" where
  "measured C = Fin (rnd (of_int (ck_now C 1 - ck_now C 0) / of_int (ck_den C)))"

lemma measured_End:
  "clock_ok C \<Longrightarrow> Timer_End (ck_den C) (ck_now C 1) (Timer_Start (ck_now C 0) t) = Inr (measured C)"
  using Timer_End_value [of "ck_den C" "ck_now C 1" "Timer_Start (ck_now C 0) t"]
  by (simp add: clock_ok_def Timer_Start_def measured_def)

lemma main_run:
  assumes "ParseCommandLine files argv = Inr opts"
    and "plain_props (op_props opts) n" "requests_ok E (op_props opts) n" "draws_ok E" "clock_ok C"
    and "CreateDB L (op_props opts) = Inr (Some (D, s))"
    and "lsm_laws (le_split L) content valid" "lsm_laws (le_unified L) content valid"
    and "opens_valid L valid"
    and "stoi (GetProperty (op_props opts) ''threadcount'' ''1'') = Inr nt" "1 \<le> nt"
    and "op_props opts OPERATION_COUNT_PROPERTY = Some oc" "stoi oc = Inr ops" "0 \<le> ops"
  shows "\<exists>name. op_props opts ''dbname'' = Some name \<and>
    main E L files load_sched run_sched C argv =
      Inr ((if op_load opts \<or> \<not> op_run opts then [Loading_Records (int n - int n mod nt)] else []) @
           (if op_run opts \<or> \<not> op_load opts
            then [Throughput name (op_filename opts) nt (of_cint ops / measured C / Fin 1000)] else []))"
proof -
  let ?p = "op_props opts"
  from bindings_open [OF assms(6-9)] obtain A name where
    a: "?p ''dbname'' = Some name" "lsm_laws A content valid" "valid s" "D = split_db A \<or> D = unified_db A"
    by blast
  obtain w r where i: "Init E ?p workload_new \<lparr>canon_pos = 0, crand_pos = 0\<rparr> = Inr (w, r)"
    using plain_Init [OF assms(2-4)] by blast
  have w: "wl_ready E w" "w_key_generator w = Counter_Gen (counter_new 0)"
    using plain_ready [OF assms(2) i assms(4,3)] by simp_all
  obtain w1 r1 s1 where l: "wl_ready E w1" "valid s1"
    "run_phase E D True (int n) nt load_sched w r s = Inr (int n - int n mod nt, w1, r1, s1)"
    using load_returns [OF a(2-4) w _ assms(11), of "int n"] by fastforce
  obtain m1 w2 r2 s2 where r1: "run_phase E D False ops nt run_sched w1 r1 s1 = Inr (m1, w2, r2, s2)"
    using run_returns [OF a(2) l(2) a(4) l(1) assms(14,11)] by blast
  obtain m2 w3 r3 s3 where r2: "run_phase E D False ops nt run_sched w r s = Inr (m2, w3, r3, s3)"
    using run_returns [OF a(2-4) w(1) assms(14,11)] by blast
  have n: "GetProperty ?p RECORD_COUNT_PROPERTY [] = dec_string n" "n \<le> 2147483647"
    using assms(2) by (simp_all add: plain_props_def)
  have rc: "?p RECORD_COUNT_PROPERTY = Some (dec_string n)"
    using n(1) by (auto simp: GetProperty_def dest: sym split: option.splits)
  show ?thesis
    using a(1) assms(1,6,10,12,13) i l(3) r1 r2 rc stoi_dec_string [OF n(2)] measured_End [OF assms(5)]
    by (simp add: main_def Let_def property_at_def)
qed

text \<open>
  C1: a whole run of \<open>main\<close> on a plain configuration.  Hypotheses: the command line parses,
  \<open>threadcount\<close> is at least 1, \<open>operationcount\<close> is set and not negative, and \<open>dbname\<close> names a
  binding that opens; the properties are plain (\<open>plain_props\<close>: \<open>recordcount\<close> a decimal
  number from 1 to 2147483647, \<open>insertstart\<close> 0, one of the shipped operation mixes, constant
  field lengths, uniform scan lengths, positive counts and lengths, zero padding of at
  most \<open>int_max - 4\<close>); the requests are uniform, or Zipf or latest under the conditions of
  \<open>requests_ok\<close> (\<open>std::pow\<close> stays in the unit interval on it and the computed zeta constants
  are in proportion; latest needs 4 records; Zipf without inserts 3; Zipf with room for
  new keys needs that the hottest key, the hash of 0, falls on a loaded record and that
  draws of it come again and again); random doubles lie in the unit interval; the clock
  does not run backwards; the stores meet \<open>lsm_laws\<close> and open in a valid state.  Then \<open>main\<close>
  goes through the phases that \<open>-load\<close> and \<open>-run\<close> select (both, if neither is given), for
  every schedule of the threads by whole operations and every content of the store,
  without an exception, a failed assertion or a loop that does not end.  It reports the
  records loaded, a multiple of the number of threads, and the throughput, computed from
  \<open>operationcount\<close>.
\<close>

theorem main_plain_run:
  assumes "ParseCommandLine files argv = Inr opts"
    and "plain_props (op_props opts) n" "requests_ok E (op_props opts) n" "draws_ok E" "clock_ok C"
    and "CreateDB L (op_props opts) = Inr (Some (D, s))"
    and "lsm_laws (le_split L) content valid" "lsm_laws (le_unified L) content valid"
    and "opens_valid L valid"
    and "stoi (GetProperty (op_props opts) ''threadcount'' ''1'') = Inr nt" "1 \<le> nt"
    and "op_props opts OPERATION_COUNT_PROPERTY = Some oc" "stoi oc = Inr ops" "0 \<le> ops"
  shows "\<exists>name. op_props opts ''dbname'' = Some name \<and>
    main E L files load_sched run_sched C argv =
      Inr ((if op_load opts \<or> \<not> op_run opts then [Loading_Records (int n - int n mod nt)] else []) @
           (if op_run opts \<or> \<not> op_load opts
            then [Throughput name (op_filename opts) nt (of_cint ops / measured C / Fin 1000)] else []))"
  by (rule main_run [OF assms])

text \<open>
  without a database name \<open>main\<close> ends by the \<open>std::out_of_range\<close> of \<open>map::at\<close>, although the
  usage message names a default; an unknown name is reported; and nothing else
  happens before.
\<close>

theorem main_db_errors:
  assumes "ParseCommandLine files argv = Inr opts"
  shows "(op_props opts ''dbname'' = None \<longrightarrow>
      main E L files load_sched run_sched C argv = Inl ([], Throw (Out_Of_Range ''map::at''))) \<and>
    (op_props opts ''dbname'' = Some name \<and> name \<notin> {''splitlsm'', ''unifiedlsm''} \<longrightarrow>
      main E L files load_sched run_sched C argv =
        Inl ([Message (''Unknown database name '' @ name)], Exit_With 0))"
  using assms by (simp add: main_def CreateDB_def property_at_def Let_def)

section \<open>A small run\<close>

text \<open>Three threads, three records and ten operations on list stores, in two seconds.\<close>

definition sample_lsm :: "(unit, kvpair list) lsm_env" where
  "sample_lsm =
     \<lparr>le_rocks =
        (let opts = \<lparr>create_if_missing = False, compression = (), max_background_jobs = 2,
                     write_buffer_size = 0x4000000\<rparr>
         in \<lparr>rk_options = opts, rk_kNoCompression = (),
             rk_IncreaseParallelism = \<lambda>n opts. opts\<lparr>max_background_jobs := n\<rparr>,
             rk_hardware_concurrency = 4\<rparr>),
      le_split = list_store, le_open_split = \<lambda>_. Inr [],
      le_unified = list_store, le_open_unified = \<lambda>_ _. Inr []\<rparr>"

definition sample_clock :: clock where
  "sample_clock = \<lparr>ck_den = 1000000000, ck_now = \<lambda>i. 2000000000 * int i\<rparr>"

lemma sample_clock_ok: "clock_ok sample_clock" "measured sample_clock = Fin 2"
  by (simp_all add: clock_ok_def sample_clock_def measured_def dbl_eval)

lemma sample_create: "CreateDB sample_lsm (op_props sample_opts) = Inr (Some (unified_db list_store, []))"
  by (simp add: CreateDB_def unified_new_def unified_config_of_def unified_BuildOptions_def
      sample_lsm_def sample_opts_def GetProperty_def property_at_def Let_def)

lemma sample_opens: "opens_valid sample_lsm list_valid"
  by (simp add: opens_valid_def sample_lsm_def list_valid_def)

lemma sample_laws:
  "lsm_laws (le_split sample_lsm) map_of list_valid" "lsm_laws (le_unified sample_lsm) map_of list_valid"
  by (simp_all add: sample_lsm_def list_store_laws)

theorem main_plain_run_witness:
  "main (sample_env (Fin 0)) sample_lsm Map.empty [2, 0] [1] sample_clock sample_argv =
     Inr [Loading_Records 3, Throughput ''unifiedlsm'' [] 3 (of_cint 10 / Fin 2 / Fin 1000)]"
proof -
  have p: "stoi (GetProperty (op_props sample_opts) ''threadcount'' ''1'') = Inr 3"
    "op_props sample_opts OPERATION_COUNT_PROPERTY = Some ''10''"
    by (simp_all add: sample_opts_def GetProperty_def prop_names stoi_literals)
  have "\<exists>name. op_props sample_opts ''dbname'' = Some name \<and>
    main (sample_env (Fin 0)) sample_lsm Map.empty [2, 0] [1] sample_clock sample_argv =
      Inr ((if op_load sample_opts \<or> \<not> op_run sample_opts then [Loading_Records (int 3 - int 3 mod 3)] else []) @
        (if op_run sample_opts \<or> \<not> op_load sample_opts
         then [Throughput name (op_filename sample_opts) 3 (of_cint 10 / measured sample_clock / Fin 1000)] else []))"
    by (rule main_plain_run [OF sample_parse sample_plain sample_requests sample_draws_ok sample_clock_ok(1)
          sample_create sample_laws sample_opens p(1) _ p(2) stoi_literals(5)]) simp_all
  then show ?thesis by (simp add: sample_opts_def sample_clock_ok)
qed

theorem main_db_errors_witness:
  "main (sample_env (Fin 0)) sample_lsm Map.empty [] [] sample_clock [''ycsbc'', ''-load''] =
     Inl ([], Throw (Out_Of_Range ''map::at'')) \<and>
   main (sample_env (Fin 0)) sample_lsm Map.empty [] [] sample_clock [''ycsbc'', ''-db'', ''basic''] =
     Inl ([Message ''Unknown database name basic''], Exit_With 0)"
proof -
  have a: "ParseCommandLine Map.empty [''ycsbc'', ''-load''] = Inr (start_options\<lparr>op_load := True\<rparr>)"
    using ParseCommandLine_cli [of "[Only_Load]" "[]" Map.empty "''ycsbc''"] by (simp add: cli_ok_def)
  have b: "ParseCommandLine Map.empty [''ycsbc'', ''-db'', ''basic''] =
      Inr (start_options\<lparr>op_props := [''dbname'' \<mapsto> ''basic'']\<rparr>)"
    using ParseCommandLine_cli [of "[Database ''basic'']" "[]" Map.empty "''ycsbc''"]
    by (simp add: cli_ok_def start_options_def)
  show ?thesis
    using main_db_errors [OF a, of "sample_env (Fin 0)" sample_lsm "[]" "[]" sample_clock]
      main_db_errors [OF b, of "sample_env (Fin 0)" sample_lsm "[]" "[]" sample_clock "''basic''"]
    by (simp add: start_options_def)
qed

end
