(* ===== verification/Main_Errors.thy ===== *)
theory Main_Errors
  imports Main_Facts
begin

text \<open>
  The boundaries of \<open>main\<close>: a thread count that is no number, that is not positive, or that
  exceeds the number of operations, and an operation count that is missing.
\<close>

section \<open>Phases without work\<close>

text \<open>Each thread gets \<open>total_ops / num_threads\<close> operations; there are none, or nobody to do them.\<close>

definition idle :: "int \<Rightarrow> int \<Rightarrow> bool" where
  "idle total_ops num_threads \<longleftrightarrow> num_threads \<le> 0 \<or> total_ops < num_threads"

lemma idle_share: "idle m nt \<Longrightarrow> nt \<le> 0 \<or> nat (c_div m nt) = 0"
  by (cases "0 \<le> m")
    (auto simp: idle_def c_div_pos c_div_def sgn_if pos_imp_zdiv_nonneg_iff split: if_splits)

lemma idle_step: "list_all (\<lambda>n. n = 0) (th_todo t) \<Longrightarrow> thread_step E D l i t = Inr t"
  by (cases "i < length (th_todo t)") (simp_all add: thread_step_def list_all_length)

lemma idle_schedule: "list_all (\<lambda>n. n = 0) (th_todo t) \<Longrightarrow> run_schedule E D l sch t = Inr t"
  by (induction sch) (simp_all add: idle_step)

lemma idle_phase:
  assumes "idle m nt" "0 \<le> nt \<or> ndebug E"
  shows "run_phase E D l m nt sch w r s =
    Inr (0, w, r, (db_Close D ^^ nat nt) ((db_Init D ^^ nat nt) s))"
proof -
  have z: "replicate (nat nt) (nat (c_div m nt)) = replicate (nat nt) 0"
    using idle_share [OF assms(1)] by auto
  have "cassert (ndebug E) (int (nat nt) = nt) = Inr ()" using assms(2) by (auto simp: cassert_def)
  then show ?thesis
    by (simp add: run_phase_def z Let_def idle_schedule list_all_iff finish_schedule_def sum_list_replicate)
qed

lemma negative_phase: "nt < 0 \<Longrightarrow> \<not> ndebug E \<Longrightarrow> run_phase E D l m nt sch w r s = Inl Assert_Fail"
  by (simp add: run_phase_def cassert_def)

text \<open>
  C15: the boundaries of a run whose workload is initialised.  A thread count that is no
  number ends the program; a negative one fails an assertion, unless assertions are off.
  With no thread, or more threads than records and operations, nothing is loaded or
  executed, and yet a throughput of \<open>operationcount\<close> operations is reported.  A missing
  \<open>operationcount\<close> is noticed only after the load.
\<close>

theorem main_boundaries:
  assumes "ParseCommandLine files argv = Inr opts" "CreateDB L (op_props opts) = Inr (Some (D, s))"
    and "Init E (op_props opts) workload_new \<lparr>canon_pos = 0, crand_pos = 0\<rparr> = Inr (w, r)"
    and "op_props opts RECORD_COUNT_PROPERTY = Some rc" "stoi rc = Inr n"
    and "op_props opts ''dbname'' = Some name" "clock_ok C"
    and "stoi (GetProperty (op_props opts) ''threadcount'' ''1'') = threads"
    and "do_load = (op_load opts \<or> \<not> op_run opts)" "do_run = (op_run opts \<or> \<not> op_load opts)"
  shows "(\<forall>e. threads = Inl e \<longrightarrow> main E L files load_sched run_sched C argv = Inl ([], e)) \<and>
    (\<forall>nt oc ops. threads = Inr nt \<and> op_props opts OPERATION_COUNT_PROPERTY = Some oc \<and> stoi oc = Inr ops \<longrightarrow>
      (nt < 0 \<and> \<not> ndebug E \<longrightarrow> main E L files load_sched run_sched C argv = Inl ([], Assert_Fail)) \<and>
      (idle n nt \<and> idle ops nt \<and> (0 \<le> nt \<or> ndebug E) \<longrightarrow>
        main E L files load_sched run_sched C argv =
          Inr ((if do_load then [Loading_Records 0] else []) @
               (if do_run then [Throughput name (op_filename opts) nt (of_cint ops / measured C / Fin 1000)]
                else [])))) \<and>
    (\<forall>nt sum w1 r1 s1. threads = Inr nt \<and> op_props opts OPERATION_COUNT_PROPERTY = None \<and> do_run \<and>
      run_phase E D True n nt load_sched w r s = Inr (sum, w1, r1, s1) \<longrightarrow>
      main E L files load_sched run_sched C argv =
        Inl (if do_load then [Loading_Records sum] else [], Throw (Out_Of_Range ''map::at'')))"
  using assms(1-6) measured_End [OF assms(7)] assms(8-10)
  by (auto simp: main_def Let_def property_at_def idle_phase negative_phase)

section \<open>More threads than operations\<close>

text \<open>Twenty threads for three records and ten operations.\<close>

definition crowd_props :: properties where
  "crowd_props = (op_props sample_opts)(''threadcount'' \<mapsto> ''20'')"

lemma crowd_parse:
  "ParseCommandLine Map.empty (sample_argv @ [''-threads'', ''20'']) = Inr (sample_opts\<lparr>op_props := crowd_props\<rparr>)"
proof -
  have "list_all cli_ok (sample_cli @ [Threads ''20''])" by (simp add: sample_cli_def cli_ok_def)
  from ParseCommandLine_cli [OF this, of "[]" Map.empty "''ycsbc''"] show ?thesis
    by (simp add: sample_cli_def sample_argv_def start_options_def sample_opts_def crowd_props_def)
qed

lemma crowd_Init:
  "\<exists>w r. Init (sample_env (Fin 0)) crowd_props workload_new \<lparr>canon_pos = 0, crand_pos = 0\<rparr> = Inr (w, r)"
proof (rule plain_Init [OF _ _ sample_draws_ok])
  show "plain_props crowd_props 3"
    using sample_plain by (simp add: plain_props_def crowd_props_def GetProperty_def prop_names mix_of_def mix_names_def)
  show "requests_ok (sample_env (Fin 0)) crowd_props 3"
    using sample_requests [of "Fin 0"]
    by (simp add: requests_ok_def crowd_props_def GetProperty_def prop_names new_keys_def)
qed

theorem main_boundaries_witness:
  "main (sample_env (Fin 0)) sample_lsm Map.empty [] [] sample_clock (sample_argv @ [''-threads'', ''20'']) =
     Inr [Loading_Records 0, Throughput ''unifiedlsm'' [] 20 (of_cint 10 / Fin 2 / Fin 1000)]"
proof -
  let ?o = "sample_opts\<lparr>op_props := crowd_props\<rparr>"
  obtain w r where i: "Init (sample_env (Fin 0)) (op_props ?o) workload_new \<lparr>canon_pos = 0, crand_pos = 0\<rparr> = Inr (w, r)"
    using crowd_Init by auto
  have c: "CreateDB sample_lsm (op_props ?o) = Inr (Some (unified_db list_store, []))"
    by (simp add: CreateDB_def unified_new_def unified_config_of_def unified_BuildOptions_def
        sample_lsm_def sample_opts_def crowd_props_def GetProperty_def property_at_def Let_def)
  have s: "stoi ''20'' = Inr 20" by code_simp
  have t: "stoi (GetProperty (op_props ?o) ''threadcount'' ''1'') = Inr 20"
    by (simp add: crowd_props_def GetProperty_def s)
  have p: "op_props ?o RECORD_COUNT_PROPERTY = Some ''3''" "op_props ?o ''dbname'' = Some ''unifiedlsm''"
    "op_props ?o OPERATION_COUNT_PROPERTY = Some ''10''"
    by (simp_all add: crowd_props_def sample_opts_def prop_names)
  have "idle 3 20" "idle 10 20" by (simp_all add: idle_def)
  with main_boundaries [OF crowd_parse c i p(1) stoi_literals(3) p(2) sample_clock_ok(1) t refl refl,
      of "[]" "[]"] p(3) show ?thesis
    by (auto simp: sample_clock_ok sample_opts_def stoi_literals)
qed

end
