(* ===== verification/Workload_Files.thy ===== *)
theory Workload_Files
  imports Properties
begin

text \<open>
  Property files as lists of items, and the workload files that come with the program.
  A file of items is read back with its comments and blank lines ignored.
\<close>

section \<open>Items\<close>

datatype spec_item = Comment string | Blank | Entry string string

fun item_line :: "spec_item \<Rightarrow> string" where
  "item_line (Comment s) = CHR ''#'' # s"
| "item_line Blank = []"
| "item_line (Entry k v) = k @ ''='' @ v"

fun item_ok :: "spec_item \<Rightarrow> bool" where
  "item_ok (Comment s) \<longleftrightarrow> nl \<notin> set s"
| "item_ok Blank \<longleftrightarrow> True"
| "item_ok (Entry k v) \<longleftrightarrow> clean_key k \<and> clean_value v"

fun item_entry :: "spec_item \<Rightarrow> (string \<times> string) list" where
  "item_entry (Comment s) = []"
| "item_entry Blank = []"
| "item_entry (Entry k v) = [(k, v)]"

definition items_text :: "spec_item list \<Rightarrow> string" where
  "items_text items = concat (map (\<lambda>i. item_line i @ [nl]) items)"

definition items_map :: "spec_item list \<Rightarrow> properties" where
  "items_map items = map_of (rev (concat (map item_entry items)))"

lemma item_line_nl: "item_ok i \<Longrightarrow> nl \<notin> set (item_line i)"
  by (cases i) (auto simp: clean_key_def clean_value_def)

lemma split_items: "list_all item_ok items \<Longrightarrow> split_lines (items_text items) = map item_line items @ [[]]"
proof (induction items)
  case (Cons i items)
  have "items_text (i # items) = item_line i @ nl # items_text items"
    by (simp add: items_text_def)
  then have "split_lines (items_text (i # items)) = item_line i # split_lines (items_text items)"
    using split_lines_line [OF item_line_nl] Cons.prems by simp
  with Cons show ?case by simp
qed (simp add: items_text_def)

lemma load_item: "item_ok i \<Longrightarrow> load_line p (item_line i) = p ++ map_of (item_entry i)"
proof (cases i)
  case (Entry k v)
  then show "item_ok i \<Longrightarrow> ?thesis" using load_line_entry [of k v p] by simp
qed (simp_all add: load_line_def find_char_def)

lemma fold_items: "list_all item_ok items \<Longrightarrow> fold (\<lambda>l p. load_line p l) (map item_line items) p = p ++ items_map items"
proof (induction items arbitrary: p)
  case (Cons i items)
  have "map_of (rev (item_entry i)) = map_of (item_entry i)" by (cases i) simp_all
  with Cons load_item [of i p] show ?case by (simp add: items_map_def map_add_assoc)
qed (simp add: items_map_def)

lemma Load_items_text:
  "list_all item_ok items \<Longrightarrow> Load p (Some (items_text items)) = Inr (p ++ items_map items)"
  using fold_items [of items p] by (simp add: Load_def load_loop_fold split_items load_line_def find_char_def)

text \<open>
  C37: a property file of comments, blank lines and \<open>key=value\<close> lines is read back: exactly its
  pairs are added to the map, a later line for a key overrides an earlier one, and
  properties set before the file is loaded stay unless it names them.  Keys and values
  carry no surrounding white space and no newline, keys no \<open>=\<close> and no leading \<open>#\<close>.
\<close>

theorem Load_items:
  assumes "list_all item_ok items"
  shows "Load p (Some (items_text items)) = Inr (p ++ items_map items)"
  by (rule Load_items_text [OF assms])

theorem Load_items_witness:
  "Load [''threadcount'' \<mapsto> ''4'']
     (Some (items_text [Comment '' a=0'', Entry ''a'' ''x=1'', Blank, Entry ''b'' [], Entry ''a'' ''2''])) =
   Inr [''threadcount'' \<mapsto> ''4'', ''b'' \<mapsto> [], ''a'' \<mapsto> ''2'']"
proof -
  have "list_all item_ok [Comment '' a=0'', Entry ''a'' ''x=1'', Blank, Entry ''b'' [], Entry ''a'' ''2'']"
    by (simp add: clean_key_def clean_value_def cisspace_def)
  from Load_items [OF this, of "[''threadcount'' \<mapsto> ''4'']"] show ?thesis
    by (simp add: items_map_def)
qed

section \<open>The workload files\<close>

text \<open>
  The files under \<open>workloads/\<close> share one layout.  They differ in their title, the number
  of records (and operations), the length of the only field, the proportions of the
  operations and the request distribution.
\<close>

definition core_file ::
  "string \<Rightarrow> string \<Rightarrow> string \<Rightarrow> string list \<Rightarrow> spec_item list \<Rightarrow> spec_item list" where
  "core_file title count len mix rest =
     [Comment title,
      Entry ''recordcount'' count,
      Entry ''operationcount'' count,
      Entry ''workload'' ''com.yahoo.ycsb.workloads.CoreWorkload'',
      Blank,
      Entry ''fieldcount'' ''1'',
      Entry ''fieldlength'' len,
      Entry ''field_len_dist'' ''fixed'',
      Entry ''readallfields'' ''true'',
      Entry ''writeallfields'' ''true'',
      Entry ''splitlsm.enable_gc'' ''false'',
      Blank,
      Entry ''readproportion'' (mix ! 0),
      Entry ''updateproportion'' (mix ! 1),
      Entry ''deleteproportion'' (mix ! 2),
      Entry ''insertproportion'' (mix ! 3),
      Entry ''scanproportion'' (mix ! 4),
      Entry ''readmodifywriteproportion'' (mix ! 5),
      Blank] @ rest"

definition requests :: "string \<Rightarrow> spec_item list" where
  "requests d = [Entry ''requestdistribution'' d]"

definition scan_requests :: "string \<Rightarrow> spec_item list" where
  "scan_requests d =
     [Entry ''requestdistribution'' d, Entry ''scanlengthdistribution'' ''uniform'',
      Entry ''maxscanlength'' ''100'']"

definition workload_delete :: "spec_item list" where
  "workload_delete = core_file '' Delete-only workload''
     ''100000'' ''131072'' [''0'', ''0'', ''1'', ''0'', ''0'', ''0''] (requests ''zipfian'')"

definition workload_get :: "spec_item list" where
  "workload_get = core_file '' Read-only workload (Get)''
     ''100000'' ''131072'' [''1'', ''0'', ''0'', ''0'', ''0'', ''0''] (requests ''zipfian'')"

definition workload_mixed_balanced :: "spec_item list" where
  "workload_mixed_balanced = core_file '' Mixed workload: 40% read, 40% update, 20% delete''
     ''100000'' ''131072'' [''0.4'', ''0.4'', ''0.2'', ''0'', ''0'', ''0''] (requests ''zipfian'')"

definition workload_mixed_read_heavy :: "spec_item list" where
  "workload_mixed_read_heavy = core_file '' Mixed workload: 70% read, 20% update, 10% delete''
     ''100000'' ''131072'' [''0.7'', ''0.2'', ''0.1'', ''0'', ''0'', ''0''] (requests ''zipfian'')"

definition workload_mixed_write_delete :: "spec_item list" where
  "workload_mixed_write_delete = core_file '' Mixed workload: 10% read, 50% update, 40% delete''
     ''100000'' ''131072'' [''0.1'', ''0.5'', ''0.4'', ''0'', ''0'', ''0''] (requests ''zipfian'')"

definition workload_put :: "spec_item list" where
  "workload_put = core_file '' Update-only workload (Put)''
     ''100000'' ''131072'' [''0'', ''1'', ''0'', ''0'', ''0'', ''0''] (requests ''zipfian'')"

definition workloada_16kb :: "spec_item list" where
  "workloada_16kb = core_file '' Workload A (16KB): 50% read, 50% update (zipfian)''
     ''6553600'' ''16384'' [''0.5'', ''0.5'', ''0'', ''0'', ''0'', ''0''] (requests ''zipfian'')"

definition workloada_1kb :: "spec_item list" where
  "workloada_1kb = core_file '' Workload A (1KB): 50% read, 50% update (zipfian)''
     ''104857600'' ''1024'' [''0.5'', ''0.5'', ''0'', ''0'', ''0'', ''0''] (requests ''zipfian'')"

definition workloadb_16kb :: "spec_item list" where
  "workloadb_16kb = core_file '' Workload B (16KB): 95% read, 5% update (zipfian)''
     ''6553600'' ''16384'' [''0.95'', ''0.05'', ''0'', ''0'', ''0'', ''0''] (requests ''zipfian'')"

definition workloadb_1kb :: "spec_item list" where
  "workloadb_1kb = core_file '' Workload B (1KB): 95% read, 5% update (zipfian)''
     ''104857600'' ''1024'' [''0.95'', ''0.05'', ''0'', ''0'', ''0'', ''0''] (requests ''zipfian'')"

definition workloadc_16kb :: "spec_item list" where
  "workloadc_16kb = core_file '' Workload C (16KB): 100% read (zipfian)''
     ''6553600'' ''16384'' [''1'', ''0'', ''0'', ''0'', ''0'', ''0''] (requests ''zipfian'')"

definition workloadc_1kb :: "spec_item list" where
  "workloadc_1kb = core_file '' Workload C (1KB): 100% read (zipfian)''
     ''104857600'' ''1024'' [''1'', ''0'', ''0'', ''0'', ''0'', ''0''] (requests ''zipfian'')"

definition workloadd_16kb :: "spec_item list" where
  "workloadd_16kb = core_file '' Workload D (16KB): 95% read, 5% insert (latest)''
     ''6553600'' ''16384'' [''0.95'', ''0'', ''0'', ''0.05'', ''0'', ''0''] (requests ''latest'')"

definition workloadd_1kb :: "spec_item list" where
  "workloadd_1kb = core_file '' Workload D (1KB): 95% read, 5% insert (latest)''
     ''104857600'' ''1024'' [''0.95'', ''0'', ''0'', ''0.05'', ''0'', ''0''] (requests ''latest'')"

definition workloade_16kb :: "spec_item list" where
  "workloade_16kb = core_file '' Workload E (16KB): 95% scan, 5% insert (zipfian)''
     ''6553600'' ''16384'' [''0'', ''0'', ''0'', ''0.05'', ''0.95'', ''0''] (scan_requests ''zipfian'')"

definition workloade_1kb :: "spec_item list" where
  "workloade_1kb = core_file '' Workload E (1KB): 95% scan, 5% insert (zipfian)''
     ''104857600'' ''1024'' [''0'', ''0'', ''0'', ''0.05'', ''0.95'', ''0''] (scan_requests ''zipfian'')"

definition workloadf_16kb :: "spec_item list" where
  "workloadf_16kb = core_file '' Workload F (16KB): 50% read, 50% read-modify-write (zipfian)''
     ''6553600'' ''16384'' [''0.5'', ''0'', ''0'', ''0'', ''0'', ''0.5''] (requests ''zipfian'')"

definition workloadf_1kb :: "spec_item list" where
  "workloadf_1kb = core_file '' Workload F (1KB): 50% read, 50% read-modify-write (zipfian)''
     ''104857600'' ''1024'' [''0.5'', ''0'', ''0'', ''0'', ''0'', ''0.5''] (requests ''zipfian'')"

definition shipped_files :: "(string \<times> spec_item list) list" where
  "shipped_files =
     [(''workloads/workload_delete.spec'', workload_delete),
      (''workloads/workload_get.spec'', workload_get),
      (''workloads/workload_mixed_balanced.spec'', workload_mixed_balanced),
      (''workloads/workload_mixed_read_heavy.spec'', workload_mixed_read_heavy),
      (''workloads/workload_mixed_write_delete.spec'', workload_mixed_write_delete),
      (''workloads/workload_put.spec'', workload_put),
      (''workloads/workloada_16kb.spec'', workloada_16kb),
      (''workloads/workloada_1kb.spec'', workloada_1kb),
      (''workloads/workloadb_16kb.spec'', workloadb_16kb),
      (''workloads/workloadb_1kb.spec'', workloadb_1kb),
      (''workloads/workloadc_16kb.spec'', workloadc_16kb),
      (''workloads/workloadc_1kb.spec'', workloadc_1kb),
      (''workloads/workloadd_16kb.spec'', workloadd_16kb),
      (''workloads/workloadd_1kb.spec'', workloadd_1kb),
      (''workloads/workloade_16kb.spec'', workloade_16kb),
      (''workloads/workloade_1kb.spec'', workloade_1kb),
      (''workloads/workloadf_16kb.spec'', workloadf_16kb),
      (''workloads/workloadf_1kb.spec'', workloadf_1kb)]"

lemmas file_defs =
  workload_delete_def workload_get_def workload_mixed_balanced_def workload_mixed_read_heavy_def
  workload_mixed_write_delete_def workload_put_def workloada_16kb_def workloada_1kb_def
  workloadb_16kb_def workloadb_1kb_def workloadc_16kb_def workloadc_1kb_def
  workloadd_16kb_def workloadd_1kb_def workloade_16kb_def workloade_1kb_def
  workloadf_16kb_def workloadf_1kb_def

end
