(* ===== verification/Shipped_Runs.thy ===== *)
theory Shipped_Runs
  imports Main_Facts Workload_Files
begin

text \<open>
  Runs of \<open>main\<close> on the workload files that come with the program.  In two of them Zipf
  requests come with inserts, and the choice of a key ends because draws of the hottest
  key recur.
\<close>

section \<open>The command\<close>

text \<open>
  \<open>ycsbc -db db -threads t -P f -p db.dbpath=path\<close>, and the properties it leads to.
\<close>

definition file_options :: "string \<Rightarrow> string \<Rightarrow> string \<Rightarrow> string \<Rightarrow> cli_option list" where
  "file_options db t f path = [Database db, Threads t, Property_File f, Set_Property (db @ ''.dbpath'') path]"

definition file_args :: "string \<Rightarrow> string \<Rightarrow> string \<Rightarrow> string \<Rightarrow> string list" where
  "file_args db t f path =
     [''ycsbc'', ''-db'', db, ''-threads'', t, ''-P'', f, ''-p'', db @ ''.dbpath='' @ path]"

definition file_props :: "string \<Rightarrow> string \<Rightarrow> spec_item list \<Rightarrow> string \<Rightarrow> properties" where
  "file_props db t items path =
     ([''dbname'' \<mapsto> db, ''threadcount'' \<mapsto> t] ++ items_map items)(db @ ''.dbpath'' \<mapsto> path)"

lemma file_args_parse:
  assumes "files f = Some (items_text items)" "list_all item_ok items" "db \<in> {''splitlsm'', ''unifiedlsm''}"
  shows "ParseCommandLine files (file_args db t f path) =
    Inr \<lparr>op_props = file_props db t items path, op_load = False, op_run = False, op_filename = f\<rparr>"
proof -
  have o: "list_all cli_ok (file_options db t f path)"
    using assms(3) by (auto simp: file_options_def cli_ok_def)
  have "file_args db t f path = ''ycsbc'' # concat (map cli_args (file_options db t f path)) @ []"
    by (simp add: file_args_def file_options_def)
  with ParseCommandLine_cli [OF o, of "[]" files "''ycsbc''"] show ?thesis
    by (simp add: file_options_def start_options_def assms(1) Load_items_text [OF assms(2)] file_props_def
        fun_upd_twist [of "''dbname''"])
qed

section \<open>The files\<close>

text \<open>What is common to the files: the count, length, mix and distribution they name.\<close>

definition core_fits :: "spec_item list \<Rightarrow> nat \<Rightarrow> string \<Rightarrow> string list \<Rightarrow> string \<Rightarrow> bool" where
  "core_fits items n len mix d \<longleftrightarrow>
     (\<exists>title rest. items = core_file title (dec_string n) len mix rest \<and> nl \<notin> set title \<and>
        rest \<in> {requests d, scan_requests d}) \<and>
     n \<in> {100000, 6553600, 104857600} \<and> len \<in> {''131072'', ''16384'', ''1024''} \<and>
     mix \<in> set shipped_mixes \<and>
     (d = ''zipfian'' \<and> mix ! 3 = ''0'' \<or> d \<in> {''zipfian'', ''latest''} \<and> mix ! 3 = ''0.05'' \<and> n \<noteq> 100000)"

lemma shipped_counts:
  "dec_string 100000 = ''100000''" "dec_string 6553600 = ''6553600''" "dec_string 104857600 = ''104857600''"
  by code_simp+

lemma shipped_lengths:
  "stoi ''131072'' = Inr 131072" "stoi ''16384'' = Inr 16384" "stoi ''1024'' = Inr 1024"
  by code_simp+

lemma core_fitsI:
  assumes "mix \<in> set shipped_mixes" "len \<in> {''131072'', ''16384'', ''1024''}" "nl \<notin> set title"
    and "d = ''zipfian'' \<and> mix ! 3 = ''0'' \<or> d \<in> {''zipfian'', ''latest''} \<and> mix ! 3 = ''0.05'' \<and> n \<noteq> 100000"
    and "n \<in> {100000, 6553600, 104857600}"
  shows "\<exists>n' len' mix' d'. core_fits (core_file title (dec_string n) len mix (requests d)) n' len' mix' d'"
    and "\<exists>n' len' mix' d'. core_fits (core_file title (dec_string n) len mix (scan_requests d)) n' len' mix' d'"
  using assms unfolding core_fits_def by blast+

lemmas core_fits_counts =
  core_fitsI [where n = 100000, unfolded shipped_counts] core_fitsI [where n = 6553600, unfolded shipped_counts]
  core_fitsI [where n = 104857600, unfolded shipped_counts]

lemma shipped_fit:
  assumes "(f, items) \<in> set shipped_files"
  shows "\<exists>n len mix d. core_fits items n len mix d"
proof -
  have "list_all (\<lambda>(f, items). \<exists>n len mix d. core_fits items n len mix d) shipped_files"
    unfolding shipped_files_def file_defs list.pred_inject(2) prod.case
    by (intro conjI list.pred_inject(1); (rule core_fits_counts; simp add: shipped_mixes_def; fail))
  with assms show ?thesis by (auto simp: list_all_iff)
qed

lemma core_clean:
  "list_all clean_key [''recordcount'', ''operationcount'', ''workload'', ''fieldcount'', ''fieldlength'',
     ''field_len_dist'', ''readallfields'', ''writeallfields'', ''splitlsm.enable_gc'', ''readproportion'',
     ''updateproportion'', ''deleteproportion'', ''insertproportion'', ''scanproportion'',
     ''readmodifywriteproportion'', ''requestdistribution'', ''scanlengthdistribution'', ''maxscanlength'']"
  "list_all clean_value [''com.yahoo.ycsb.workloads.CoreWorkload'', ''1'', ''fixed'', ''true'', ''false'',
     ''zipfian'', ''latest'', ''uniform'', ''100'', ''131072'', ''16384'', ''1024'', ''100000'', ''6553600'', ''104857600'']"
  "list_all (\<lambda>m. length m = 6 \<and> list_all clean_value m) shipped_mixes"
  by code_simp+

lemma core_items_ok:
  assumes "core_fits items n len mix d"
  shows "list_all item_ok items"
proof -
  have v: "clean_value (mix ! j)" if "mix \<in> set shipped_mixes" "j < 6" for mix j
    using core_clean(3) that by (auto simp: list_all_iff)
  obtain title rest where i: "items = core_file title (dec_string n) len mix rest" "nl \<notin> set title"
    "rest \<in> {requests d, scan_requests d}"
    using assms by (auto simp: core_fits_def)
  have m: "clean_value (dec_string n)" "clean_value len" "clean_value d" "mix \<in> set shipped_mixes"
    using assms core_clean(2) by (auto simp: core_fits_def shipped_counts)
  show ?thesis using i(2,3) m core_clean(1,2) v [OF m(4)]
    by (auto simp: i(1) core_file_def requests_def scan_requests_def)
qed

text \<open>The properties of a run on such a file, one by one.\<close>

lemma file_props_at:
  assumes "items = core_file title (dec_string n) len mix rest" "db \<in> {''splitlsm'', ''unifiedlsm''}"
    and "rest \<in> {requests d, scan_requests d}"
  shows "file_props db t items path ''dbname'' = Some db"
    and "file_props db t items path ''threadcount'' = Some t"
    and "file_props db t items path ''recordcount'' = Some (dec_string n)"
    and "file_props db t items path ''operationcount'' = Some (dec_string n)"
    and "file_props db t items path ''fieldcount'' = Some ''1''"
    and "file_props db t items path ''fieldlength'' = Some len"
    and "file_props db t items path ''field_len_dist'' = Some ''fixed''"
    and "file_props db t items path ''readallfields'' = Some ''true''"
    and "file_props db t items path ''writeallfields'' = Some ''true''"
    and "file_props db t items path ''readproportion'' = Some (mix ! 0)"
    and "file_props db t items path ''updateproportion'' = Some (mix ! 1)"
    and "file_props db t items path ''deleteproportion'' = Some (mix ! 2)"
    and "file_props db t items path ''insertproportion'' = Some (mix ! 3)"
    and "file_props db t items path ''scanproportion'' = Some (mix ! 4)"
    and "file_props db t items path ''readmodifywriteproportion'' = Some (mix ! 5)"
    and "file_props db t items path ''requestdistribution'' = Some d"
    and "file_props db t items path ''insertstart'' = None"
    and "file_props db t items path ''zeropadding'' = None"
    and "file_props db t items path ''scanlengthdistribution'' \<in> {None, Some ''uniform''}"
    and "file_props db t items path ''maxscanlength'' \<in> {None, Some ''100''}"
  using assms(2,3)
  by (auto simp: file_props_def items_map_def assms(1) core_file_def requests_def scan_requests_def)

lemma core_fits_items:
  assumes "core_fits items n len mix d"
  obtains title rest where "items = core_file title (dec_string n) len mix rest"
    "rest \<in> {requests d, scan_requests d}"
  using assms by (auto simp: core_fits_def)

lemma file_plain:
  assumes "core_fits items n len mix d" "db \<in> {''splitlsm'', ''unifiedlsm''}"
  shows "plain_props (file_props db t items path) n"
proof -
  obtain title rest where i: "items = core_file title (dec_string n) len mix rest"
    "rest \<in> {requests d, scan_requests d}" using core_fits_items [OF assms(1)] .
  note at = file_props_at [OF i(1) assms(2) i(2)]
  have m: "mix \<in> set shipped_mixes" "n \<in> {100000, 6553600, 104857600}" "len \<in> {''131072'', ''16384'', ''1024''}"
    using assms(1) by (simp_all add: core_fits_def)
  have "length mix = 6" using m(1) core_clean(3) by (auto simp: list_all_iff)
  then have "mix_of (file_props db t items path) = mix"
    by (simp add: mix_of_def mix_names_def GetProperty_def prop_names at(1-18)
        list_eq_iff_nth_eq nth_Cons' less_Suc_eq numeral_eq_Suc)
  moreover have "stoi_sat (\<lambda>l. 1 \<le> l) len" using m(3) by (auto simp: stoi_sat_def shipped_lengths)
  moreover have "1 \<le> n \<and> n \<le> 2147483647" using m(2) by auto
  moreover have "GetProperty (file_props db t items path) ''scanlengthdistribution'' ''uniform'' = ''uniform''"
    "stoi_sat (\<lambda>l. 1 \<le> l) (GetProperty (file_props db t items path) ''maxscanlength'' ''1000'')"
    using at(19,20) [of t path] by (auto simp: GetProperty_def stoi_sat_def stoi_literals)
  ultimately show ?thesis using m(1)
    by (simp add: plain_props_def prop_names stoi_sat_def stoi_literals int_max_def)
      (simp add: GetProperty_def at(1-18) stoi_sat_def stoi_literals)
qed

text \<open>The room for the keys of inserts in the two sizes, and the hottest key among the records.\<close>

lemma shipped_room:
  assumes "n = 6553600 \<or> n = 104857600"
  shows "to_cint (of_cint (int n) * to_dbl (5 / 100) * Fin 2) = Inr (int n div 10)"
    and "FNVHash64 0 mod of_nat (n + n div 10) \<le> of_nat n - 1"
proof -
  have "FNVHash64 0 = 0xA8C7F832281A39C5" by code_simp
  then show "FNVHash64 0 mod of_nat (n + n div 10) \<le> of_nat n - 1" using assms by auto
  show "to_cint (of_cint (int n) * to_dbl (5 / 100) * Fin 2) = Inr (int n div 10)"
    using assms by (auto simp: of_cint_def double_ops trunc_rat_def dbl_eval ilog2_num)
qed

lemma file_requests:
  assumes "core_fits items n len mix d" "db \<in> {''splitlsm'', ''unifiedlsm''}" "pow_unit E"
    and "\<forall>n \<in> {100000, 6553599, 6553600, 7208960, 104857599, 104857600, 115343360}. zeta_ratio_ok E n"
    and "\<forall>n \<in> {7208960, 115343360}. head_draws_recur E n"
  shows "requests_ok E (file_props db t items path) n"
proof -
  obtain title rest where i: "items = core_file title (dec_string n) len mix rest"
    "rest \<in> {requests d, scan_requests d}" using core_fits_items [OF assms(1)] .
  note at = file_props_at [OF i(1) assms(2) i(2)]
  have n: "n \<in> {100000, 6553600, 104857600}"
    and m: "d = ''zipfian'' \<and> mix ! 3 = ''0'' \<or> d \<in> {''zipfian'', ''latest''} \<and> mix ! 3 = ''0.05'' \<and> n \<noteq> 100000"
    using assms(1) by (simp_all add: core_fits_def)
  have o: "stoi (dec_string n) = Inr (int n)" using n by (intro stoi_dec_string) auto
  from m consider "d = ''zipfian''" "mix ! 3 = ''0''" | "d = ''latest''" "n \<noteq> 100000"
    | "d = ''zipfian''" "mix ! 3 = ''0.05''" "n = 6553600 \<or> n = 104857600" using n by auto
  then show ?thesis
  proof cases
    case 1
    have "3 \<le> n" "zeta_ratio_ok E n" using n assms(4) by auto
    then show ?thesis using 1 assms(3)
      by (simp add: requests_ok_def GetProperty_def prop_names at(1-18) o stod_literals)
  next
    case 2
    have "4 \<le> n" "zeta_ratio_ok E (n - 1)" using n 2 assms(4) by auto
    then show ?thesis using 2 assms(3)
      by (simp add: requests_ok_def GetProperty_def prop_names at(1-18))
  next
    case 3
    have k: "new_keys (file_props db t items path) = Inr (int (n div 10))"
      using shipped_room(1) [OF 3(3)]
      by (simp add: new_keys_def GetProperty_def prop_names at(1-18) o 3(2) stod_literals zdiv_int)
    have r: "3 \<le> n + n div 10" "n + n div 10 \<le> 2147483647" "zeta_ratio_ok E (n + n div 10)"
      "head_draws_recur E (n + n div 10)" using 3(3) assms(4,5) by auto
    then have h: "hot_recurs E n (n div 10)" using shipped_room(2) [OF 3(3)] by (simp add: hot_recurs_def)
    have z: "GetProperty (file_props db t items path) REQUEST_DISTRIBUTION_PROPERTY REQUEST_DISTRIBUTION_DEFAULT =
        ''zipfian''"
      by (simp add: GetProperty_def prop_names at(16) 3(1))
    show ?thesis unfolding requests_ok_def Let_def k z using r h assms(3) by simp
  qed
qed

section \<open>The runs\<close>

text \<open>
  the program runs on the workload files it ships with: for all 18 of them, on either
  store, with any number of threads, \<open>main\<close> loads the records of the file, up to a multiple
  of the number of threads, and performs its operations, without an exception, a failed
  assertion or a loop that does not end.  For the two mixes of scans and inserts this needs
  that draws of the hottest key come again and again, for all files that the constants
  of the Zipf distributions are in order.
\<close>

theorem shipped_files_run:
  assumes "(f, items) \<in> set shipped_files" "files f = Some (items_text items)"
    and "db \<in> {''splitlsm'', ''unifiedlsm''}" "stoi t = Inr nt" "1 \<le> nt"
    and "CreateDB L (file_props db t items path) = Inr (Some (D, s))"
    and "lsm_laws (le_split L) content valid" "lsm_laws (le_unified L) content valid" "opens_valid L valid"
    and "draws_ok E" "pow_unit E" "clock_ok C"
    and "\<forall>n \<in> {100000, 6553599, 6553600, 7208960, 104857599, 104857600, 115343360}. zeta_ratio_ok E n"
    and "\<forall>n \<in> {7208960, 115343360}. head_draws_recur E n"
  shows "\<exists>n. items_map items ''recordcount'' = Some (dec_string n) \<and>
    main E L files load_sched run_sched C (file_args db t f path) =
      Inr [Loading_Records (int n - int n mod nt),
           Throughput db f nt (of_cint (int n) / measured C / Fin 1000)]"
proof -
  obtain n len mix d where c: "core_fits items n len mix d" using shipped_fit [OF assms(1)] by blast
  obtain title rest where i: "items = core_file title (dec_string n) len mix rest"
    "rest \<in> {requests d, scan_requests d}" using core_fits_items [OF c] .
  let ?o = "\<lparr>op_props = file_props db t items path, op_load = False, op_run = False, op_filename = f\<rparr>"
  note at = file_props_at [OF i(1) assms(3) i(2), of t path]
  have p: "ParseCommandLine files (file_args db t f path) = Inr ?o"
    by (rule file_args_parse [of files f, OF assms(2) core_items_ok [OF c] assms(3)])
  have "n \<le> 2147483647" using c by (auto simp: core_fits_def)
  then have oc: "stoi (dec_string n) = Inr (int n)" by (rule stoi_dec_string)
  have "\<exists>name. op_props ?o ''dbname'' = Some name \<and>
    main E L files load_sched run_sched C (file_args db t f path) =
      Inr ((if op_load ?o \<or> \<not> op_run ?o then [Loading_Records (int n - int n mod nt)] else []) @
           (if op_run ?o \<or> \<not> op_load ?o
            then [Throughput name (op_filename ?o) nt (of_cint (int n) / measured C / Fin 1000)] else []))"
    by (rule main_run [OF p _ _ assms(10,12) _ assms(7-9) _ assms(5) _ oc])
      (use assms(6) file_plain [OF c assms(3)] file_requests [OF c assms(3,11,13,14)] in
        \<open>simp_all add: GetProperty_def prop_names at(1-18) assms(4)\<close>)
  moreover have "items_map items ''recordcount'' = Some (dec_string n)"
    using i(2) by (auto simp: items_map_def i(1) core_file_def requests_def scan_requests_def)
  ultimately show ?thesis by (intro exI [of _ n]) (simp add: at(1-18))
qed

section \<open>A run with scans and inserts\<close>

text \<open>With \<open>pow\<close> constantly 1 the zeta constant of \<open>n\<close> is \<open>n\<close>.\<close>

definition flat_env :: env where
  "flat_env = (sample_env (Fin 0))\<lparr>pw := \<lambda>_ _. Fin 1\<rparr>"

lemma flat_zeta:
  assumes "m \<le> 2 ^ 53"
  shows "zeta_sum flat_env th [1..<Suc m] 0 = Fin (of_nat m)"
  using assms
proof (induction m)
  case (Suc m)
  have s: "[1..<Suc (Suc m)] = [1..<Suc m] @ [Suc m]" by simp
  have "to_dbl (of_int (int (Suc m))) = Fin (of_int (int (Suc m)))"
    using Suc.prems by (intro to_dbl_int) simp
  then have a: "Fin (of_nat m) + 1 = Fin (of_nat (Suc m))" by (simp add: double_ops add.commute)
  have "(1 :: double) / Fin 1 = 1" by (simp add: double_ops dbl_eval)
  with Suc a show ?case unfolding s zeta_sum_append by (simp add: zeta_sum_def flat_env_def)
qed (simp add: zeta_sum_def double_ops)

lemma flat_ratio:
  assumes "4 \<le> n" "n \<le> 2147483647"
  shows "zeta_ratio_ok flat_env n"
proof -
  have z: "zeta_sum flat_env kZipfianConst [1..<3] 0 = Fin 2"
  proof -
    have "(3 :: nat) = Suc 2" by simp
    then show ?thesis using flat_zeta [of 2 kZipfianConst] by (simp del: upt_Suc)
  qed
  have zn: "zeta_sum flat_env kZipfianConst [1..<Suc n] 0 = Fin (of_nat n)"
    using assms(2) by (intro flat_zeta) simp
  have n: "(4 :: rat) \<le> of_nat n" using assms(1) by (metis of_nat_le_iff of_nat_numeral)
  then have q: "2 / of_nat n \<le> (1 / 2 :: rat)" "0 \<le> (2 / of_nat n :: rat)" by (simp_all add: divide_le_eq)
  have "Fin 2 / Fin (of_nat n) = Fin (rnd (2 / of_nat n))"
    using n by (intro quotient_Fin) simp_all
  moreover have "rnd (2 / of_nat n) \<le> 1 / 2" using rnd_mono [OF q(1)] by (simp add: dbl_eval)
  moreover have "0 \<le> rnd (2 / of_nat n)" using q(2) by (rule rnd_nonneg)
  ultimately show ?thesis unfolding zeta_ratio_ok_def z zn by (simp add: flat_env_def)
qed

lemma flat_ok: "draws_ok flat_env" "pow_unit flat_env"
  using sample_draws_ok by (simp_all add: flat_env_def draws_ok_def pow_unit_def)

lemma flat_recurs: "n \<le> 2 ^ 53 \<Longrightarrow> head_draws_recur flat_env n"
  using flat_zeta [of n kZipfianConst]
  by (auto simp: head_draws_recur_def flat_env_def double_ops dbl_eval simp del: upt_Suc)

lemma workloade_16kb_shipped: "(''workloads/workloade_16kb.spec'', workloade_16kb) \<in> set shipped_files"
  by (simp add: shipped_files_def)

lemma workloade_16kb_opens:
  "CreateDB sample_lsm (file_props ''unifiedlsm'' ''3'' workloade_16kb ''x'') = Inr (Some (unified_db list_store, []))"
  by (simp add: CreateDB_def unified_new_def unified_config_of_def unified_BuildOptions_def sample_lsm_def
      file_props_def items_map_def workloade_16kb_def core_file_def scan_requests_def GetProperty_def
      property_at_def Let_def)

lemma workloade_16kb_records:
  "items_map workloade_16kb ''recordcount'' = Some (dec_string n) \<longleftrightarrow> n = 6553600"
proof -
  have "items_map workloade_16kb ''recordcount'' = Some (dec_string 6553600)"
    by (simp add: items_map_def workloade_16kb_def core_file_def scan_requests_def shipped_counts)
  then show ?thesis by (auto simp: dec_string_inj)
qed

theorem shipped_files_run_witness:
  "main flat_env sample_lsm [''workloads/workloade_16kb.spec'' \<mapsto> items_text workloade_16kb] [] [] sample_clock
     (file_args ''unifiedlsm'' ''3'' ''workloads/workloade_16kb.spec'' ''x'') =
   Inr [Loading_Records 6553599,
        Throughput ''unifiedlsm'' ''workloads/workloade_16kb.spec'' 3 (of_cint 6553600 / Fin 2 / Fin 1000)]"
proof -
  let ?f = "''workloads/workloade_16kb.spec''"
  have z: "\<forall>n \<in> {100000, 6553599, 6553600, 7208960, 104857599, 104857600, 115343360}. zeta_ratio_ok flat_env n"
    "\<forall>n \<in> {7208960, 115343360}. head_draws_recur flat_env n"
    using flat_ratio flat_recurs by simp_all
  have db: "''unifiedlsm'' \<in> {''splitlsm'', ''unifiedlsm''}" by simp
  obtain n where n: "items_map workloade_16kb ''recordcount'' = Some (dec_string n)"
    "main flat_env sample_lsm [?f \<mapsto> items_text workloade_16kb] [] [] sample_clock
        (file_args ''unifiedlsm'' ''3'' ?f ''x'') =
      Inr [Loading_Records (int n - int n mod 3),
           Throughput ''unifiedlsm'' ?f 3 (of_cint (int n) / measured sample_clock / Fin 1000)]"
    using shipped_files_run [OF workloade_16kb_shipped _ db _ _ workloade_16kb_opens sample_laws sample_opens flat_ok sample_clock_ok(1) z,
        of "[?f \<mapsto> items_text workloade_16kb]" 3 "[]" "[]"] by (auto simp: stoi_literals)
  have "n = 6553600" using n(1) by (simp only: workloade_16kb_records)
  with n(2) show ?thesis by (simp add: sample_clock_ok)
qed

end
