(* ===== verification/Engine_Runs.thy ===== *)
theory Engine_Runs
  imports Shipped_Runs Engines
begin

text \<open>
  The shipped workload files with the engine of the GNU C++ library.  The hypotheses of
  \<open>shipped_files_run\<close> on the draws and on the constants of the Zipf distributions are
  consequences of the engine and of a \<open>std::pow\<close> that is accurate to one percent.
\<close>

text \<open>
  C2: the program runs on the workload files it ships with: for all 18 of them, on either
  store, with any number of threads, \<open>main\<close> loads the records of the file, up to a multiple
  of the number of threads, and performs its operations, without an exception, a failed
  assertion or a loop that does not end.  The draws are those of the default engine of the
  GNU library; of \<open>std::pow\<close> only that it stays in the unit interval on it and is within one
  percent of the real power.
\<close>

theorem shipped_files_run_minstd:
  assumes "(f, items) \<in> set shipped_files" "files f = Some (items_text items)"
    and "db \<in> {''splitlsm'', ''unifiedlsm''}" "stoi t = Inr nt" "1 \<le> nt"
    and "CreateDB L (file_props db t items path) = Inr (Some (D, s))"
    and "lsm_laws (le_split L) content valid" "lsm_laws (le_unified L) content valid" "opens_valid L valid"
    and "canon E = engine_draw" "pow_close E" "pow_unit E" "clock_ok C"
  shows "\<exists>n. items_map items ''recordcount'' = Some (dec_string n) \<and>
    main E L files load_sched run_sched C (file_args db t f path) =
      Inr [Loading_Records (int n - int n mod nt),
           Throughput db f nt (of_cint (int n) / measured C / Fin 1000)]"
  by (rule shipped_files_run [of f items files, OF assms(1-9) engine_ok [OF assms(10)] assms(12,13)])
    (use pow_close_ratio [OF assms(11,12)] engine_head_recurs [OF assms(10,11)] in simp_all)

section \<open>A run\<close>

definition engine_env :: env where
  "engine_env = (sample_env (Fin 0))\<lparr>canon := engine_draw, pw := real_pow\<rparr>"

lemma engine_env_ok: "canon engine_env = engine_draw" "pow_close engine_env" "pow_unit engine_env"
  unfolding engine_env_def by (simp, (rule real_pow_close real_pow_unit)+)

theorem shipped_files_run_minstd_witness:
  "main engine_env sample_lsm [''workloads/workloade_16kb.spec'' \<mapsto> items_text workloade_16kb] [] [] sample_clock
     (file_args ''unifiedlsm'' ''3'' ''workloads/workloade_16kb.spec'' ''x'') =
   Inr [Loading_Records 6553599,
        Throughput ''unifiedlsm'' ''workloads/workloade_16kb.spec'' 3 (of_cint 6553600 / Fin 2 / Fin 1000)]"
proof -
  let ?f = "''workloads/workloade_16kb.spec''"
  have db: "''unifiedlsm'' \<in> {''splitlsm'', ''unifiedlsm''}" by simp
  obtain n where n: "items_map workloade_16kb ''recordcount'' = Some (dec_string n)"
    "main engine_env sample_lsm [?f \<mapsto> items_text workloade_16kb] [] [] sample_clock
        (file_args ''unifiedlsm'' ''3'' ?f ''x'') =
      Inr [Loading_Records (int n - int n mod 3),
           Throughput ''unifiedlsm'' ?f 3 (of_cint (int n) / measured sample_clock / Fin 1000)]"
    using shipped_files_run_minstd [OF workloade_16kb_shipped _ db _ _ workloade_16kb_opens sample_laws sample_opens engine_env_ok sample_clock_ok(1),
        of "[?f \<mapsto> items_text workloade_16kb]" 3 "[]" "[]"] by (auto simp: stoi_literals)
  moreover have "n = 6553600" using n(1) by (simp only: workloade_16kb_records)
  ultimately show ?thesis by (simp add: sample_clock_ok)
qed

end
