(* ===== verification/Concurrent_Load.thy ===== *)
theory Concurrent_Load
  imports Run_Facts "HOL-Library.Multiset"
begin

text \<open>
  The load phase with its threads interleaved inside an iteration.  A thread's iteration
  of \<open>DelegateClient\<close> is three steps of \<open>Client::DoInsert\<close>: it fetches a key number from the
  shared counter, builds the record, and hands it to the database; the steps of
  different threads come in any order.  \<open>CounterGenerator\<close> counts in a
  \<open>std::atomic\<close>, and the stores are assumed to serialise their calls, so fetching and storing
  are atomic.  Building a record draws only lengths and characters, which no other step
  looks at, and is taken as one step.
\<close>

section \<open>Configurations and steps\<close>

text \<open>What a thread does next; the number is the iterations it has left after this one.\<close>

datatype worker =
    Fetching nat
  | Building nat string
  | Storing nat string "kvpair list"

record 's load_conf =
  lc_workers :: "worker list"
  lc_oks :: "int list"
  lc_wl :: workload
  lc_rng :: rng
  lc_db :: 's

datatype action = Fetch nat string | Build nat | Store nat string

inductive load_step ::
  "env \<Rightarrow> 's db_class \<Rightarrow> 's load_conf \<Rightarrow> action \<Rightarrow> 's load_conf \<Rightarrow> bool"
  for E D where
    step_fetch:
      "\<lbrakk>i < length (lc_workers c); lc_workers c ! i = Fetching (Suc n);
        NextSequenceKey E (lc_wl c) (lc_rng c) = Inr (key, w, r)\<rbrakk> \<Longrightarrow>
       load_step E D c (Fetch i key)
         (c\<lparr>lc_workers := (lc_workers c)[i := Building n key], lc_wl := w, lc_rng := r\<rparr>)"
  | step_build:
      "\<lbrakk>i < length (lc_workers c); lc_workers c ! i = Building n key;
        BuildValues E [] (lc_wl c) (lc_rng c) = Inr (kvs, w, r)\<rbrakk> \<Longrightarrow>
       load_step E D c (Build i)
         (c\<lparr>lc_workers := (lc_workers c)[i := Storing n key kvs], lc_wl := w, lc_rng := r\<rparr>)"
  | step_store:
      "\<lbrakk>i < length (lc_workers c); lc_workers c ! i = Storing n key kvs;
        db_Insert D (lc_db c) (NextTable (lc_wl c)) key kvs = Inr (status, s)\<rbrakk> \<Longrightarrow>
       load_step E D c (Store i key)
         (c\<lparr>lc_workers := (lc_workers c)[i := Fetching n],
            lc_oks := (lc_oks c)[i := lc_oks c ! i + of_bool (status = kOK)], lc_db := s\<rparr>)"

text \<open>The step of one thread as a function; a thread that is done has none.\<close>

definition worker_step ::
  "env \<Rightarrow> 's db_class \<Rightarrow> nat \<Rightarrow> 's load_conf \<Rightarrow> stop + (action \<times> 's load_conf) option" where
  "worker_step E D i c =
     (case lc_workers c ! i of
        Fetching 0 \<Rightarrow> Inr None
      | Fetching (Suc n) \<Rightarrow>
          bind_r (NextSequenceKey E (lc_wl c) (lc_rng c)) (\<lambda>(key, w, r).
          Inr (Some (Fetch i key,
            c\<lparr>lc_workers := (lc_workers c)[i := Building n key], lc_wl := w, lc_rng := r\<rparr>)))
      | Building n key \<Rightarrow>
          bind_r (BuildValues E [] (lc_wl c) (lc_rng c)) (\<lambda>(kvs, w, r).
          Inr (Some (Build i,
            c\<lparr>lc_workers := (lc_workers c)[i := Storing n key kvs], lc_wl := w, lc_rng := r\<rparr>)))
      | Storing n key kvs \<Rightarrow>
          bind_r (db_Insert D (lc_db c) (NextTable (lc_wl c)) key kvs) (\<lambda>(status, s).
          Inr (Some (Store i key,
            c\<lparr>lc_workers := (lc_workers c)[i := Fetching n],
              lc_oks := (lc_oks c)[i := lc_oks c ! i + of_bool (status = kOK)], lc_db := s\<rparr>))))"

lemma load_step_iff:
  "load_step E D c a c' \<longleftrightarrow> (\<exists>i < length (lc_workers c). worker_step E D i c = Inr (Some (a, c')))"
proof
  assume "load_step E D c a c'"
  then show "\<exists>i < length (lc_workers c). worker_step E D i c = Inr (Some (a, c'))"
    by cases (force simp: worker_step_def)+
next
  assume "\<exists>i < length (lc_workers c). worker_step E D i c = Inr (Some (a, c'))"
  then obtain i where i: "i < length (lc_workers c)" "worker_step E D i c = Inr (Some (a, c'))" by blast
  show "load_step E D c a c'"
  proof (cases "lc_workers c ! i")
    case (Fetching m)
    with i show ?thesis
      by (cases m) (auto simp: worker_step_def bind_r_eq_Inr intro: step_fetch)
  qed (use i in \<open>auto simp: worker_step_def bind_r_eq_Inr intro: step_build step_store\<close>)
qed

inductive load_run ::
  "env \<Rightarrow> 's db_class \<Rightarrow> 's load_conf \<Rightarrow> action list \<Rightarrow> 's load_conf \<Rightarrow> bool"
  for E D c where
    run_none: "load_run E D c [] c"
  | run_snoc: "load_run E D c as c' \<Longrightarrow> load_step E D c' a c'' \<Longrightarrow> load_run E D c (as @ [a]) c''"

definition load_start :: "'s db_class \<Rightarrow> nat \<Rightarrow> nat \<Rightarrow> workload \<Rightarrow> rng \<Rightarrow> 's \<Rightarrow> 's load_conf" where
  "load_start D nt per w r s =
     \<lparr>lc_workers = replicate nt (Fetching per), lc_oks = replicate nt 0, lc_wl = w, lc_rng = r,
      lc_db = (db_Init D ^^ nt) s\<rparr>"

definition load_done :: "'s load_conf \<Rightarrow> bool" where
  "load_done c \<longleftrightarrow> list_all (\<lambda>t. t = Fetching 0) (lc_workers c)"

text \<open>The keys a run fetched and stored, in order, and those that threads still hold.\<close>

definition fetched :: "action list \<Rightarrow> string list" where
  "fetched as = concat (map (\<lambda>a. case a of Fetch _ k \<Rightarrow> [k] | _ \<Rightarrow> []) as)"

definition stored :: "action list \<Rightarrow> string list" where
  "stored as = concat (map (\<lambda>a. case a of Store _ k \<Rightarrow> [k] | _ \<Rightarrow> []) as)"

fun held :: "worker \<Rightarrow> string list" where
  "held (Fetching n) = []"
| "held (Building n k) = [k]"
| "held (Storing n k kvs) = [k]"

definition pending :: "'s load_conf \<Rightarrow> string list" where
  "pending c = concat (map held (lc_workers c))"

text \<open>The steps a thread has left.\<close>

fun cost :: "worker \<Rightarrow> nat" where
  "cost (Fetching n) = 3 * n"
| "cost (Building n k) = 3 * n + 2"
| "cost (Storing n k kvs) = 3 * n + 1"

definition steps_left :: "'s load_conf \<Rightarrow> nat" where
  "steps_left c = sum_list (map cost (lc_workers c))"

inductive_cases load_stepE: "load_step E D c a c'"
inductive_simps load_run_Nil: "load_run E D c [] c'"

section \<open>Lemmas\<close>

lemma trace_simps [simp]:
  "fetched [] = []" "stored [] = []"
  "fetched (as @ [Fetch i k]) = fetched as @ [k]" "fetched (as @ [Build i]) = fetched as"
  "fetched (as @ [Store i k]) = fetched as"
  "stored (as @ [Fetch i k]) = stored as" "stored (as @ [Build i]) = stored as"
  "stored (as @ [Store i k]) = stored as @ [k]"
  by (simp_all add: fetched_def stored_def)

lemma mset_concat_update:
  "i < length xs \<Longrightarrow>
   mset (concat (map f (xs[i := y]))) + mset (f (xs ! i)) = mset (concat (map f xs)) + mset (f y)"
  by (induction xs arbitrary: i) (auto simp: nth_Cons ac_simps split: nat.splits)

lemma sum_cost_update:
  "i < length xs \<Longrightarrow>
   sum_list (map f (xs[i := y])) + f (xs ! i) = sum_list (map f xs) + (f y :: nat)"
  by (induction xs arbitrary: i) (auto simp: nth_Cons ac_simps split: nat.splits)

lemma pending_update:
  assumes "i < length (lc_workers c)" "lc_workers c ! i = t" "lc_workers c' = (lc_workers c)[i := t']"
  shows "mset (pending c') + mset (held t) = mset (pending c) + mset (held t')"
  using mset_concat_update [OF assms(1), of held t'] assms(2,3) by (simp add: pending_def)

lemma steps_left_update:
  assumes "i < length (lc_workers c)" "lc_workers c ! i = t" "lc_workers c' = (lc_workers c)[i := t']"
  shows "steps_left c' + cost t = steps_left c + cost t'"
  using sum_cost_update [OF assms(1), of cost t'] assms(2,3) by (simp add: steps_left_def)

text \<open>Every step uses up one of the steps left, so no run is longer than their number.\<close>

lemma step_cost: "load_step E D c a c' \<Longrightarrow> Suc (steps_left c') = steps_left c"
proof (erule load_stepE)
  fix i n key w r
  assume "a = Fetch i key" and c': "c' = c\<lparr>lc_workers := (lc_workers c)[i := Building n key], lc_wl := w, lc_rng := r\<rparr>"
    and "i < length (lc_workers c)" "lc_workers c ! i = Fetching (Suc n)"
  then show ?thesis using steps_left_update [of i c "Fetching (Suc n)" c' "Building n key"] by simp
next
  fix i n key kvs w r
  assume "c' = c\<lparr>lc_workers := (lc_workers c)[i := Storing n key kvs], lc_wl := w, lc_rng := r\<rparr>"
    and "i < length (lc_workers c)" "lc_workers c ! i = Building n key"
  then show ?thesis using steps_left_update [of i c "Building n key" c' "Storing n key kvs"] by simp
next
  fix i n key kvs status s
  assume "c' = c\<lparr>lc_workers := (lc_workers c)[i := Fetching n],
      lc_oks := (lc_oks c)[i := lc_oks c ! i + of_bool (status = kOK)], lc_db := s\<rparr>"
    and "i < length (lc_workers c)" "lc_workers c ! i = Storing n key kvs"
  then show ?thesis using steps_left_update [of i c "Storing n key kvs" c' "Fetching n"] by simp
qed

lemma run_cost: "load_run E D c as c' \<Longrightarrow> length as + steps_left c' = steps_left c"
  by (induction rule: load_run.induct) (auto dest: step_cost)

lemma done_iff: "load_done c \<longleftrightarrow> steps_left c = 0"
proof -
  have "cost t = 0 \<longleftrightarrow> t = Fetching 0" for t by (cases t) auto
  then show ?thesis by (simp add: load_done_def steps_left_def list_all_iff)
qed

lemma done_pending: "load_done c \<Longrightarrow> pending c = []"
  by (auto simp: load_done_def pending_def list_all_iff)


text \<open>The iterations a thread has left, the current one excluded.\<close>

fun rounds :: "worker \<Rightarrow> nat" where
  "rounds (Fetching n) = n"
| "rounds (Building n k) = n"
| "rounds (Storing n k kvs) = n"

definition rounds_left :: "'s load_conf \<Rightarrow> nat" where
  "rounds_left c = sum_list (map rounds (lc_workers c))"

lemma rounds_left_update:
  assumes "i < length (lc_workers c)" "lc_workers c ! i = t" "lc_workers c' = (lc_workers c)[i := t']"
  shows "rounds_left c' + rounds t = rounds_left c + rounds t'"
  using sum_cost_update [OF assms(1), of rounds t'] assms(2,3) by (simp add: rounds_left_def)

lemma done_rounds: "load_done c \<Longrightarrow> rounds_left c = 0"
  by (auto simp: load_done_def rounds_left_def list_all_iff)

section \<open>The invariant\<close>

text \<open>
  After the actions \<open>as\<close> of a load that started with key number \<open>c0\<close> on the contents \<open>m\<close>:
  the keys fetched are the names of consecutive numbers, each is stored or held by
  exactly one thread, the stored ones have a record, and each counts as a success.
\<close>

definition new_records :: "string set \<Rightarrow> (string \<rightharpoonup> string) \<Rightarrow> (string \<rightharpoonup> string) \<Rightarrow> bool" where
  "new_records ks m m' \<longleftrightarrow> (\<forall>k. if k \<in> ks then m' k \<noteq> None else m' k = m k)"

lemma loaded_new_records: "loaded_map w ks m m' \<Longrightarrow> new_records ks m m'"
  unfolding loaded_map_def new_records_def by (metis option.distinct(1))

text \<open>A record that is built and not yet stored has a value where the workload asks for one.\<close>

fun built_ok :: "workload \<Rightarrow> worker \<Rightarrow> bool" where
  "built_ok w (Storing n k kvs) \<longleftrightarrow> (nonempty_values w \<longrightarrow> first_value kvs \<noteq> [])"
| "built_ok w _ \<longleftrightarrow> True"

lemma built_ok_update:
  "list_all (built_ok w) ws \<Longrightarrow> built_ok w t \<Longrightarrow> list_all (built_ok w) (ws[i := t])"
  by (auto simp: list_all_iff dest: set_update_subset_insert [THEN subsetD])

context kv_db
begin

definition load_inv ::
  "env \<Rightarrow> workload \<Rightarrow> u64 \<Rightarrow> (string \<rightharpoonup> string) \<Rightarrow> nat \<Rightarrow> action list \<Rightarrow> 's load_conf \<Rightarrow> bool" where
  "load_inv E w0 c0 m N as c \<longleftrightarrow>
     wl_ready E (lc_wl c) \<and> same_run w0 (lc_wl c) \<and> ok (lc_db c) \<and>
     length (lc_oks c) = length (lc_workers c) \<and>
     w_key_generator (lc_wl c) = Counter_Gen (counter_new (c0 + of_nat (length (fetched as)))) \<and>
     map Inr (fetched as) = map (\<lambda>i. BuildKeyName w0 (c0 + of_nat i)) [0..<length (fetched as)] \<and>
     mset (stored as) + mset (pending c) = mset (fetched as) \<and>
     length (fetched as) + rounds_left c = N \<and>
     sum_list (lc_oks c) = int (length (stored as)) \<and> list_all (built_ok w0) (lc_workers c) \<and>
     loaded_map w0 (set (stored as)) m (content (lc_db c))"

lemma load_inv_fetch:
  assumes inv: "load_inv E w0 c0 m N as c" and i: "i < length (lc_workers c)" "lc_workers c ! i = Fetching (Suc n)"
    and k: "NextSequenceKey E (lc_wl c) (lc_rng c) = Inr (key, w, r)"
  shows "load_inv E w0 c0 m N (as @ [Fetch i key])
    (c\<lparr>lc_workers := (lc_workers c)[i := Building n key], lc_wl := w, lc_rng := r\<rparr>)"
proof -
  let ?c = "c\<lparr>lc_workers := (lc_workers c)[i := Building n key], lc_wl := w, lc_rng := r\<rparr>"
  let ?n = "length (fetched as)"
  note d = inv [unfolded load_inv_def]
  have g: "w_key_generator (lc_wl c) = Counter_Gen (counter_new (c0 + of_nat ?n))" using d by blast
  have w: "wl_ready E w" "same_run (lc_wl c) w" "BuildKeyName (lc_wl c) (c0 + of_nat ?n) = Inr key"
    "w_key_generator w = Counter_Gen (counter_new (c0 + of_nat ?n + 1))"
    using NextSequenceKey_ready [OF _ g, of E "lc_rng c"] d k by (auto simp: counter_new_def)
  have "BuildKeyName w0 (c0 + of_nat ?n) = Inr key" using w(3) same_run_name d by metis
  then have names: "map Inr (fetched as @ [key]) =
      map (\<lambda>i. BuildKeyName w0 (c0 + of_nat i)) [0..<length (fetched as @ [key])]"
    using d by simp
  have u: "mset (pending ?c) = mset (pending c) + {#key#}" "Suc (rounds_left ?c) = rounds_left c"
    using pending_update [OF i, of ?c "Building n key"] rounds_left_update [OF i, of ?c "Building n key"]
    by simp_all
  have "same_run w0 w" using d w(2) same_run_trans by blast
  with w(1,4) names u d built_ok_update show ?thesis by (auto simp: load_inv_def ac_simps)
qed

lemma load_inv_build:
  assumes inv: "load_inv E w0 c0 m N as c" and i: "i < length (lc_workers c)" "lc_workers c ! i = Building n key"
    and k: "BuildValues E [] (lc_wl c) (lc_rng c) = Inr (kvs, w, r)"
  shows "load_inv E w0 c0 m N (as @ [Build i])
    (c\<lparr>lc_workers := (lc_workers c)[i := Storing n key kvs], lc_wl := w, lc_rng := r\<rparr>)"
proof -
  let ?c = "c\<lparr>lc_workers := (lc_workers c)[i := Storing n key kvs], lc_wl := w, lc_rng := r\<rparr>"
  note d = inv [unfolded load_inv_def]
  have w: "w = lc_wl c" "1 \<le> w_field_count w \<longrightarrow> length (first_value kvs) = value_len w"
    using BuildValues_ready [of E "lc_wl c" "lc_rng c"] d k by auto
  have "same_run w0 w" using d w(1) by blast
  then have "nonempty_values w0 \<longrightarrow> first_value kvs \<noteq> []"
    using w(2) same_run_values [of w0 w] by (auto simp: nonempty_values_def same_run_def)
  then have b: "list_all (built_ok w0) ((lc_workers c)[i := Storing n key kvs])"
    using d by (intro built_ok_update) simp_all
  have u: "mset (pending ?c) = mset (pending c)" "rounds_left ?c = rounds_left c"
    using pending_update [OF i, of ?c "Storing n key kvs"] rounds_left_update [OF i, of ?c "Storing n key kvs"]
    by simp_all
  from u d w(1) b show ?thesis by (auto simp: load_inv_def)
qed

lemma load_inv_store:
  assumes inv: "load_inv E w0 c0 m N as c" and i: "i < length (lc_workers c)" "lc_workers c ! i = Storing n key kvs"
    and k: "db_Insert D (lc_db c) (NextTable (lc_wl c)) key kvs = Inr (status, s)"
  shows "load_inv E w0 c0 m N (as @ [Store i key])
    (c\<lparr>lc_workers := (lc_workers c)[i := Fetching n],
       lc_oks := (lc_oks c)[i := lc_oks c ! i + of_bool (status = kOK)], lc_db := s\<rparr>)"
proof -
  let ?c = "c\<lparr>lc_workers := (lc_workers c)[i := Fetching n],
    lc_oks := (lc_oks c)[i := lc_oks c ! i + of_bool (status = kOK)], lc_db := s\<rparr>"
  note d = inv [unfolded load_inv_def]
  obtain s' where s': "ok s'" "content s' = (content (lc_db c))(key \<mapsto> first_value kvs)"
    "db_Insert D (lc_db c) (NextTable (lc_wl c)) key kvs = Inr (kOK, s')"
    using insert_map [of "lc_db c"] d by blast
  then have st: "status = kOK" "s = s'" using k by simp_all
  have u: "mset (pending ?c) + {#key#} = mset (pending c)" "rounds_left ?c = rounds_left c"
    using pending_update [OF i, of ?c "Fetching n"] rounds_left_update [OF i, of ?c "Fetching n"]
    by simp_all
  have o: "sum_list (lc_oks ?c) = sum_list (lc_oks c) + 1"
    using sum_list_add_at [of i "lc_oks c" 1] i(1) d st(1) by simp
  have "list_all (built_ok w0) (lc_workers c)" using d by blast
  then have "built_ok w0 (lc_workers c ! i)" using i(1) by (simp add: list_all_length)
  then have r: "loaded_map w0 (set (stored (as @ [Store i key]))) m (content s)"
    using loaded_map_insert d s'(2) st(2) i(2) by simp
  have b: "list_all (built_ok w0) ((lc_workers c)[i := Fetching n])"
    using d by (intro built_ok_update) simp_all
  have "mset (stored as) + mset (pending c) = mset (fetched as)" using d by blast
  then have "mset (stored (as @ [Store i key])) + mset (pending ?c) = mset (fetched as)"
    unfolding u(1) [symmetric] by (simp add: ac_simps)
  with d u(2) o r b s'(1) st(2) show ?thesis unfolding load_inv_def by simp
qed

lemma load_inv_step:
  assumes "load_step E D c a c'" "load_inv E w0 c0 m N as c"
  shows "load_inv E w0 c0 m N (as @ [a]) c'"
  using assms
proof cases
  case (step_fetch i n key w r)
  with load_inv_fetch assms(2) show ?thesis by metis
next
  case (step_build i n key kvs w r)
  with load_inv_build assms(2) show ?thesis by metis
next
  case (step_store i n key kvs status s)
  with load_inv_store assms(2) show ?thesis by metis
qed

lemma load_inv_start:
  assumes "wl_ready E w" "w_key_generator w = Counter_Gen c" "ok s"
  shows "load_inv E w (counter_val c) (content s) (nt * per) [] (load_start D nt per w r s)"
proof -
  have "mset (concat (replicate nt (held (Fetching per)))) = {#}" by simp
  moreover have "sum_list (map rounds (replicate nt (Fetching per))) = nt * per"
    by (simp add: sum_list_replicate)
  ultimately show ?thesis
    using assms init_run [OF assms(3), of nt]
    by (simp add: load_inv_def load_start_def pending_def rounds_left_def loaded_map_def
        counter_eta sum_list_replicate list_all_iff)
qed

lemma load_inv_run:
  assumes "load_run E D c0 as c" "load_inv E w cn m N [] c0"
  shows "load_inv E w cn m N as c"
  using assms by (induction rule: load_run.induct) (auto intro: load_inv_step)

text \<open>A load never gets stuck before it is done.\<close>

lemma load_progress:
  assumes "load_inv E w0 c0 m N as c" "\<not> load_done c"
  shows "\<exists>a c'. load_step E D c a c'"
proof -
  note d = assms(1) [unfolded load_inv_def]
  obtain i where i: "i < length (lc_workers c)" "lc_workers c ! i \<noteq> Fetching 0"
    using assms(2) by (auto simp: load_done_def list_all_length)
  have rdy: "wl_ready E (lc_wl c)" using d by blast
  show ?thesis
  proof (cases "lc_workers c ! i")
    case (Fetching n)
    then obtain m where "lc_workers c ! i = Fetching (Suc m)" using i(2) by (cases n) auto
    moreover obtain key w where "NextSequenceKey E (lc_wl c) (lc_rng c) = Inr (key, w, lc_rng c)"
      using NextSequenceKey_ready [OF rdy] d by blast
    ultimately show ?thesis using step_fetch [OF i(1)] by blast
  next
    case (Building n key)
    obtain kvs r where "BuildValues E [] (lc_wl c) (lc_rng c) = Inr (kvs, lc_wl c, r)"
      using BuildValues_ready [OF rdy] by blast
    with Building show ?thesis using step_build [OF i(1)] by blast
  next
    case (Storing n key kvs)
    obtain s where "db_Insert D (lc_db c) (NextTable (lc_wl c)) key kvs = Inr (kOK, s)"
      using insert_map [of "lc_db c"] d by blast
    with Storing show ?thesis using step_store [OF i(1)] by blast
  qed
qed

text \<open>Some run finishes the load.\<close>

lemma load_completes:
  "load_run E D c0 as c \<Longrightarrow> load_inv E w cn m N [] c0 \<Longrightarrow>
   \<exists>as' c'. load_run E D c0 as' c' \<and> load_done c'"
proof (induction "steps_left c" arbitrary: as c)
  case 0
  then show ?case using done_iff by metis
next
  case (Suc k)
  have inv: "load_inv E w cn m N as c" using load_inv_run Suc.prems by blast
  have "\<not> load_done c" using Suc.hyps(2) by (simp add: done_iff)
  then obtain a c' where st: "load_step E D c a c'" using load_progress [OF inv] by blast
  then have "k = steps_left c'" using step_cost Suc.hyps(2) by fastforce
  from Suc.hyps(1) [OF this run_snoc [OF Suc.prems(1) st] Suc.prems(2)] show ?case .
qed

lemma load_end:
  assumes "load_inv E w c0 m N as c" "load_done c"
  shows "sum_list (lc_oks c) = int N \<and> loaded_map w (key_block w c0 N) m (content (lc_db c))"
proof -
  note d = assms(1) [unfolded load_inv_def]
  have n: "length (fetched as) = N" using d done_rounds [OF assms(2)] by simp
  have st: "mset (stored as) = mset (fetched as)" using d done_pending [OF assms(2)] by simp
  have mp: "map Inr (fetched as) = map (\<lambda>i. BuildKeyName w (c0 + of_nat i)) [0..<N]"
    using d n by simp
  have "key_block w c0 N = set (fetched as)"
  proof -
    have "k \<in> key_block w c0 N \<longleftrightarrow> Inr k \<in> set (map (\<lambda>i. BuildKeyName w (c0 + of_nat i)) [0..<N])" for k
      unfolding key_block_def by force
    then show ?thesis unfolding mp [symmetric] by auto
  qed
  then have "set (stored as) = key_block w c0 N" using mset_eq_setD [OF st] by simp
  moreover have "length (stored as) = N" using mset_eq_length [OF st] n by simp
  ultimately show ?thesis using d by simp
qed

lemma run_safe:
  assumes "wl_ready E w" "w_key_generator w = Counter_Gen c" "ok s"
    and "load_run E D (load_start D nt per w r s) as cf"
  shows "map Inr (fetched as) = map (\<lambda>i. BuildKeyName w (counter_val c + of_nat i)) [0..<length (fetched as)]
    \<and> mset (stored as) + mset (pending cf) = mset (fetched as)
    \<and> new_records (set (stored as)) (content s) (content (lc_db cf))
    \<and> sum_list (lc_oks cf) = int (length (stored as))"
  using load_inv_run [OF assms(4) load_inv_start [OF assms(1-3)]] loaded_new_records
  unfolding load_inv_def by blast

lemma run_ends:
  assumes "wl_ready E w" "w_key_generator w = Counter_Gen c" "ok s"
    and "load_run E D (load_start D nt per w r s) as cf"
  shows "length as \<le> 3 * (nt * per) \<and> (load_done cf \<longleftrightarrow> length as = 3 * (nt * per)) \<and>
    (\<not> load_done cf \<longrightarrow> (\<exists>a c'. load_step E D cf a c')) \<and>
    (load_done cf \<longrightarrow> sum_list (lc_oks cf) = int (nt * per) \<and>
      new_records (key_block w (counter_val c) (nt * per)) (content s) (content (lc_db cf)))"
proof -
  have "steps_left (load_start D nt per w r s) = 3 * (nt * per)"
    by (simp add: steps_left_def load_start_def sum_list_replicate)
  then have n: "length as + steps_left cf = 3 * (nt * per)" using run_cost [OF assms(4)] by simp
  have inv: "load_inv E w (counter_val c) (content s) (nt * per) as cf"
    using load_inv_run [OF assms(4) load_inv_start [OF assms(1-3)]] .
  show ?thesis
    using n done_iff [of cf] load_progress [OF inv] load_end [OF inv] by (auto intro: loaded_new_records)
qed

lemma run_to_end:
  assumes "wl_ready E w" "w_key_generator w = Counter_Gen c" "ok s"
  shows "\<exists>as cf. load_run E D (load_start D nt per w r s) as cf \<and> load_done cf"
  using load_completes [OF run_none load_inv_start [OF assms]] .

end

section \<open>Whole iterations as steps\<close>

text \<open>The state of the threads between their iterations.\<close>

definition conf_of :: "'s threads \<Rightarrow> 's load_conf" where
  "conf_of t =
     \<lparr>lc_workers = map Fetching (th_todo t), lc_oks = th_oks t, lc_wl = th_wl t, lc_rng = th_rng t,
      lc_db = th_db t\<rparr>"

lemma load_run_trans:
  assumes "load_run E D b bs c" "load_run E D a as b"
  shows "load_run E D a (as @ bs) c"
  using assms by (induction rule: load_run.induct) (auto simp flip: append_assoc intro: run_snoc)

lemma iteration_run:
  assumes "DoInsert E D (th_wl t) (th_rng t) (th_db t) = Inr (b, w, r, s)"
    and "i < length (th_todo t)" "th_todo t ! i = Suc n"
  shows "\<exists>as. load_run E D (conf_of t) as
    (conf_of \<lparr>th_todo = (th_todo t)[i := n], th_oks = (th_oks t)[i := th_oks t ! i + of_bool b],
      th_wl = w, th_rng = r, th_db = s\<rparr>)"
proof -
  obtain key w1 r1 kvs st where d: "NextSequenceKey E (th_wl t) (th_rng t) = Inr (key, w1, r1)"
    "BuildValues E [] w1 r1 = Inr (kvs, w, r)"
    "db_Insert D (th_db t) (NextTable w) key kvs = Inr (st, s)" "b = (st = kOK)"
    using assms(1) by (auto simp: DoInsert_def bind_r_eq_Inr)
  let ?ws = "map Fetching (th_todo t)"
  let ?c1 = "(conf_of t)\<lparr>lc_workers := ?ws[i := Building n key], lc_wl := w1, lc_rng := r1\<rparr>"
  let ?c2 = "?c1\<lparr>lc_workers := ?ws[i := Storing n key kvs], lc_wl := w, lc_rng := r\<rparr>"
  let ?c3 = "?c2\<lparr>lc_workers := ?ws[i := Fetching n],
    lc_oks := (th_oks t)[i := th_oks t ! i + of_bool (st = kOK)], lc_db := s\<rparr>"
  have s1: "load_step E D (conf_of t) (Fetch i key) ?c1"
    using assms(2,3) d(1) by (auto simp: load_step_iff worker_step_def conf_of_def)
  have s2: "load_step E D ?c1 (Build i) ?c2"
    using assms(2) d(2) by (auto simp: load_step_iff worker_step_def conf_of_def)
  have s3: "load_step E D ?c2 (Store i key) ?c3"
    using assms(2) d(3) by (auto simp: load_step_iff worker_step_def conf_of_def)
  note run_snoc [OF run_snoc [OF run_snoc [OF run_none s1] s2] s3]
  moreover have "?c3 = conf_of \<lparr>th_todo = (th_todo t)[i := n],
      th_oks = (th_oks t)[i := th_oks t ! i + of_bool b], th_wl = w, th_rng = r, th_db = s\<rparr>"
    by (simp add: conf_of_def map_update d(4))
  ultimately show ?thesis by metis
qed

lemma schedule_run:
  "run_schedule E D True sch t = Inr t' \<Longrightarrow> \<exists>as. load_run E D (conf_of t) as (conf_of t')"
proof (induction sch arbitrary: t)
  case Nil
  then show ?case using run_none by auto
next
  case (Cons i sch)
  obtain t1 where t1: "thread_step E D True i t = Inr t1" "run_schedule E D True sch t1 = Inr t'"
    using Cons.prems by (auto simp: bind_r_eq_Inr)
  have "\<exists>as. load_run E D (conf_of t) as (conf_of t1)"
  proof (cases "i < length (th_todo t) \<and> 0 < th_todo t ! i")
    case True
    then obtain n where n: "th_todo t ! i = Suc n" by (cases "th_todo t ! i") auto
    with True t1(1) iteration_run [of E D t _ _ _ _ i n] show ?thesis
      by (auto simp: thread_step_def bind_r_eq_Inr)
  next
    case False
    then have "t1 = t" using t1(1) by (auto simp: thread_step_def split: if_splits)
    then show ?thesis using run_none by auto
  qed
  with Cons.IH [OF t1(2)] load_run_trans show ?case by blast
qed

text \<open>
  every schedule of whole iterations, the order in which \<open>run_phase\<close> executes the load,
  is a run of the finer steps: what holds of all interleavings holds of it.
\<close>

theorem schedules_are_interleavings:
  assumes "run_schedule E D True sched
      \<lparr>th_todo = replicate nt per, th_oks = replicate nt 0, th_wl = w, th_rng = r,
       th_db = (db_Init D ^^ nt) s\<rparr> = Inr t"
  shows "\<exists>as. load_run E D (load_start D nt per w r s) as (conf_of t)"
proof -
  have "conf_of \<lparr>th_todo = replicate nt per, th_oks = replicate nt 0, th_wl = w, th_rng = r,
      th_db = (db_Init D ^^ nt) s\<rparr> = load_start D nt per w r s"
    by (simp add: conf_of_def load_start_def)
  with schedule_run [OF assms] show ?thesis by simp
qed

section \<open>The concurrent load\<close>

text \<open>
  C4: in every state the threads of a load phase can reach together, the keys they have
  fetched are the names of consecutive numbers, in the order of the fetches; each of
  them has been stored once or is held by exactly one thread; exactly the stored ones
  have been added to the database, and the successes counted are their number.
\<close>

theorem concurrent_load_safe:
  assumes "lsm_laws A content valid" "valid s" "D = split_db A \<or> D = unified_db A"
    and "wl_ready E w" "w_key_generator w = Counter_Gen c"
    and "load_run E D (load_start D nt per w r s) as cf"
  shows "map Inr (fetched as) = map (\<lambda>i. BuildKeyName w (counter_val c + of_nat i)) [0..<length (fetched as)]
    \<and> mset (stored as) + mset (pending cf) = mset (fetched as)
    \<and> (\<forall>k. if k \<in> set (stored as) then content (lc_db cf) k \<noteq> None else content (lc_db cf) k = content s k)
    \<and> sum_list (lc_oks cf) = int (length (stored as))"
proof -
  have ok: "lsm_laws A content valid \<and> valid s" using assms(1,2) by simp
  have D: "D = split_db A" using assms(3) unified_is_split by auto
  from split_i.run_safe [OF assms(4,5) ok assms(6) [unfolded D]] show ?thesis
    by (simp add: new_records_def)
qed

text \<open>
  C5: no interleaving of the threads deadlocks or runs on: every run has at most three
  steps per operation, can be continued until all threads are done, and then each
  operation has succeeded and the database holds a record for each of the consecutive
  key numbers, as after any sequential load.
\<close>

theorem concurrent_load_ends:
  assumes "lsm_laws A content valid" "valid s" "D = split_db A \<or> D = unified_db A"
    and "wl_ready E w" "w_key_generator w = Counter_Gen c"
    and "load_run E D (load_start D nt per w r s) as cf"
  shows "length as \<le> 3 * (nt * per) \<and> (load_done cf \<longleftrightarrow> length as = 3 * (nt * per)) \<and>
    (\<not> load_done cf \<longrightarrow> (\<exists>a c'. load_step E D cf a c')) \<and>
    (load_done cf \<longrightarrow> sum_list (lc_oks cf) = int (nt * per) \<and>
      (\<forall>k. if k \<in> key_block w (counter_val c) (nt * per) then content (lc_db cf) k \<noteq> None
           else content (lc_db cf) k = content s k))"
proof -
  have ok: "lsm_laws A content valid \<and> valid s" using assms(1,2) by simp
  have D: "D = split_db A" using assms(3) unified_is_split by auto
  from split_i.run_ends [OF assms(4,5) ok assms(6) [unfolded D]] show ?thesis
    by (simp add: new_records_def D)
qed

section \<open>Two threads\<close>

lemma small_ready:
  "\<exists>w r'. Init (sample_env (Fin 0)) (op_props sample_opts) workload_new \<lparr>canon_pos = 0, crand_pos = 0\<rparr> =
     Inr (w, r') \<and> wl_ready (sample_env (Fin 0)) w \<and> w_key_generator w = Counter_Gen (counter_new 0)"
  using sample_Init sample_ready by blast

lemma small_store:
  "lsm_laws list_store map_of list_valid \<and> list_valid []"
  "list_valid []" "split_db list_store = split_db list_store \<or> split_db list_store = unified_db list_store"
  by (simp_all add: list_store_laws list_valid_def)

theorem concurrent_load_safe_witness:
  "\<exists>w r as cf. wl_ready (sample_env (Fin 0)) w \<and>
     load_run (sample_env (Fin 0)) (split_db list_store) (load_start (split_db list_store) 2 1 w r []) as cf \<and>
     load_done cf \<and> mset (stored as) + mset (pending cf) = mset (fetched as)"
proof -
  obtain w where w: "wl_ready (sample_env (Fin 0)) w" "w_key_generator w = Counter_Gen (counter_new 0)"
    using small_ready by blast
  obtain as cf where r: "load_run (sample_env (Fin 0)) (split_db list_store)
      (load_start (split_db list_store) 2 1 w \<lparr>canon_pos = 0, crand_pos = 0\<rparr> []) as cf" "load_done cf"
    using split_i.run_to_end [OF w small_store(1)] by blast
  from concurrent_load_safe [OF list_store_laws small_store(2,3) w r(1)] w r show ?thesis by blast
qed

theorem concurrent_load_ends_witness:
  "\<exists>w r as cf. wl_ready (sample_env (Fin 0)) w \<and>
     load_run (sample_env (Fin 0)) (split_db list_store) (load_start (split_db list_store) 2 1 w r []) as cf \<and>
     length as = 6 \<and> sum_list (lc_oks cf) = 2"
proof -
  obtain w where w: "wl_ready (sample_env (Fin 0)) w" "w_key_generator w = Counter_Gen (counter_new 0)"
    using small_ready by blast
  obtain as cf where r: "load_run (sample_env (Fin 0)) (split_db list_store)
      (load_start (split_db list_store) 2 1 w \<lparr>canon_pos = 0, crand_pos = 0\<rparr> []) as cf" "load_done cf"
    using split_i.run_to_end [OF w small_store(1)] by blast
  from concurrent_load_ends [OF list_store_laws small_store(2,3) w r(1)] r(2)
  have "length as = 6 \<and> sum_list (lc_oks cf) = 2" by simp
  with w r show ?thesis by blast
qed

theorem schedules_are_interleavings_witness:
  "\<exists>w r t as. wl_ready (sample_env (Fin 0)) w \<and>
     run_schedule (sample_env (Fin 0)) (split_db list_store) True [1, 0]
       \<lparr>th_todo = [1, 1], th_oks = [0, 0], th_wl = w, th_rng = r, th_db = []\<rparr> = Inr t \<and>
     load_run (sample_env (Fin 0)) (split_db list_store)
       (load_start (split_db list_store) 2 1 w r []) as (conf_of t)"
proof -
  let ?E = "sample_env (Fin 0)" and ?D = "split_db list_store"
  obtain w where w: "wl_ready ?E w" "w_key_generator w = Counter_Gen (counter_new 0)"
    using small_ready by blast
  define r where "r = \<lparr>canon_pos = 0, crand_pos = 0\<rparr>"
  have inits: "(db_Init ?D ^^ n) s = s" for n s
    by (induction n) (simp_all add: split_db_def)
  define t0 where "t0 = \<lparr>th_todo = replicate 2 1, th_oks = replicate 2 0, th_wl = w, th_rng = r,
    th_db = (db_Init ?D ^^ 2) []\<rparr>"
  have i: "split_i.load_state map_of list_store list_valid ?E w 0 (map_of []) 0 (th_wl t0) (th_rng t0) (th_db t0)"
    using w small_store(1) unfolding split_i.load_state_def
    by (simp add: t0_def inits counter_new_def loaded_map_def)
  have l: "length (th_oks t0) = length (th_todo t0)" "0 + sum_list (th_todo t0) = 2"
    "True \<longrightarrow> sum_list (th_oks t0) = int 0" by (simp_all add: t0_def sum_list_replicate)
  obtain t where t: "run_schedule ?E ?D True [1, 0] t0 = Inr t"
    using run_schedule_run [OF split_i.load_step i l, of "[1, 0]"] by blast
  obtain as where "load_run ?E ?D (load_start ?D 2 1 w r []) as (conf_of t)"
    using schedules_are_interleavings [OF t [unfolded t0_def]] by blast
  moreover have "t0 = \<lparr>th_todo = [1, 1], th_oks = [0, 0], th_wl = w, th_rng = r, th_db = []\<rparr>"
    unfolding t0_def inits by (simp add: numeral_2_eq_2)
  ultimately show ?thesis using t w by blast
qed

end
