(* ===== verification/Client_Steps.thy ===== *)
theory Client_Steps
  imports Concurrent_Load
begin

text \<open>
  A transaction of \<open>core/client.h\<close> draw by draw.  Each call of a generator, each
  \<open>rand()\<close> and each database call of \<open>Client::DoTransaction\<close> is one step; between them a
  thread holds what it has drawn.  In particular every round of the loop of
  \<open>CoreWorkload::NextTransactionKey\<close> is a step, and so are the length and the character of
  every field of \<open>BuildValues\<close> and \<open>BuildUpdate\<close>.
\<close>

section \<open>Steps of a thread\<close>

text \<open>
  Where a thread is in its transaction, with what it holds; the number is the
  transactions it has left after this one.  \<open>Writing\<close> holds the names of the fields that
  are still to be built and the pairs built so far, \<open>Filling\<close> also the length that is
  drawn for the next value, whose character is not.
\<close>

datatype txn =
    Start nat
  | Chosen nat operation
  | Keyed nat operation string
  | Sized nat string int
  | Fielded nat operation string int "string list option"
  | After_Read nat string
  | Writing nat operation string "string list" "kvpair list"
  | Filling nat operation string string u64 "string list" "kvpair list"

text \<open>The end of \<open>DoTransaction\<close>: the status is checked and counted.\<close>

definition finish_txn ::
  "env \<Rightarrow> nat \<Rightarrow> int \<Rightarrow> workload \<Rightarrow> rng \<Rightarrow> 's \<Rightarrow> stop + (txn \<times> int \<times> workload \<times> rng \<times> 's)" where
  "finish_txn E n status w r s =
     bind_r (cassert (ndebug E) (0 \<le> status)) (\<lambda>_. Inr (Start n, of_bool (status = kOK), w, r, s))"

text \<open>One round of the loop of \<open>NextTransactionKey\<close>: \<open>None\<close> if the key is not inserted yet.\<close>

definition draw_key :: "env \<Rightarrow> workload \<Rightarrow> rng \<Rightarrow> stop + (string option \<times> workload \<times> rng)" where
  "draw_key E w r =
     bind_r (gen_next E (w_insert_key_sequence w) (w_key_chooser w) r) (\<lambda>(key_num, g, r).
     (let w = w\<lparr>w_key_chooser := g\<rparr>
      in if key_num > counter_last (w_insert_key_sequence w) then Inr (None, w, r)
         else bind_r (BuildKeyName w key_num) (\<lambda>key. Inr (Some key, w, r))))"

text \<open>The fields to write: those of \<open>BuildValues\<close>, or the one that \<open>BuildUpdate\<close> draws.\<close>

definition field_names :: "workload \<Rightarrow> string list" where
  "field_names w = map (\<lambda>i. ''field'' @ dec_string i) [0..<nat (w_field_count w)]"

definition names_to_write :: "env \<Rightarrow> workload \<Rightarrow> rng \<Rightarrow> stop + (string list \<times> workload \<times> rng)" where
  "names_to_write E w r =
     (if w_write_all_fields w then Inr (field_names w, w, r)
      else bind_r (NextFieldName E w r) (\<lambda>(f, w, r). Inr ([f], w, r)))"

text \<open>The next step of a thread: its new place, and the successes it counts.\<close>

fun advance ::
  "env \<Rightarrow> 's db_class \<Rightarrow> txn \<Rightarrow> workload \<Rightarrow> rng \<Rightarrow> 's \<Rightarrow>
    stop + (txn \<times> int \<times> workload \<times> rng \<times> 's)" where
  "advance E D (Start 0) w r s = Inr (Start 0, 0, w, r, s)"
| "advance E D (Start (Suc n)) w r s =
     bind_r (NextOperation E w r) (\<lambda>(op, w, r). Inr (Chosen n op, 0, w, r, s))"
| "advance E D (Chosen n op) w r s =
     (if op = INSERT
      then bind_r (NextSequenceKey E w r) (\<lambda>(key, w, r). Inr (Keyed n op key, 0, w, r, s))
      else bind_r (draw_key E w r) (\<lambda>(drawn, w, r).
        Inr (case drawn of None \<Rightarrow> Chosen n op | Some key \<Rightarrow> Keyed n op key, 0, w, r, s)))"
| "advance E D (Keyed n op key) w r s =
     (case op of
        READ \<Rightarrow> bind_r (choose_fields E w r) (\<lambda>(flds, w, r). Inr (Fielded n op key 0 flds, 0, w, r, s))
      | READMODIFYWRITE \<Rightarrow>
          bind_r (choose_fields E w r) (\<lambda>(flds, w, r). Inr (Fielded n op key 0 flds, 0, w, r, s))
      | SCAN \<Rightarrow> bind_r (NextScanLength E w r) (\<lambda>(k, w, r). Inr (Sized n key (int_of_size k), 0, w, r, s))
      | UPDATE \<Rightarrow> bind_r (names_to_write E w r) (\<lambda>(fs, w, r). Inr (Writing n op key fs [], 0, w, r, s))
      | INSERT \<Rightarrow> Inr (Writing n op key (field_names w) [], 0, w, r, s)
      | DELETE \<Rightarrow>
          bind_r (db_Delete D s (NextTable w) key) (\<lambda>(status, s). finish_txn E n status w r s))"
| "advance E D (Sized n key len) w r s =
     bind_r (choose_fields E w r) (\<lambda>(flds, w, r). Inr (Fielded n SCAN key len flds, 0, w, r, s))"
| "advance E D (Fielded n op key len flds) w r s =
     (if op = SCAN then
        bind_r (db_Scan D s (NextTable w) key len flds []) (\<lambda>(status, _, s). finish_txn E n status w r s)
      else if op = READMODIFYWRITE then
        bind_r (db_Read D s (NextTable w) key flds []) (\<lambda>(_, _, s). Inr (After_Read n key, 0, w, r, s))
      else
        bind_r (db_Read D s (NextTable w) key flds []) (\<lambda>(status, _, s). finish_txn E n status w r s))"
| "advance E D (After_Read n key) w r s =
     bind_r (names_to_write E w r) (\<lambda>(fs, w, r). Inr (Writing n READMODIFYWRITE key fs [], 0, w, r, s))"
| "advance E D (Writing n op key (f # fs) vals) w r s =
     bind_r (gen_next E (w_insert_key_sequence w) (w_field_len_generator w) r) (\<lambda>(len, g, r).
     Inr (Filling n op key f len fs vals, 0, w\<lparr>w_field_len_generator := g\<rparr>, r, s))"
| "advance E D (Filling n op key f len fs vals) w r s =
     (let (c, r) = RandomPrintChar E r
      in bind_r (append_fill len c) (\<lambda>v. Inr (Writing n op key fs (vals @ [(f, v)]), 0, w, r, s)))"
| "advance E D (Writing n op key [] vals) w r s =
     bind_r (if op = INSERT then db_Insert D s (NextTable w) key vals
             else db_Update D s (NextTable w) key vals) (\<lambda>(status, s). finish_txn E n status w r s)"

text \<open>
  The fields a transaction writes at most; the steps a thread has left at most when they
  are \<open>F\<close>, not counting the draws of a key that are rejected; and the transactions it has
  not completed.
\<close>

definition write_width :: "workload \<Rightarrow> nat" where
  "write_width w = max 1 (nat (w_field_count w))"

definition txn_width :: "nat \<Rightarrow> nat" where
  "txn_width F = 2 * F + 6"

fun txn_cost :: "nat \<Rightarrow> txn \<Rightarrow> nat" where
  "txn_cost F (Start n) = txn_width F * n"
| "txn_cost F (Chosen n op) = txn_width F * n + (2 * F + 5)"
| "txn_cost F (Keyed n op key) = txn_width F * n + (2 * F + 4)"
| "txn_cost F (Sized n key len) = txn_width F * n + 2"
| "txn_cost F (Fielded n op key len flds) =
     txn_width F * n + (if op = READMODIFYWRITE then 2 * F + 3 else 1)"
| "txn_cost F (After_Read n key) = txn_width F * n + (2 * F + 2)"
| "txn_cost F (Writing n op key fs vals) = txn_width F * n + (2 * length fs + 1)"
| "txn_cost F (Filling n op key f len fs vals) = txn_width F * n + (2 * length fs + 2)"

fun txn_todo :: "txn \<Rightarrow> nat" where
  "txn_todo (Start n) = n"
| "txn_todo (Chosen n op) = Suc n"
| "txn_todo (Keyed n op key) = Suc n"
| "txn_todo (Sized n key len) = Suc n"
| "txn_todo (Fielded n op key len flds) = Suc n"
| "txn_todo (After_Read n key) = Suc n"
| "txn_todo (Writing n op key fs vals) = Suc n"
| "txn_todo (Filling n op key f len fs vals) = Suc n"

section \<open>One draw of a key\<close>

text \<open>
  \<open>accepts E seq g j\<close>: a draw of the chooser at position \<open>j\<close> of the random doubles is not
  beyond the newest key.  Uniform and latest choosers draw from the keys that exist; a
  Zipf chooser with room for inserts is sure to only in the head of its distribution.
\<close>

fun accepts :: "env \<Rightarrow> counter \<Rightarrow> gen \<Rightarrow> nat \<Rightarrow> bool" where
  "accepts E seq (Scrambled_Gen g) j \<longleftrightarrow>
     scrambled_max g \<le> counter_last seq \<or> canon E j * z_zeta_n (s_generator g) < 1"
| "accepts E seq _ j \<longleftrightarrow> True"

lemma accepts_again: "chooser_returns E seq g \<Longrightarrow> \<exists>j \<ge> i. accepts E seq g j"
  by (cases g) (auto simp: head_recurs_def)

text \<open>A draw returns; if its key is rejected, the chooser has moved on by one random double.\<close>

lemma chooser_draw:
  assumes "chooser_returns E seq g"
  shows "\<exists>v g' r'. gen_next E seq g r = Inr (v, g', r') \<and> chooser_returns E seq g' \<and>
    accepts E seq g' = accepts E seq g \<and>
    (counter_last seq < v \<longrightarrow>
       canon_pos r' = Suc (canon_pos r) \<and> \<not> accepts E seq g (canon_pos r))"
  using assms
proof (cases "(E, seq, g)" rule: chooser_returns.cases)
  case (1 E' seq' u)
  have "u_min u \<le> u_max u" using assms 1 by (simp add: uniform_ok_def)
  note u = uid_range [OF this, of "mt64 E (u_pos u)"]
  let ?v = "uid (u_min u) (u_max u) (mt64 E (u_pos u))"
  have "gen_next E seq g r = Inr (?v, Uniform_Gen (u\<lparr>u_pos := Suc (u_pos u), u_last := ?v\<rparr>), r)"
    using 1 by (simp add: uniform_next_def Let_def)
  moreover have "?v \<le> counter_last seq" using u assms 1 by (auto intro: order_trans)
  ultimately show ?thesis using u assms 1 by (auto simp: uniform_ok_def fun_eq_iff not_less)
next
  case (2 E' seq' l)
  with assms latest_next_total [of E seq l r] obtain v h where
    "gen_next E seq g r = Inr (v, Latest_Gen h, r\<lparr>canon_pos := Suc (canon_pos r)\<rparr>)" "v \<le> counter_last seq"
    "latest_ok E seq h" by auto
  then show ?thesis using 2 by (auto simp: fun_eq_iff not_less)
next
  case (3 E' seq' s)
  then have s: "scrambled_ok E s" "scrambled_max s \<le> counter_last seq \<or> head_recurs E seq s"
    using assms by simp_all
  obtain v h where n: "scrambled_next E s r = Inr (v, h, r\<lparr>canon_pos := Suc (canon_pos r)\<rparr>)"
    "v \<le> scrambled_max s" "scrambled_ok E h" "s_base h = s_base s" "s_num_items h = s_num_items s"
    "z_zeta_n (s_generator h) = z_zeta_n (s_generator s)"
    using scrambled_next_total [OF s(1)] by blast
  have m: "scrambled_max h = scrambled_max s" using n(4,5) by (simp add: scrambled_max_def)
  have "\<not> accepts E seq g (canon_pos r)" if v: "counter_last seq < v"
  proof -
    have max: "\<not> scrambled_max s \<le> counter_last seq" using n(2) v by (meson leD order_trans)
    with s(2) have "head_recurs E seq s" by blast
    then show ?thesis
      using scrambled_next_head [OF s(1)] n(1) v max 3 by (fastforce simp: head_recurs_def not_less)
  qed
  moreover have "head_recurs E seq h = head_recurs E seq s" using n(4-6) by (simp add: head_recurs_def)
  ultimately show ?thesis using n(1,3,6) m s 3 by (auto simp: fun_eq_iff)
qed auto

section \<open>The invariant of a thread\<close>

text \<open>A key that a transaction may read: the name of a number not beyond the newest.\<close>

definition pick :: "workload \<Rightarrow> string \<Rightarrow> bool" where
  "pick w key \<longleftrightarrow> (\<exists>k. k \<le> counter_last (w_insert_key_sequence w) \<and> BuildKeyName w k = Inr key)"

text \<open>What is built of a record so far: its first value is there or still to be built.\<close>

definition part_ok :: "workload \<Rightarrow> string list \<Rightarrow> kvpair list \<Rightarrow> bool" where
  "part_ok w fs vals \<longleftrightarrow>
     (if vals = [] then 1 \<le> w_field_count w \<longrightarrow> fs \<noteq> [] else length (first_value vals) = value_len w)"

definition mix_ops :: "workload \<Rightarrow> operation set" where
  "mix_ops w = fst ` set (d_values (w_op_chooser w))"

fun txn_ok :: "workload \<Rightarrow> txn \<Rightarrow> bool" where
  "txn_ok w (Start n) \<longleftrightarrow> True"
| "txn_ok w (Chosen n op) \<longleftrightarrow> op \<in> mix_ops w"
| "txn_ok w (Keyed n op key) \<longleftrightarrow> op \<in> mix_ops w \<and> (op \<noteq> INSERT \<longrightarrow> pick w key)"
| "txn_ok w (Sized n key len) \<longleftrightarrow> pick w key \<and> 0 \<le> len \<and> len \<le> int_max"
| "txn_ok w (Fielded n op key len flds) \<longleftrightarrow> pick w key \<and> 0 \<le> len \<and> len \<le> int_max"
| "txn_ok w (After_Read n key) \<longleftrightarrow> True"
| "txn_ok w (Writing n op key fs vals) \<longleftrightarrow> part_ok w fs vals"
| "txn_ok w (Filling n op key f len fs vals) \<longleftrightarrow>
     unat len = value_len w \<and> len \<le> 0x7FFFFFFFFFFFFFFF \<and> part_ok w (f # fs) vals"

lemma same_run_pick: "same_run w w' \<Longrightarrow> pick w' key = pick w key"
  by (simp add: pick_def same_run_seq same_run_name)

lemma same_run_part: "same_run w w' \<Longrightarrow> part_ok w' fs vals = part_ok w fs vals"
  using same_run_values by (simp add: part_ok_def)

lemma same_run_mix: "same_run w w' \<Longrightarrow> mix_ops w' = mix_ops w"
  by (simp add: mix_ops_def same_run_def)

lemma present_pick: "present w m \<Longrightarrow> pick w key \<Longrightarrow> \<exists>v. m key = Some v \<and> v \<noteq> []"
  by (auto simp: present_def pick_def)

lemma built_not_empty: "nonempty_values w \<Longrightarrow> part_ok w [] vals \<Longrightarrow> first_value vals \<noteq> []"
  by (auto simp: nonempty_values_def part_ok_def split: if_splits)

lemma part_ok_append:
  "part_ok w (f # fs) vals \<Longrightarrow> length v = value_len w \<Longrightarrow> part_ok w fs (vals @ [(f, v)])"
  by (cases vals) (auto simp: part_ok_def first_value_def)

text \<open>A draw of a key on a workload that is ready.\<close>

lemma draw_key_ready:
  assumes "wl_ready E w"
  shows "\<exists>drawn w' r'. draw_key E w r = Inr (drawn, w', r') \<and> wl_ready E w' \<and> same_run w w' \<and>
    (case drawn of
       Some key \<Rightarrow> pick w key
     | None \<Rightarrow> canon_pos r' = Suc (canon_pos r) \<and>
         \<not> accepts E (w_insert_key_sequence w) (w_key_chooser w) (canon_pos r) \<and>
         accepts E (w_insert_key_sequence w') (w_key_chooser w') =
           accepts E (w_insert_key_sequence w) (w_key_chooser w))"
proof -
  let ?seq = "w_insert_key_sequence w"
  obtain v g r' where n: "gen_next E ?seq (w_key_chooser w) r = Inr (v, g, r')" "chooser_returns E ?seq g"
    "accepts E ?seq g = accepts E ?seq (w_key_chooser w)"
    "counter_last ?seq < v \<longrightarrow>
       canon_pos r' = Suc (canon_pos r) \<and> \<not> accepts E ?seq (w_key_chooser w) (canon_pos r)"
    using chooser_draw [OF ready_parts(4) [OF assms]] by blast
  obtain key where key: "BuildKeyName w v = Inr key" using BuildKeyName_total [OF ready_parts(2) [OF assms]] by blast
  have w: "wl_ready E (w\<lparr>w_key_chooser := g\<rparr>)" "same_run w (w\<lparr>w_key_chooser := g\<rparr>)"
    using ready_key_chooser [OF assms n(2)] by (simp_all add: same_run_def)
  show ?thesis
  proof (cases "counter_last ?seq < v")
    case True
    with n w show ?thesis by (simp add: draw_key_def)
  next
    case False
    then have "pick w key" using key by (auto simp: pick_def not_less)
    with False n w key show ?thesis by (simp add: draw_key_def)
  qed
qed

lemma names_to_write_ready:
  assumes "wl_ready E w"
  shows "\<exists>fs w' r'. names_to_write E w r = Inr (fs, w', r') \<and> wl_ready E w' \<and> same_run w w' \<and>
    (1 \<le> w_field_count w \<longrightarrow> fs \<noteq> []) \<and> length fs \<le> max 1 (nat (w_field_count w))"
proof -
  obtain u where "w_field_chooser w = Uniform_Gen u" using ready_parts(7) [OF assms] by blast
  with assms show ?thesis
    by (auto simp: names_to_write_def field_names_def NextFieldName_def uniform_next_def Let_def
        same_run_def wl_ready_def)
qed

section \<open>Steps that go well\<close>

context kv_db
begin

text \<open>
  A step that goes well: it returns, keeps the invariants, and brings the thread nearer to
  its end, unless it is a draw of a key that is rejected; under \<open>strict\<close> it counts a success
  for each completed transaction.
\<close>

definition good_advance ::
  "env \<Rightarrow> bool \<Rightarrow> workload \<Rightarrow> txn \<Rightarrow> workload \<Rightarrow> rng \<Rightarrow> stop + (txn \<times> int \<times> workload \<times> rng \<times> 's) \<Rightarrow> bool" where
  "good_advance E strict w0 t w r res \<longleftrightarrow>
     (\<exists>t' b w' r' s'. res = Inr (t', b, w', r', s') \<and> run_state E strict w0 0 w' r' s' \<and> txn_ok w0 t' \<and>
        (strict \<longrightarrow> b + int (txn_todo t') = int (txn_todo t)) \<and>
        (txn_cost (write_width w0) t' < txn_cost (write_width w0) t \<or>
         t' = t \<and> canon_pos r' = Suc (canon_pos r) \<and>
         \<not> accepts E (w_insert_key_sequence w) (w_key_chooser w) (canon_pos r) \<and>
         accepts E (w_insert_key_sequence w') (w_key_chooser w') =
           accepts E (w_insert_key_sequence w) (w_key_chooser w)))"

lemma good_moveI:
  assumes "run_state E strict w0 0 w' r' s" "txn_ok w0 t'"
    and "txn_cost (write_width w0) t' < txn_cost (write_width w0) t" "txn_todo t' = txn_todo t"
  shows "good_advance E strict w0 t w r (Inr (t', 0, w', r', s))"
  using assms by (simp add: good_advance_def)

lemma good_finishI:
  assumes "run_state E strict w0 0 w' r' s" "0 \<le> status" "strict \<longrightarrow> status = kOK"
    and "txn_width (write_width w0) * n < txn_cost (write_width w0) t" "txn_todo t = Suc n"
  shows "good_advance E strict w0 t w r (finish_txn E n status w' r' s)"
  using assms by (simp add: good_advance_def finish_txn_def)

lemma run_state_D:
  assumes "run_state E strict w0 0 w r s"
  shows "wl_ready E w" "same_run w0 w" "ok s" "strict \<longrightarrow> present w0 (content s)"
  using assms by (simp_all add: run_state_def)

lemma run_state_wl:
  assumes "run_state E strict w0 0 w r s" "wl_ready E w'" "same_run w w'"
  shows "run_state E strict w0 0 w' r' s"
  using assms same_run_trans by (auto simp: run_state_def)

lemma run_state_db:
  assumes "run_state E strict w0 0 w r s" "ok s'" "strict \<longrightarrow> present w0 (content s')"
  shows "run_state E strict w0 0 w r s'"
  using assms by (simp add: run_state_def)

lemma good_fields:
  assumes "run_state E strict w0 0 w r s" "pick w0 key" "0 \<le> len" "len \<le> int_max"
    and "txn_cost (write_width w0) (Fielded n op key len None) < txn_cost (write_width w0) t" "txn_todo t = Suc n"
  shows "good_advance E strict w0 t w r
    (bind_r (choose_fields E w r) (\<lambda>(flds, w, r). Inr (Fielded n op key len flds, 0, w, r, s)))"
proof -
  obtain fs w' r' where f: "choose_fields E w r = Inr (fs, w', r')" "wl_ready E w'" "same_run w w'"
    using choose_fields_ready [OF run_state_D(1) [OF assms(1)]] by blast
  show ?thesis
    using good_moveI [OF run_state_wl [OF assms(1) f(2,3)], of "Fielded n op key len fs" t] assms(2-6) f(1)
    by (simp split: if_splits)
qed

lemma good_names:
  assumes "run_state E strict w0 0 w r s"
    and "txn_width (write_width w0) * n + (2 * write_width w0 + 1) < txn_cost (write_width w0) t" "txn_todo t = Suc n"
  shows "good_advance E strict w0 t w r
    (bind_r (names_to_write E w r) (\<lambda>(fs, w, r). Inr (Writing n op key fs [], 0, w, r, s)))"
proof -
  obtain fs w' r' where v: "names_to_write E w r = Inr (fs, w', r')" "wl_ready E w'" "same_run w w'"
    "1 \<le> w_field_count w \<longrightarrow> fs \<noteq> []" "length fs \<le> max 1 (nat (w_field_count w))"
    using names_to_write_ready [OF run_state_D(1) [OF assms(1)]] by blast
  have fc: "w_field_count w = w_field_count w0" using same_run_values [OF run_state_D(2) [OF assms(1)]] by blast
  have "part_ok w0 fs []" "length fs \<le> write_width w0"
    using v(4,5) by (simp_all add: part_ok_def write_width_def fc)
  then show ?thesis
    using good_moveI [OF run_state_wl [OF assms(1) v(2,3)], of "Writing n op key fs []" t] assms(2,3) v(1)
    by simp
qed

lemma good_key:
  assumes "run_state E strict w0 0 w r s" "txn_ok w0 (Chosen n op)"
  shows "good_advance E strict w0 (Chosen n op) w r (advance E D (Chosen n op) w r s)"
proof (cases "op = INSERT")
  case True
  obtain c where c: "w_key_generator w = Counter_Gen c"
    using ready_parts(5) [OF run_state_D(1) [OF assms(1)]] by blast
  obtain name w' where k: "NextSequenceKey E w r = Inr (name, w', r)" "wl_ready E w'" "same_run w w'"
    using NextSequenceKey_ready [OF run_state_D(1) [OF assms(1)] c] by blast
  show ?thesis
    using good_moveI [OF run_state_wl [OF assms(1) k(2,3)], of "Keyed n op name" "Chosen n op"] assms(2) k(1) True
    by simp
next
  case False
  obtain drawn w' r' where n: "draw_key E w r = Inr (drawn, w', r')" "wl_ready E w'" "same_run w w'"
    "case drawn of
       Some key \<Rightarrow> pick w key
     | None \<Rightarrow> canon_pos r' = Suc (canon_pos r) \<and>
         \<not> accepts E (w_insert_key_sequence w) (w_key_chooser w) (canon_pos r) \<and>
         accepts E (w_insert_key_sequence w') (w_key_chooser w') =
           accepts E (w_insert_key_sequence w) (w_key_chooser w)"
    using draw_key_ready [OF run_state_D(1) [OF assms(1)]] by blast
  note rs = run_state_wl [OF assms(1) n(2,3)]
  show ?thesis
  proof (cases drawn)
    case None
    with rs n(1,4) assms(2) False show ?thesis by (simp add: good_advance_def)
  next
    case (Some key)
    then have "pick w0 key" using n(4) same_run_pick [OF run_state_D(2) [OF assms(1)]] by simp
    then show ?thesis
      using good_moveI [OF rs, of "Keyed n op key" "Chosen n op"] assms(2) n(1) False Some by simp
  qed
qed

lemma good_keyed:
  assumes "run_state E strict w0 0 w r s" "txn_ok w0 (Keyed n op key)" "strict \<longrightarrow> keeps_records w0"
  shows "good_advance E strict w0 (Keyed n op key) w r (advance E D (Keyed n op key) w r s)"
proof (cases op)
  case INSERT
  have fc: "w_field_count w = w_field_count w0" using same_run_values [OF run_state_D(2) [OF assms(1)]] by blast
  have "part_ok w0 (field_names w) []" "length (field_names w) \<le> write_width w0"
    by (simp_all add: part_ok_def field_names_def write_width_def fc)
  then show ?thesis
    using good_moveI [OF assms(1), of "Writing n op key (field_names w) []" "Keyed n op key"] INSERT by simp
next
  case READ
  then show ?thesis using good_fields [OF assms(1), of key 0 n op "Keyed n op key"] assms(2)
    by (simp add: int_max_def)
next
  case UPDATE
  then show ?thesis using good_names [OF assms(1), of n "Keyed n op key" op key] by simp
next
  case DELETE
  then have ns: "\<not> strict" using assms(2,3) by (auto simp: keeps_records_def mix_ops_def)
  obtain s' where d: "db_Delete D s (NextTable w) key = Inr (kOK, s')" "ok s'"
    using delete_law [OF run_state_D(3) [OF assms(1)]] by blast
  have "run_state E strict w0 0 w r s'" using run_state_db [OF assms(1) d(2)] ns by simp
  from good_finishI [OF this kOK_nonneg, of n "Keyed n op key"] show ?thesis using d(1) DELETE by simp
next
  case SCAN
  obtain k w' r' where l: "NextScanLength E w r = Inr (k, w', r')" "wl_ready E w'" "same_run w w'"
    "k \<le> 0x7FFFFFFF"
    using NextScanLength_ready [OF run_state_D(1) [OF assms(1)]] by blast
  show ?thesis
    using good_moveI [OF run_state_wl [OF assms(1) l(2,3)], of "Sized n key (int_of_size k)" "Keyed n op key"]
      assms(2) l(1) int_of_size_small [OF l(4)] SCAN by simp
next
  case READMODIFYWRITE
  then show ?thesis using good_fields [OF assms(1), of key 0 n op "Keyed n op key"] assms(2)
    by (simp add: int_max_def)
qed

lemma good_fielded:
  assumes "run_state E strict w0 0 w r s" "txn_ok w0 (Fielded n op key len flds)" "strict \<longrightarrow> keeps_records w0"
  shows "good_advance E strict w0 (Fielded n op key len flds) w r (advance E D (Fielded n op key len flds) w r s)"
proof (cases "op = SCAN")
  case True
  obtain rows s' where d: "db_Scan D s (NextTable w) key len flds [] = Inr (kOK, rows, s')" "ok s'"
    "content s' = content s"
    using scan_cases [OF run_state_D(3) [OF assms(1)]] assms(2) by fastforce
  have "run_state E strict w0 0 w r s'"
    using run_state_db [OF assms(1) d(2)] d(3) run_state_D(4) [OF assms(1)] by simp
  from good_finishI [OF this kOK_nonneg, of n "Fielded n op key len flds"] show ?thesis using d(1) True by simp
next
  case False
  obtain st row s' where d: "db_Read D s (NextTable w) key flds [] = Inr (st, row, s')" "0 \<le> st" "ok s'"
    "content s' = content s" "(\<exists>v. content s key = Some v \<and> v \<noteq> []) \<longrightarrow> st = kOK"
    using read_cases [OF run_state_D(3) [OF assms(1)]] by blast
  have rs: "run_state E strict w0 0 w r s'"
    using run_state_db [OF assms(1) d(3)] d(4) run_state_D(4) [OF assms(1)] by simp
  have "strict \<longrightarrow> st = kOK"
    using d(5) run_state_D(4) [OF assms(1)] present_pick [of w0 "content s" key] assms(2) by auto
  note fin = good_finishI [OF rs d(2) this, of n "Fielded n op key len flds"]
  note mov = good_moveI [OF rs, of "After_Read n key" "Fielded n op key len flds"]
  show ?thesis
  proof (cases "op = READMODIFYWRITE")
    case True
    then show ?thesis using mov d(1) by simp
  next
    case False
    then show ?thesis using fin d(1) \<open>op \<noteq> SCAN\<close> by simp
  qed
qed

text \<open>The length and the character of a value.\<close>

lemma good_length:
  assumes "run_state E strict w0 0 w r s" "txn_ok w0 (Writing n op key (f # fs) vals)"
  shows "good_advance E strict w0 (Writing n op key (f # fs) vals) w r
    (advance E D (Writing n op key (f # fs) vals) w r s)"
proof -
  obtain g where g: "w_field_len_generator w = Const_Gen g" "const_val g \<le> 0x7FFFFFFFFFFFFFFF"
    using ready_parts(6) [OF run_state_D(1) [OF assms(1)]] by blast
  have w: "w\<lparr>w_field_len_generator := Const_Gen g\<rparr> = w" using g(1) by (cases w) simp
  have "value_len w0 = unat (const_val g)"
    using same_run_values [OF run_state_D(2) [OF assms(1)]] g(1) by (simp add: value_len_def)
  then have "txn_ok w0 (Filling n op key f (const_val g) fs vals)" using g(2) assms(2) by simp
  then have "good_advance E strict w0 (Writing n op key (f # fs) vals) w r
      (Inr (Filling n op key f (const_val g) fs vals, 0, w, r, s))"
    using assms(1) by (intro good_moveI) simp_all
  moreover have "advance E D (Writing n op key (f # fs) vals) w r s =
      Inr (Filling n op key f (const_val g) fs vals, 0, w\<lparr>w_field_len_generator := Const_Gen g\<rparr>, r, s)"
    by (simp add: g(1) const_next_def)
  ultimately show ?thesis by (simp only: w)
qed

lemma good_char:
  assumes "run_state E strict w0 0 w r s" "txn_ok w0 (Filling n op key f len fs vals)"
  shows "good_advance E strict w0 (Filling n op key f len fs vals) w r
    (advance E D (Filling n op key f len fs vals) w r s)"
proof -
  obtain c r' where c: "RandomPrintChar E r = (c, r')" by (cases "RandomPrintChar E r")
  have v: "append_fill len c = Inr (replicate (unat len) c)"
    using assms(2) by (simp add: append_fill_def not_less)
  have "txn_ok w0 (Writing n op key fs (vals @ [(f, replicate (unat len) c)]))"
    using assms(2) by (simp add: part_ok_append)
  from good_moveI [OF run_state_wl [OF assms(1) run_state_D(1) [OF assms(1)] same_run_refl] this,
      of "Filling n op key f len fs vals"]
  show ?thesis using c v by simp
qed

lemma good_built:
  assumes "run_state E strict w0 0 w r s" "txn_ok w0 (Writing n op key [] vals)" "strict \<longrightarrow> keeps_records w0"
  shows "good_advance E strict w0 (Writing n op key [] vals) w r (advance E D (Writing n op key [] vals) w r s)"
proof -
  have "\<exists>s'. (if op = INSERT then db_Insert D s (NextTable w) key vals
      else db_Update D s (NextTable w) key vals) = Inr (kOK, s') \<and> ok s' \<and>
      content s' = (content s)(key \<mapsto> first_value vals)"
    using insert_map [OF run_state_D(3) [OF assms(1)], of key vals "NextTable w"]
      update_law [OF run_state_D(3) [OF assms(1)], of key vals "NextTable w"] by auto
  then obtain s' where d: "(if op = INSERT then db_Insert D s (NextTable w) key vals
      else db_Update D s (NextTable w) key vals) = Inr (kOK, s')" "ok s'"
      "content s' = (content s)(key \<mapsto> first_value vals)" by blast
  have "strict \<longrightarrow> present w0 (content s')"
    using assms(2,3) run_state_D(4) [OF assms(1)] present_upd built_not_empty
    by (auto simp: d(3) keeps_records_def)
  then have "run_state E strict w0 0 w r s'" using run_state_db [OF assms(1) d(2)] by simp
  from good_finishI [OF this kOK_nonneg, of n "Writing n op key [] vals"] show ?thesis
    unfolding advance.simps d(1) by simp
qed

lemma advance_good:
  assumes "run_state E strict w0 0 w r s" "txn_ok w0 t" "strict \<longrightarrow> keeps_records w0" "t \<noteq> Start 0"
  shows "good_advance E strict w0 t w r (advance E D t w r s)"
proof (cases t)
  case (Start m)
  then obtain n where n: "m = Suc n" using assms(4) by (cases m) auto
  obtain op w' r' where o: "NextOperation E w r = Inr (op, w', r')" "wl_ready E w'" "same_run w w'"
    "op \<in> fst ` set (d_values (w_op_chooser w))"
    using NextOperation_ready [OF run_state_D(1) [OF assms(1)]] by blast
  have "op \<in> mix_ops w0"
    using o(4) same_run_mix [OF run_state_D(2) [OF assms(1)]] by (simp add: mix_ops_def)
  then show ?thesis
    using good_moveI [OF run_state_wl [OF assms(1) o(2,3)], of "Chosen n op" t] o(1) Start n
    by (simp add: txn_width_def)
next
  case (Chosen n op)
  then show ?thesis using good_key assms(1,2) by blast
next
  case (Keyed n op key)
  then show ?thesis using good_keyed assms(1-3) by blast
next
  case (Sized n key len)
  then show ?thesis using good_fields [OF assms(1), of key len n SCAN t] assms(2) by simp
next
  case (Fielded n op key len flds)
  then show ?thesis using good_fielded assms(1-3) by blast
next
  case (After_Read n key)
  then show ?thesis using good_names [OF assms(1), of n t READMODIFYWRITE key] by simp
next
  case (Writing n op key fs vals)
  then show ?thesis
    using good_length [OF assms(1), of n op key] good_built [OF assms(1), of n op key] assms(2,3) by (cases fs) auto
next
  case (Filling n op key f len fs vals)
  then show ?thesis using good_char assms(1,2) by blast
qed

end

end
