(* ===== verification/Concurrent_Run.thy ===== *)
theory Concurrent_Run
  imports Client_Steps
begin

text \<open>
  The run phase with its threads interleaved inside a transaction: configurations, their
  steps, the invariant, and why every run ends, whatever the order of the steps.  Run
  without interruption the steps are \<open>DoTransaction\<close>.
\<close>

section \<open>Configurations\<close>

record 's txn_conf =
  tc_threads :: "txn list"
  tc_oks :: "int list"
  tc_wl :: workload
  tc_rng :: rng
  tc_db :: 's

inductive txn_step :: "env \<Rightarrow> 's db_class \<Rightarrow> nat \<Rightarrow> 's txn_conf \<Rightarrow> 's txn_conf \<Rightarrow> bool" for E D where
  txn_advance:
    "\<lbrakk>i < length (tc_threads c); tc_threads c ! i \<noteq> Start 0;
      advance E D (tc_threads c ! i) (tc_wl c) (tc_rng c) (tc_db c) = Inr (t, b, w, r, s)\<rbrakk> \<Longrightarrow>
     txn_step E D i c
       \<lparr>tc_threads = (tc_threads c)[i := t], tc_oks = (tc_oks c)[i := tc_oks c ! i + b],
        tc_wl = w, tc_rng = r, tc_db = s\<rparr>"

text \<open>
  Runs, with the number of their steps and the number of rejected draws of keys: those
  steps after which the thread is where it was.
\<close>

inductive txn_run :: "env \<Rightarrow> 's db_class \<Rightarrow> 's txn_conf \<Rightarrow> nat \<Rightarrow> nat \<Rightarrow> 's txn_conf \<Rightarrow> bool" for E D c where
  txn_none: "txn_run E D c 0 0 c"
| txn_more:
    "\<lbrakk>txn_run E D c k j c'; txn_step E D i c' c''; tc_threads c'' \<noteq> tc_threads c'\<rbrakk> \<Longrightarrow>
     txn_run E D c (Suc k) j c''"
| txn_again:
    "\<lbrakk>txn_run E D c k j c'; txn_step E D i c' c''; tc_threads c'' = tc_threads c'\<rbrakk> \<Longrightarrow>
     txn_run E D c k (Suc j) c''"

inductive_cases txn_stepE: "txn_step E D i c c'"

text \<open>Threads that go on for ever, in some order.\<close>

definition txn_endless :: "env \<Rightarrow> 's db_class \<Rightarrow> 's txn_conf \<Rightarrow> bool" where
  "txn_endless E D c \<longleftrightarrow> (\<exists>f. f 0 = c \<and> (\<forall>m. \<exists>i. txn_step E D i (f m) (f (Suc m))))"

definition txn_start :: "'s db_class \<Rightarrow> nat \<Rightarrow> nat \<Rightarrow> workload \<Rightarrow> rng \<Rightarrow> 's \<Rightarrow> 's txn_conf" where
  "txn_start D nt per w r s =
     \<lparr>tc_threads = replicate nt (Start per), tc_oks = replicate nt 0, tc_wl = w, tc_rng = r,
      tc_db = (db_Init D ^^ nt) s\<rparr>"

definition uncompleted :: "'s txn_conf \<Rightarrow> nat" where
  "uncompleted c = sum_list (map txn_todo (tc_threads c))"

definition txn_steps_left :: "nat \<Rightarrow> 's txn_conf \<Rightarrow> nat" where
  "txn_steps_left F c = sum_list (map (txn_cost F) (tc_threads c))"

lemma txn_start_left: "txn_steps_left F (txn_start D nt per w r s) = txn_width F * (nt * per)"
  by (simp add: txn_steps_left_def txn_start_def sum_list_replicate)

lemma txn_run_one: "txn_step E D i c c' \<Longrightarrow> \<exists>k j. txn_run E D c k j c'"
  using txn_more [OF txn_none] txn_again [OF txn_none] by (cases "tc_threads c' = tc_threads c") blast+

lemma txn_run_trans:
  assumes "txn_run E D b k j c" "txn_run E D a k' j' b"
  shows "txn_run E D a (k' + k) (j' + j) c"
  using assms by induction (auto intro: txn_more txn_again)

text \<open>Runs that are bound to end do not go on for ever.\<close>

lemma accp_not_endless: "Wellfounded.accp (\<lambda>c' c. \<exists>i. txn_step E D i c c') c \<Longrightarrow> \<not> txn_endless E D c"
proof (induction rule: accp.induct)
  case (accI c)
  show ?case
  proof
    assume "txn_endless E D c"
    then obtain f where f: "f 0 = c" "\<And>m. \<exists>i. txn_step E D i (f m) (f (Suc m))"
      by (auto simp: txn_endless_def)
    from f(2) [of 0] f(1) have "\<exists>i. txn_step E D i c (f 1)" by simp
    with accI(2) have "\<not> txn_endless E D (f 1)" by blast
    moreover have "txn_endless E D (f 1)"
      unfolding txn_endless_def using f(2) by (intro exI [of _ "\<lambda>m. f (Suc m)"]) simp
    ultimately show False by blast
  qed
qed

section \<open>The invariant\<close>

context kv_db
begin

text \<open>
  The invariant of a configuration: the shared state is that of a run phase, what each
  thread holds is of use, and under \<open>strict\<close> every transaction that is not left counts as a
  success.
\<close>

definition run_inv :: "env \<Rightarrow> bool \<Rightarrow> workload \<Rightarrow> nat \<Rightarrow> 's txn_conf \<Rightarrow> bool" where
  "run_inv E strict w0 N c \<longleftrightarrow>
     run_state E strict w0 0 (tc_wl c) (tc_rng c) (tc_db c) \<and>
     (\<forall>t \<in> set (tc_threads c). txn_ok w0 t) \<and> length (tc_oks c) = length (tc_threads c) \<and>
     (strict \<longrightarrow> sum_list (tc_oks c) + int (uncompleted c) = int N)"

text \<open>A step uses up one of the steps left, or is a rejected draw.\<close>

lemma txn_step_good:
  assumes "run_inv E strict w0 N c" "strict \<longrightarrow> keeps_records w0" "txn_step E D i c c'"
  shows "run_inv E strict w0 N c' \<and>
    (txn_steps_left (write_width w0) c' < txn_steps_left (write_width w0) c \<or>
     tc_threads c' = tc_threads c \<and> canon_pos (tc_rng c') = Suc (canon_pos (tc_rng c)) \<and>
     \<not> accepts E (w_insert_key_sequence (tc_wl c)) (w_key_chooser (tc_wl c)) (canon_pos (tc_rng c)) \<and>
     accepts E (w_insert_key_sequence (tc_wl c')) (w_key_chooser (tc_wl c')) =
       accepts E (w_insert_key_sequence (tc_wl c)) (w_key_chooser (tc_wl c)))"
  using assms(3)
proof (rule txn_stepE)
  fix t b w r s
  assume i: "i < length (tc_threads c)" "tc_threads c ! i \<noteq> Start 0"
    and a: "advance E D (tc_threads c ! i) (tc_wl c) (tc_rng c) (tc_db c) = Inr (t, b, w, r, s)"
    and c': "c' = \<lparr>tc_threads = (tc_threads c)[i := t], tc_oks = (tc_oks c)[i := tc_oks c ! i + b],
        tc_wl = w, tc_rng = r, tc_db = s\<rparr>"
  let ?F = "write_width w0"
  note d = assms(1) [unfolded run_inv_def]
  have "txn_ok w0 (tc_threads c ! i)" using d i(1) by simp
  note g = advance_good [OF _ this assms(2) i(2), of E "tc_wl c" "tc_rng c" "tc_db c",
      unfolded a good_advance_def, simplified]
  have g': "run_state E strict w0 0 w r s" "txn_ok w0 t"
    "strict \<longrightarrow> b + int (txn_todo t) = int (txn_todo (tc_threads c ! i))" using g d by blast+
  have "txn_steps_left ?F c' + txn_cost ?F (tc_threads c ! i) = txn_steps_left ?F c + txn_cost ?F t"
    and u: "uncompleted c' + txn_todo (tc_threads c ! i) = uncompleted c + txn_todo t"
    using sum_cost_update [OF i(1)] by (simp_all add: txn_steps_left_def uncompleted_def c')
  then have left: "txn_cost ?F t < txn_cost ?F (tc_threads c ! i) \<Longrightarrow> txn_steps_left ?F c' < txn_steps_left ?F c"
    by linarith
  have "sum_list (tc_oks c') = sum_list (tc_oks c) + b"
    using sum_list_add_at [of i "tc_oks c" b] i(1) d by (simp add: c')
  moreover have "\<forall>t' \<in> set (tc_threads c'). txn_ok w0 t'"
    using d g'(2) set_update_subset_insert [of "tc_threads c" i t] by (auto simp: c')
  ultimately have "run_inv E strict w0 N c'" using d g' u by (auto simp: run_inv_def c')
  moreover have "t = tc_threads c ! i \<Longrightarrow> tc_threads c' = tc_threads c" by (simp add: c')
  ultimately show ?thesis using g d left by (auto simp: c')
qed

lemma txn_run_good:
  assumes "txn_run E D c k j c'" "run_inv E strict w0 N c" "strict \<longrightarrow> keeps_records w0"
  shows "run_inv E strict w0 N c' \<and>
    k + txn_steps_left (write_width w0) c' \<le> txn_steps_left (write_width w0) c"
  using assms(1)
proof induction
  case txn_none
  then show ?case using assms(2) by simp
next
  case (txn_more k j c' i c'')
  with txn_step_good [OF _ assms(3) txn_more.hyps(2)] show ?case by fastforce
next
  case (txn_again k j c' i c'')
  then have "txn_steps_left (write_width w0) c'' = txn_steps_left (write_width w0) c'"
    by (simp add: txn_steps_left_def)
  with txn_again txn_step_good [OF _ assms(3) txn_again.hyps(2)] show ?case by fastforce
qed

lemma txn_can_step:
  assumes "run_inv E strict w0 N c" "strict \<longrightarrow> keeps_records w0"
    and "i < length (tc_threads c)" "tc_threads c ! i \<noteq> Start 0"
  shows "\<exists>c'. txn_step E D i c c'"
proof -
  have "txn_ok w0 (tc_threads c ! i)" "run_state E strict w0 0 (tc_wl c) (tc_rng c) (tc_db c)"
    using assms(1,3) by (simp_all add: run_inv_def)
  from advance_good [OF this(2,1) assms(2,4)] obtain t b w r s where
    "advance E D (tc_threads c ! i) (tc_wl c) (tc_rng c) (tc_db c) = Inr (t, b, w, r, s)"
    by (auto simp: good_advance_def)
  from txn_advance [of i c E D, OF assms(3,4) this] show ?thesis by blast
qed

section \<open>Every run ends\<close>

text \<open>
  While no thread gets on, the threads that draw keys take one random double after the
  other, so one of them gets the next draw that cannot be rejected.
\<close>

lemma redraws_stop:
  assumes less: "\<And>c'. run_inv E strict w0 N c' \<Longrightarrow>
      txn_steps_left (write_width w0) c' < L \<Longrightarrow> Wellfounded.accp (\<lambda>c' c. \<exists>i. txn_step E D i c c') c'"
    and strict: "strict \<longrightarrow> keeps_records w0"
  shows "run_inv E strict w0 N c \<Longrightarrow> txn_steps_left (write_width w0) c = L \<Longrightarrow>
    canon_pos (tc_rng c) \<le> p \<Longrightarrow>
    accepts E (w_insert_key_sequence (tc_wl c)) (w_key_chooser (tc_wl c)) p \<Longrightarrow>
    Wellfounded.accp (\<lambda>c' c. \<exists>i. txn_step E D i c c') c"
proof (induction "p - canon_pos (tc_rng c)" arbitrary: c rule: less_induct)
  case (less c)
  show ?case
  proof (rule accp.accI, elim exE)
    fix c' i assume st: "txn_step E D i c c'"
    note g = txn_step_good [OF less.prems(1) strict st]
    show "Wellfounded.accp (\<lambda>c' c. \<exists>i. txn_step E D i c c') c'"
    proof (cases "txn_steps_left (write_width w0) c' < L")
      case True
      with g assms(1) show ?thesis by blast
    next
      case False
      with g less.prems(2) have r: "tc_threads c' = tc_threads c"
        "canon_pos (tc_rng c') = Suc (canon_pos (tc_rng c))"
        "\<not> accepts E (w_insert_key_sequence (tc_wl c)) (w_key_chooser (tc_wl c)) (canon_pos (tc_rng c))"
        "accepts E (w_insert_key_sequence (tc_wl c')) (w_key_chooser (tc_wl c')) p" "run_inv E strict w0 N c'"
        using less.prems(4) by simp_all
      with less.prems(3,4) have "canon_pos (tc_rng c) < p" by (metis le_neq_implies_less)
      with r less.prems(2) show ?thesis by (intro less.hyps) (simp_all add: txn_steps_left_def)
    qed
  qed
qed

lemma run_stops:
  assumes "run_inv E strict w0 N c" "strict \<longrightarrow> keeps_records w0"
  shows "Wellfounded.accp (\<lambda>c' c. \<exists>i. txn_step E D i c c') c"
  using assms(1)
proof (induction "txn_steps_left (write_width w0) c" arbitrary: c rule: less_induct)
  case less
  have "wl_ready E (tc_wl c)" using less.prems by (simp add: run_inv_def run_state_def)
  then obtain p where "canon_pos (tc_rng c) \<le> p"
    "accepts E (w_insert_key_sequence (tc_wl c)) (w_key_chooser (tc_wl c)) p"
    using accepts_again ready_parts(4) by blast
  from redraws_stop [OF less.hyps assms(2) less.prems refl this] show ?case by blast
qed

text \<open>Any run can be continued until all its threads are done.\<close>

lemma txn_completes:
  assumes "run_inv E strict w0 N c" "strict \<longrightarrow> keeps_records w0"
  shows "\<exists>k j c'. txn_run E D c k j c' \<and> (\<forall>t \<in> set (tc_threads c'). t = Start 0)"
  using run_stops [OF assms] assms(1)
proof (induction rule: accp.induct)
  case (accI c)
  show ?case
  proof (cases "\<forall>t \<in> set (tc_threads c). t = Start 0")
    case True
    with txn_none show ?thesis by blast
  next
    case False
    then obtain i where "i < length (tc_threads c)" "tc_threads c ! i \<noteq> Start 0"
      by (auto simp: in_set_conv_nth)
    from txn_can_step [OF accI.prems assms(2) this] obtain c1 where c1: "txn_step E D i c c1" by blast
    with accI(2) txn_step_good [OF accI.prems assms(2) c1] obtain k j c' where
      "txn_run E D c1 k j c'" "\<forall>t \<in> set (tc_threads c'). t = Start 0" by blast
    with txn_run_one [OF c1] txn_run_trans show ?thesis by blast
  qed
qed

lemma txn_start_inv:
  assumes "wl_ready E w" "ok s" "strict \<longrightarrow> present w (content s)"
  shows "run_inv E strict w (nt * per) (txn_start D nt per w r s)"
  using assms init_run [OF assms(2), of nt]
  by (auto simp: run_inv_def run_state_def txn_start_def uncompleted_def sum_list_replicate)

end

section \<open>Choosers without rejected draws\<close>

text \<open>Only draws of keys touch the chooser of keys.\<close>

lemma value_chooser: "next_value E w r = Inr (v, w', r') \<Longrightarrow> w_key_chooser w' = w_key_chooser w"
  by (auto simp: next_value_def RandomPrintChar_def bind_r_eq_Inr)

lemma draws_chooser:
  "NextSequenceKey E w r = Inr (k, w', r') \<Longrightarrow> w_key_chooser w' = w_key_chooser w"
  "NextOperation E w r = Inr (op, w', r') \<Longrightarrow> w_key_chooser w' = w_key_chooser w"
  "NextScanLength E w r = Inr (n, w', r') \<Longrightarrow> w_key_chooser w' = w_key_chooser w"
  "choose_fields E w r = Inr (fs, w', r') \<Longrightarrow> w_key_chooser w' = w_key_chooser w"
  "names_to_write E w r = Inr (ns, w', r') \<Longrightarrow> w_key_chooser w' = w_key_chooser w"
  by (auto simp: NextSequenceKey_def NextOperation_def NextScanLength_def choose_fields_def
      names_to_write_def NextFieldName_def bind_r_eq_Inr split: if_splits)

lemma draw_key_settings: "draw_key E w r = Inr (drawn, w', r') \<Longrightarrow> settings w' = settings w"
  by (auto simp: draw_key_def Let_def bind_r_eq_Inr split: if_splits)

lemma names_settings: "names_to_write E w r = Inr (ns, w', r') \<Longrightarrow> settings w' = settings w"
  by (auto simp: names_to_write_def bind_r_eq_Inr dest: workload_settings split: if_splits)

lemma advance_chooser:
  assumes "advance E D t w r s = Inr (t', b, w', r', s')"
  shows "w_key_chooser w' = w_key_chooser w \<or> (\<exists>drawn. draw_key E w r = Inr (drawn, w', r'))"
proof (cases "(E, D, t, w, r, s)" rule: advance.cases)
  case (4 E D n op key w r s)
  with assms show ?thesis
    by (cases op) (auto simp: bind_r_eq_Inr finish_txn_def dest: draws_chooser)
qed (use assms in \<open>auto simp: bind_r_eq_Inr finish_txn_def RandomPrintChar_def dest: draws_chooser split: if_splits\<close>)

definition never_rejects :: "env \<Rightarrow> workload \<Rightarrow> bool" where
  "never_rejects E w \<longleftrightarrow> (\<forall>j. accepts E (w_insert_key_sequence w) (w_key_chooser w) j)"

lemma draw_key_accepts:
  assumes "draw_key E w r = Inr (drawn, w', r')" "wl_ready E w" "never_rejects E w"
  shows "never_rejects E w'"
proof -
  obtain v g r1 where n: "gen_next E (w_insert_key_sequence w) (w_key_chooser w) r = Inr (v, g, r1)"
    "accepts E (w_insert_key_sequence w) g = accepts E (w_insert_key_sequence w) (w_key_chooser w)"
    using chooser_draw [OF ready_parts(4) [OF assms(2)]] by blast
  then have "w' = w\<lparr>w_key_chooser := g\<rparr>"
    using assms(1) by (auto simp: draw_key_def Let_def bind_r_eq_Inr split: if_splits)
  with n(2) assms(3) show ?thesis by (simp add: never_rejects_def)
qed

context kv_db
begin

lemma step_without_redraw:
  assumes "run_inv E strict w0 N c" "strict \<longrightarrow> keeps_records w0" "txn_step E D i c c'"
    and "never_rejects E (tc_wl c)"
  shows "never_rejects E (tc_wl c') \<and> tc_threads c' \<noteq> tc_threads c"
proof -
  note g = txn_step_good [OF assms(1-3)]
  have "txn_steps_left (write_width w0) c' < txn_steps_left (write_width w0) c"
    using g assms(4) unfolding never_rejects_def by blast
  then have t: "tc_threads c' \<noteq> tc_threads c" by (auto simp: txn_steps_left_def)
  have "wl_ready E (tc_wl c)" "same_run w0 (tc_wl c)" "same_run w0 (tc_wl c')"
    using assms(1) g unfolding run_inv_def run_state_def by blast+
  then have w: "wl_ready E (tc_wl c)" "w_insert_key_sequence (tc_wl c') = w_insert_key_sequence (tc_wl c)"
    by (simp_all add: same_run_seq)
  have "w_key_chooser (tc_wl c') = w_key_chooser (tc_wl c) \<or>
      (\<exists>drawn. draw_key E (tc_wl c) (tc_rng c) = Inr (drawn, tc_wl c', tc_rng c'))"
    using assms(3) by (rule txn_stepE) (auto dest: advance_chooser)
  then have "never_rejects E (tc_wl c')"
    using draw_key_accepts [OF _ w(1) assms(4)] assms(4) w(2) by (metis never_rejects_def)
  with t show ?thesis by blast
qed

lemma run_without_redraws:
  assumes "txn_run E D c k j c'" "run_inv E strict w0 N c" "strict \<longrightarrow> keeps_records w0"
    and "never_rejects E (tc_wl c)"
  shows "j = 0 \<and> never_rejects E (tc_wl c')"
  using assms(1)
proof induction
  case txn_none
  then show ?case using assms(4) by simp
next
  case (txn_more k j c' i c'')
  have "run_inv E strict w0 N c'" using txn_run_good [OF txn_more.hyps(1) assms(2,3)] ..
  from step_without_redraw [OF this assms(3) txn_more.hyps(2)] txn_more.IH show ?case by blast
next
  case (txn_again k j c' i c'')
  have "run_inv E strict w0 N c'" using txn_run_good [OF txn_again.hyps(1) assms(2,3)] ..
  from step_without_redraw [OF this assms(3) txn_again.hyps(2)] txn_again.IH txn_again.hyps(3)
  show ?case by blast
qed

end

section \<open>The steps of a transaction\<close>

text \<open>
  A transaction without interruption: its steps until the thread is at a start again;
  \<open>None\<close> when that never happens, because all draws of a key are rejected.
\<close>

fun at_start :: "txn \<Rightarrow> bool" where
  "at_start (Start n) \<longleftrightarrow> True"
| "at_start _ \<longleftrightarrow> False"

partial_function (option) txn_to_end ::
  "env \<Rightarrow> 's db_class \<Rightarrow> txn \<Rightarrow> workload \<Rightarrow> rng \<Rightarrow> 's \<Rightarrow>
    (stop + (int \<times> workload \<times> rng \<times> 's)) option" where
  "txn_to_end E D t w r s =
     (case advance E D t w r s of
        Inl e \<Rightarrow> Some (Inl e)
      | Inr (t', b, w', r', s') \<Rightarrow>
          if at_start t' then Some (Inr (b, w', r', s')) else txn_to_end E D t' w' r' s')"

declare txn_to_end.simps [code]

definition run_txn ::
  "env \<Rightarrow> 's db_class \<Rightarrow> txn \<Rightarrow> workload \<Rightarrow> rng \<Rightarrow> 's \<Rightarrow> stop + (int \<times> workload \<times> rng \<times> 's)" where
  "run_txn E D t w r s =
     (case txn_to_end E D t w r s of None \<Rightarrow> Inl Diverges | Some res \<Rightarrow> res)"

lemma run_txn_step:
  "run_txn E D t w r s =
     bind_r (advance E D t w r s) (\<lambda>(t, b, w, r, s).
     if at_start t then Inr (b, w, r, s) else run_txn E D t w r s)"
  unfolding run_txn_def
  by (subst txn_to_end.simps) (auto split: sum.splits)

lemma run_txn_finish:
  "bind_r (finish_txn E n status w r s) (\<lambda>(t, b, w, r, s).
     if at_start t then Inr (b, w, r, s) else run_txn E D t w r s) =
   bind_r (cassert (ndebug E) (0 \<le> status)) (\<lambda>_. Inr (of_bool (status = kOK), w, r, s))"
  by (simp add: finish_txn_def bind_r_assoc)

text \<open>The rest of a transaction after each of its steps but the draws of keys and values.\<close>

lemma run_txn_simps:
  "run_txn E D (Start (Suc n)) w r s =
     bind_r (NextOperation E w r) (\<lambda>(op, w, r). run_txn E D (Chosen n op) w r s)"
  "run_txn E D (Chosen n INSERT) w r s =
     bind_r (NextSequenceKey E w r) (\<lambda>(key, w, r). run_txn E D (Keyed n INSERT key) w r s)"
  "run_txn E D (Keyed n READ key) w r s =
     bind_r (choose_fields E w r) (\<lambda>(flds, w, r). run_txn E D (Fielded n READ key 0 flds) w r s)"
  "run_txn E D (Keyed n READMODIFYWRITE key) w r s =
     bind_r (choose_fields E w r) (\<lambda>(flds, w, r). run_txn E D (Fielded n READMODIFYWRITE key 0 flds) w r s)"
  "run_txn E D (Keyed n SCAN key) w r s =
     bind_r (NextScanLength E w r) (\<lambda>(k, w, r). run_txn E D (Sized n key (int_of_size k)) w r s)"
  "run_txn E D (Keyed n DELETE key) w r s =
     bind_r (db_Delete D s (NextTable w) key) (\<lambda>(status, s).
     bind_r (cassert (ndebug E) (0 \<le> status)) (\<lambda>_. Inr (of_bool (status = kOK), w, r, s)))"
  "run_txn E D (Sized n key len) w r s =
     bind_r (choose_fields E w r) (\<lambda>(flds, w, r). run_txn E D (Fielded n SCAN key len flds) w r s)"
  "run_txn E D (Fielded n SCAN key len flds) w r s =
     bind_r (db_Scan D s (NextTable w) key len flds []) (\<lambda>(status, _, s).
     bind_r (cassert (ndebug E) (0 \<le> status)) (\<lambda>_. Inr (of_bool (status = kOK), w, r, s)))"
  "run_txn E D (Fielded n READMODIFYWRITE key len flds) w r s =
     bind_r (db_Read D s (NextTable w) key flds []) (\<lambda>(_, _, s). run_txn E D (After_Read n key) w r s)"
  "run_txn E D (Fielded n READ key len flds) w r s =
     bind_r (db_Read D s (NextTable w) key flds []) (\<lambda>(status, _, s).
     bind_r (cassert (ndebug E) (0 \<le> status)) (\<lambda>_. Inr (of_bool (status = kOK), w, r, s)))"
  "run_txn E D (Writing n op key [] vals) w r s =
     bind_r (if op = INSERT then db_Insert D s (NextTable w) key vals
             else db_Update D s (NextTable w) key vals) (\<lambda>(status, s).
     bind_r (cassert (ndebug E) (0 \<le> status)) (\<lambda>_. Inr (of_bool (status = kOK), w, r, s)))"
  by (subst run_txn_step; simp add: bind_r_assoc case_prod_unfold run_txn_finish
      [unfolded case_prod_unfold])+

text \<open>The length and the character of one field are a \<open>next_value\<close>, all fields a \<open>values_loop\<close>.\<close>

lemma run_txn_value:
  "run_txn E D (Writing n op key (f # fs) vals) w r s =
     bind_r (next_value E w r) (\<lambda>(v, w, r). run_txn E D (Writing n op key fs (vals @ [(f, v)])) w r s)"
  by (subst run_txn_step, subst run_txn_step)
    (simp add: next_value_def bind_r_assoc case_prod_unfold Let_def)

lemma run_txn_values:
  "run_txn E D (Writing n op key (map (\<lambda>i. ''field'' @ dec_string i) is) vals) w r s =
     bind_r (values_loop E is vals w r) (\<lambda>(vals, w, r). run_txn E D (Writing n op key [] vals) w r s)"
  by (induction "is" arbitrary: vals w r)
    (simp_all add: run_txn_value bind_r_assoc case_prod_unfold)

lemma run_txn_choose_values:
  "bind_r (names_to_write E w r) (\<lambda>(fs, w, r). run_txn E D (Writing n op key fs []) w r s) =
     bind_r (choose_values E w r) (\<lambda>(vals, w, r). run_txn E D (Writing n op key [] vals) w r s)"
proof (cases "w_write_all_fields w")
  case True
  then show ?thesis
    using run_txn_values by (simp add: names_to_write_def choose_values_def field_names_def BuildValues_def)
next
  case False
  then show ?thesis
    by (simp add: names_to_write_def choose_values_def BuildUpdate_def run_txn_value bind_r_assoc case_prod_unfold)
qed

lemma run_txn_writes:
  "run_txn E D (Keyed n UPDATE key) w r s =
     bind_r (choose_values E w r) (\<lambda>(vals, w, r). run_txn E D (Writing n UPDATE key [] vals) w r s)"
  "run_txn E D (After_Read n key) w r s =
     bind_r (choose_values E w r) (\<lambda>(vals, w, r). run_txn E D (Writing n READMODIFYWRITE key [] vals) w r s)"
  "run_txn E D (Keyed n INSERT key) w r s =
     bind_r (BuildValues E [] w r) (\<lambda>(vals, w, r). run_txn E D (Writing n INSERT key [] vals) w r s)"
proof -
  show "run_txn E D (Keyed n UPDATE key) w r s =
     bind_r (choose_values E w r) (\<lambda>(vals, w, r). run_txn E D (Writing n UPDATE key [] vals) w r s)"
    by (subst run_txn_step, subst run_txn_choose_values [symmetric]) (simp add: bind_r_assoc case_prod_unfold)
  show "run_txn E D (After_Read n key) w r s =
     bind_r (choose_values E w r) (\<lambda>(vals, w, r). run_txn E D (Writing n READMODIFYWRITE key [] vals) w r s)"
    by (subst run_txn_step, subst run_txn_choose_values [symmetric]) (simp add: bind_r_assoc case_prod_unfold)
  have "run_txn E D (Keyed n INSERT key) w r s = run_txn E D (Writing n INSERT key (field_names w) []) w r s"
    by (subst run_txn_step) simp
  then show "run_txn E D (Keyed n INSERT key) w r s =
     bind_r (BuildValues E [] w r) (\<lambda>(vals, w, r). run_txn E D (Writing n INSERT key [] vals) w r s)"
    by (simp only: field_names_def run_txn_values BuildValues_def)
qed

text \<open>The draws of a key are the loop of \<open>NextTransactionKey\<close>, also where it does not end.\<close>

definition key_goes_on ::
  "env \<Rightarrow> 's db_class \<Rightarrow> nat \<Rightarrow> operation \<Rightarrow> workload \<Rightarrow> 's \<Rightarrow> stop + (u64 \<times> gen \<times> rng) \<Rightarrow>
    stop + (int \<times> workload \<times> rng \<times> 's)" where
  "key_goes_on E D n op w s res =
     bind_r res (\<lambda>(k, g, r). bind_r (BuildKeyName w k) (\<lambda>key.
     run_txn E D (Keyed n op key) (w\<lparr>w_key_chooser := g\<rparr>) r s))"

lemma run_txn_draw:
  assumes "op \<noteq> INSERT"
  shows "run_txn E D (Chosen n op) w r s =
    bind_r (gen_next E (w_insert_key_sequence w) (w_key_chooser w) r) (\<lambda>(k, g, r).
    if k > counter_last (w_insert_key_sequence w)
    then run_txn E D (Chosen n op) (w\<lparr>w_key_chooser := g\<rparr>) r s
    else bind_r (BuildKeyName w k) (\<lambda>key.
      run_txn E D (Keyed n op key) (w\<lparr>w_key_chooser := g\<rparr>) r s))"
  using assms
  by (subst run_txn_step) (auto simp: draw_key_def bind_r_assoc Let_def case_prod_unfold intro!: bind_r_cong)

lemma key_loop_some_run:
  assumes "key_loop E seq g r = Some res" "op \<noteq> INSERT"
    and "w_insert_key_sequence w = seq" "w_key_chooser w = g"
  shows "run_txn E D (Chosen n op) w r s = key_goes_on E D n op w s res"
proof -
  have "\<forall>w. w_insert_key_sequence w = seq \<and> w_key_chooser w = g \<longrightarrow>
      run_txn E D (Chosen n op) w r s = key_goes_on E D n op w s res"
  proof (rule key_loop.raw_induct [where P = "\<lambda>E seq g r res. \<forall>w. w_insert_key_sequence w = seq \<and>
      w_key_chooser w = g \<longrightarrow> run_txn E D (Chosen n op) w r s = key_goes_on E D n op w s res",
      OF _ assms(1)], intro allI impI, elim conjE)
    fix f E seq g r res and w :: workload
    assume IH: "\<And>E seq g r res. f E seq g r = Some res \<Longrightarrow> \<forall>w. w_insert_key_sequence w = seq \<and>
        w_key_chooser w = g \<longrightarrow> run_txn E D (Chosen n op) w r s = key_goes_on E D n op w s res"
      and eq: "(case gen_next E seq g r of Inl e \<Rightarrow> Some (Inl e)
        | Inr (key_num, g', r') \<Rightarrow>
            if key_num > counter_last seq then f E seq g' r' else Some (Inr (key_num, g', r'))) = Some res"
      and w: "w_insert_key_sequence w = seq" "w_key_chooser w = g"
    note draw = run_txn_draw [OF assms(2), of E D n w r s]
    show "run_txn E D (Chosen n op) w r s = key_goes_on E D n op w s res"
    proof (cases "\<exists>k h r'. gen_next E seq g r = Inr (k, h, r') \<and> counter_last seq < k")
      case True
      then obtain k h r' where k: "gen_next E seq g r = Inr (k, h, r')" "counter_last seq < k" by blast
      then have "run_txn E D (Chosen n op) (w\<lparr>w_key_chooser := h\<rparr>) r' s =
          key_goes_on E D n op (w\<lparr>w_key_chooser := h\<rparr>) s res"
        using IH [of E seq h r' res] eq w by simp
      with k w show ?thesis by (simp add: draw key_goes_on_def)
    next
      case False
      with eq have "res = gen_next E seq g r" by (auto split: sum.splits if_splits)
      with False w show ?thesis by (cases "gen_next E seq g r") (auto simp: draw key_goes_on_def)
    qed
  qed
  with assms(3,4) show ?thesis by blast
qed

lemma key_loop_none_run:
  assumes "txn_to_end E D t w r s = Some res" "t = Chosen n op" "op \<noteq> INSERT"
  shows "key_loop E (w_insert_key_sequence w) (w_key_chooser w) r \<noteq> None"
proof -
  have "t = Chosen n op \<longrightarrow> key_loop E (w_insert_key_sequence w) (w_key_chooser w) r \<noteq> None"
  proof (rule txn_to_end.raw_induct [where P = "\<lambda>E D t w r s res.
      t = Chosen n op \<longrightarrow> key_loop E (w_insert_key_sequence w) (w_key_chooser w) r \<noteq> None",
      OF _ assms(1)], intro impI)
    fix f :: "env \<Rightarrow> 'a db_class \<Rightarrow> txn \<Rightarrow> workload \<Rightarrow> rng \<Rightarrow> 'a \<Rightarrow> (stop + (int \<times> workload \<times> rng \<times> 'a)) option"
      and E D t w r s res
    assume IH: "\<And>E D t w r s res. f E D t w r s = Some res \<Longrightarrow>
        t = Chosen n op \<longrightarrow> key_loop E (w_insert_key_sequence w) (w_key_chooser w) r \<noteq> None"
      and eq: "(case advance E D t w r s of Inl e \<Rightarrow> Some (Inl e)
        | Inr (t', b, w', r', s') \<Rightarrow>
            if at_start t' then Some (Inr (b, w', r', s')) else f E D t' w' r' s') = Some res"
      and t: "t = Chosen n op"
    show "key_loop E (w_insert_key_sequence w) (w_key_chooser w) r \<noteq> None"
    proof (cases "\<exists>v g r1. gen_next E (w_insert_key_sequence w) (w_key_chooser w) r = Inr (v, g, r1) \<and>
        counter_last (w_insert_key_sequence w) < v")
      case True
      then obtain v g r1 where v: "gen_next E (w_insert_key_sequence w) (w_key_chooser w) r = Inr (v, g, r1)"
        "counter_last (w_insert_key_sequence w) < v" by blast
      with eq t assms(3) have "f E D t (w\<lparr>w_key_chooser := g\<rparr>) r1 s = Some res" by (simp add: draw_key_def)
      from IH [OF this] t show ?thesis by (simp add: key_loop_skip [OF v])
    next
      case False
      then show ?thesis by (subst key_loop.simps) (auto split: sum.splits)
    qed
  qed
  with assms(2) show ?thesis by blast
qed

lemma run_txn_key:
  assumes "op \<noteq> INSERT"
  shows "run_txn E D (Chosen n op) w r s =
    bind_r (NextTransactionKey E w r) (\<lambda>(key, w, r). run_txn E D (Keyed n op key) w r s)"
proof (cases "key_loop E (w_insert_key_sequence w) (w_key_chooser w) r")
  case None
  then have "txn_to_end E D (Chosen n op) w r s = None" using key_loop_none_run [OF _ refl assms] by fastforce
  with None show ?thesis by (simp add: NextTransactionKey_def run_txn_def)
next
  case (Some res)
  from key_loop_some_run [OF this assms refl refl] Some show ?thesis
    by (simp add: NextTransactionKey_def key_goes_on_def bind_r_assoc case_prod_unfold)
qed

lemma settings_table: "settings w' = settings w \<Longrightarrow> NextTable w' = NextTable w"
  by (simp add: settings_def NextTable_def)

lemma run_txn_chosen:
  "run_txn E D (Chosen n op) w r s =
     bind_r (transaction_of op E D w r s) (\<lambda>(status, w, r, s).
     bind_r (cassert (ndebug E) (0 \<le> status)) (\<lambda>_. Inr (of_bool (status = kOK), w, r, s)))"
  by (cases op) (auto simp: run_txn_simps run_txn_key run_txn_writes transaction_of_def
      TransactionRead_def TransactionUpdate_def TransactionDelete_def TransactionInsert_def
      TransactionScan_def TransactionReadModifyWrite_def Let_def bind_r_assoc case_prod_unfold
      intro!: bind_r_cong dest!: workload_settings choose_settings settings_table)

text \<open>
  C8: run without interruption, the steps of a transaction are \<open>DoTransaction\<close>: the same
  result, the same shared state, the same exceptions and failed assertions, and the same
  divergence, which a loop that rejects every key is on both sides.
\<close>

theorem transaction_steps:
  "run_txn E D (Start (Suc n)) w r s =
     bind_r (DoTransaction E D w r s) (\<lambda>(b, w, r, s). Inr (of_bool b, w, r, s))"
  by (simp add: run_txn_simps(1) DoTransaction_def run_txn_chosen bind_r_assoc case_prod_unfold)

section \<open>Whole transactions as steps\<close>

text \<open>The state of the threads between their transactions.\<close>

definition txn_conf_of :: "'s threads \<Rightarrow> 's txn_conf" where
  "txn_conf_of t =
     \<lparr>tc_threads = map Start (th_todo t), tc_oks = th_oks t, tc_wl = th_wl t, tc_rng = th_rng t,
      tc_db = th_db t\<rparr>"

text \<open>The place after the transaction a thread is in.\<close>

lemma advance_todo:
  assumes "advance E D t w r s = Inr (t', b, w', r', s')" "t \<noteq> Start 0"
  shows "if at_start t' then t' = Start (txn_todo t - 1) else txn_todo t' = txn_todo t \<and> b = 0"
proof (cases "(E, D, t, w, r, s)" rule: advance.cases)
  case (4 E D n op key w r s)
  with assms(1) show ?thesis
    by (cases op) (auto simp: bind_r_eq_Inr finish_txn_def)
qed (use assms in \<open>auto simp: bind_r_eq_Inr finish_txn_def RandomPrintChar_def split: if_splits option.splits\<close>)

text \<open>A thread that is not interrupted finishes its transaction.\<close>

definition finishes ::
  "env \<Rightarrow> 's db_class \<Rightarrow> nat \<Rightarrow> txn list \<Rightarrow> int list \<Rightarrow> txn \<Rightarrow> workload \<Rightarrow> rng \<Rightarrow> 's \<Rightarrow>
    stop + (int \<times> workload \<times> rng \<times> 's) \<Rightarrow> bool" where
  "finishes E D i ts os t w r s res \<longleftrightarrow>
     (\<forall>b w' r' s'. res = Inr (b, w', r', s') \<longrightarrow> t \<noteq> Start 0 \<longrightarrow>
       (\<exists>k j. txn_run E D \<lparr>tc_threads = ts[i := t], tc_oks = os, tc_wl = w, tc_rng = r, tc_db = s\<rparr> k j
         \<lparr>tc_threads = ts[i := Start (txn_todo t - 1)], tc_oks = os[i := os ! i + b],
          tc_wl = w', tc_rng = r', tc_db = s'\<rparr>))"

lemma finishes_step:
  assumes "advance E D t w r s = Inr (t1, b1, w1, r1, s1)" "i < length ts" "i < length os"
    and "if at_start t1 then res = Inr (b1, w1, r1, s1) else finishes E D i ts os t1 w1 r1 s1 res"
  shows "finishes E D i ts os t w r s res"
  unfolding finishes_def
proof (intro allI impI)
  fix b w' r' s' assume res: "res = Inr (b, w', r', s')" and t: "t \<noteq> Start 0"
  let ?c = "\<lparr>tc_threads = ts[i := t], tc_oks = os, tc_wl = w, tc_rng = r, tc_db = s\<rparr>"
  have s: "txn_step E D i ?c \<lparr>tc_threads = ts[i := t1], tc_oks = os[i := os ! i + b1],
      tc_wl = w1, tc_rng = r1, tc_db = s1\<rparr>"
    using txn_advance [of i ?c E D t1 b1 w1 r1 s1] assms(1-3) t by simp
  note todo = advance_todo [OF assms(1) t]
  show "\<exists>k j. txn_run E D ?c k j
    \<lparr>tc_threads = ts[i := Start (txn_todo t - 1)], tc_oks = os[i := os ! i + b],
     tc_wl = w', tc_rng = r', tc_db = s'\<rparr>"
  proof (cases "at_start t1")
    case True
    then show ?thesis using txn_run_one [OF s] assms(4) todo res by simp
  next
    case False
    then have t1: "txn_todo t1 = txn_todo t" "b1 = 0" "t1 \<noteq> Start 0" using todo by auto
    with False assms(4) res txn_run_one [OF s] txn_run_trans show ?thesis
      by (simp add: finishes_def) blast
  qed
qed

lemma run_txn_run:
  assumes "txn_to_end E D t w r s = Some res" "i < length ts" "i < length os"
  shows "finishes E D i ts os t w r s res"
proof (rule txn_to_end.raw_induct [where P = "\<lambda>E D t w r s res. finishes E D i ts os t w r s res", OF _ assms(1)])
  fix f :: "env \<Rightarrow> 'a db_class \<Rightarrow> txn \<Rightarrow> workload \<Rightarrow> rng \<Rightarrow> 'a \<Rightarrow> (stop + (int \<times> workload \<times> rng \<times> 'a)) option"
    and E D t w r s res
  assume IH: "\<And>E D t w r s res. f E D t w r s = Some res \<Longrightarrow> finishes E D i ts os t w r s res"
    and eq: "(case advance E D t w r s of Inl e \<Rightarrow> Some (Inl e)
      | Inr (t', b, w', r', s') \<Rightarrow>
          if at_start t' then Some (Inr (b, w', r', s')) else f E D t' w' r' s') = Some res"
  show "finishes E D i ts os t w r s res"
  proof (cases "advance E D t w r s")
    case (Inl e)
    with eq show ?thesis by (auto simp: finishes_def)
  next
    case (Inr x)
    obtain t1 b1 w1 r1 s1 where x: "x = (t1, b1, w1, r1, s1)" by (cases x)
    with Inr eq IH [of E D t1 w1 r1 s1 res] show ?thesis
      by (intro finishes_step [OF _ assms(2,3)]) (auto split: if_splits)
  qed
qed

lemma txn_schedule_run:
  "run_schedule E D False sch t = Inr t' \<Longrightarrow> length (th_oks t) = length (th_todo t) \<Longrightarrow>
   \<exists>k j. txn_run E D (txn_conf_of t) k j (txn_conf_of t')"
proof (induction sch arbitrary: t)
  case Nil
  then have "t' = t" by simp
  then show ?case using txn_none by blast
next
  case (Cons i sch)
  obtain t1 where t1: "thread_step E D False i t = Inr t1" "run_schedule E D False sch t1 = Inr t'"
    using Cons.prems(1) by (auto simp: bind_r_eq_Inr)
  have "(\<exists>k j. txn_run E D (txn_conf_of t) k j (txn_conf_of t1)) \<and> length (th_oks t1) = length (th_todo t1)"
  proof (cases "i < length (th_todo t) \<and> 0 < th_todo t ! i")
    case True
    then obtain n where n: "th_todo t ! i = Suc n" by (cases "th_todo t ! i") auto
    obtain b w r s where b: "DoTransaction E D (th_wl t) (th_rng t) (th_db t) = Inr (b, w, r, s)"
      and e: "t1 = \<lparr>th_todo = (th_todo t)[i := n], th_oks = (th_oks t)[i := th_oks t ! i + of_bool b],
        th_wl = w, th_rng = r, th_db = s\<rparr>"
      using t1(1) True n by (auto simp: thread_step_def bind_r_eq_Inr)
    have "run_txn E D (Start (Suc n)) (th_wl t) (th_rng t) (th_db t) = Inr (of_bool b, w, r, s)"
      using b by (simp add: run_txn_simps(1) DoTransaction_def run_txn_chosen bind_r_assoc
          case_prod_unfold bind_r_eq_Inr) force
    then have "txn_to_end E D (Start (Suc n)) (th_wl t) (th_rng t) (th_db t) = Some (Inr (of_bool b, w, r, s))"
      by (auto simp: run_txn_def split: option.splits)
    from run_txn_run [OF this, of i "map Start (th_todo t)" "th_oks t", unfolded finishes_def] True Cons.prems(2)
    have k: "\<exists>k j. txn_run E D
      \<lparr>tc_threads = (map Start (th_todo t))[i := Start (Suc n)], tc_oks = th_oks t, tc_wl = th_wl t,
       tc_rng = th_rng t, tc_db = th_db t\<rparr> k j (txn_conf_of t1)"
      by (simp add: txn_conf_of_def e map_update del: of_bool_eq_iff split del: split_of_bool)
    have "(map Start (th_todo t))[i := Start (Suc n)] = map Start (th_todo t)"
      using True n by (simp add: list_update_same_conv)
    with k have "\<exists>k j. txn_run E D (txn_conf_of t) k j (txn_conf_of t1)"
      unfolding txn_conf_of_def [of t] by simp
    with e Cons.prems(2) show ?thesis by simp
  next
    case False
    then have "t1 = t" using t1(1) by (auto simp: thread_step_def split: if_splits)
    then show ?thesis using txn_none Cons.prems(2) by blast
  qed
  with Cons.IH [OF t1(2)] txn_run_trans show ?case by blast
qed

text \<open>
  Every schedule of whole transactions, the order in which \<open>run_phase\<close> executes the run
  phase, is a run of the finer steps.
\<close>

theorem run_schedules_are_interleavings:
  assumes "run_schedule E D False sched
      \<lparr>th_todo = replicate nt per, th_oks = replicate nt 0, th_wl = w, th_rng = r,
       th_db = (db_Init D ^^ nt) s\<rparr> = Inr t"
  shows "\<exists>k j. txn_run E D (txn_start D nt per w r s) k j (txn_conf_of t)"
proof -
  have "txn_conf_of \<lparr>th_todo = replicate nt per, th_oks = replicate nt 0, th_wl = w, th_rng = r,
      th_db = (db_Init D ^^ nt) s\<rparr> = txn_start D nt per w r s"
    by (simp add: txn_conf_of_def txn_start_def)
  with txn_schedule_run [OF assms] show ?thesis by simp
qed

section \<open>The concurrent run\<close>

context kv_db
begin

text \<open>What holds of any run, deletes or not.\<close>

lemma run_goes_on:
  assumes "wl_ready E w" "ok s" "txn_run E D (txn_start D nt per w r s) k j c"
  shows "k \<le> txn_width (write_width w) * (nt * per) \<and> (never_rejects E w \<longrightarrow> j = 0) \<and>
    \<not> txn_endless E D c \<and>
    (\<forall>i < length (tc_threads c). tc_threads c ! i = Start 0 \<or> (\<exists>c'. txn_step E D i c c'))"
proof -
  have F: "False \<longrightarrow> present w (content s)" "False \<longrightarrow> keeps_records w" by simp_all
  note i = txn_start_inv [OF assms(1,2) F(1), of nt per r]
  note g = txn_run_good [OF assms(3) i F(2)]
  have "never_rejects E w \<longrightarrow> j = 0"
    using run_without_redraws [OF assms(3) i F(2)] by (simp add: txn_start_def)
  moreover have "\<not> txn_endless E D c" using accp_not_endless [OF run_stops [OF _ F(2)]] g by blast
  ultimately show ?thesis using g txn_can_step [OF _ F(2), of E "nt * per" c] by (auto simp: txn_start_left)
qed

lemma run_keeps_records:
  assumes "wl_ready E w" "ok s" "keeps_records w" "present w (content s)"
    and "txn_run E D (txn_start D nt per w r s) k j c"
  shows "sum_list (tc_oks c) + int (uncompleted c) = int (nt * per) \<and> present w (content (tc_db c))"
proof -
  have T: "True \<longrightarrow> present w (content s)" "True \<longrightarrow> keeps_records w" using assms(3,4) by simp_all
  from txn_run_good [OF assms(5) txn_start_inv [OF assms(1,2) T(1)] T(2)] show ?thesis
    by (simp add: run_inv_def run_state_def)
qed

end

text \<open>
  C7: the run phase with its threads interleaved draw by draw, where each call of a
  generator (so each round of the loop of \<open>NextTransactionKey\<close> separately), each \<open>rand()\<close>
  and each database call is one atomic step.  On a workload that is ready (draws in the
  unit interval, a padding that fits, a mix whose weights cover the unit interval, a key
  chooser whose loop ends when it draws alone, constant field lengths, uniform scan
  lengths that fit an \<open>int\<close>) and over a store that meets \<open>lsm_laws\<close>, after any steps in any
  order: no thread has thrown, failed an assertion or got stuck, and every thread that is
  not done can step; there is no infinite run, so the threads all finish, although other
  threads may take the draws that a waiting loop needs; apart from rejected draws of keys
  there have been at most \<open>2 F + 6\<close> steps per transaction, for records of \<open>F \<ge> 1\<close> fields;
  and no draw of a key has been rejected if the chooser only draws existing keys.  If
  nothing is deleted, no value is empty and the records of the load are there, then every
  completed transaction has succeeded and the records are still there.
\<close>

theorem concurrent_run_succeeds:
  assumes "lsm_laws A content valid" "valid s" "D = split_db A \<or> D = unified_db A"
    and "wl_ready E w" "txn_run E D (txn_start D nt per w r s) k j cf"
  shows "k \<le> txn_width (write_width w) * (nt * per) \<and> (never_rejects E w \<longrightarrow> j = 0) \<and>
    \<not> txn_endless E D cf \<and>
    (\<forall>i < length (tc_threads cf). tc_threads cf ! i = Start 0 \<or> (\<exists>c'. txn_step E D i cf c')) \<and>
    (DELETE \<in> mix_ops w \<or> \<not> nonempty_values w \<or> \<not> present w (content s) \<or>
      sum_list (tc_oks cf) + int (uncompleted cf) = int (nt * per) \<and> present w (content (tc_db cf)))"
proof -
  have D: "D = split_db A" using assms(3) unified_is_split by auto
  have ok: "lsm_laws A content valid \<and> valid s" using assms(1,2) by simp
  from split_i.run_goes_on [OF assms(4) ok assms(5) [unfolded D]]
    split_i.run_keeps_records [OF assms(4) ok _ _ assms(5) [unfolded D]]
  show ?thesis by (auto simp: D split_i.keeps_records_def mix_ops_def)
qed

section \<open>Two threads\<close>

text \<open>Three records are loaded; then two threads run a transaction each, interleaved.\<close>

lemma small_loaded:
  "\<exists>w s. wl_ready (sample_env (Fin 0)) w \<and> list_valid s \<and> DELETE \<notin> mix_ops w \<and>
     nonempty_values w \<and> present w (map_of s)"
proof -
  let ?E = "sample_env (Fin 0)"
  obtain w r' where i: "Init ?E (op_props sample_opts) workload_new \<lparr>canon_pos = 0, crand_pos = 0\<rparr> = Inr (w, r')"
    using sample_Init by blast
  note p = sample_ready [OF i] plain_keeps [OF i sample_deletes]
  have w: "wl_ready ?E w" "nonempty_values w" "DELETE \<notin> fst ` set (d_values (w_op_chooser w))"
    "w_key_generator w = Counter_Gen (counter_new 0)" "w_insert_key_sequence w = counter_new (of_nat 3)"
    using p by simp_all
  have "\<exists>w1 r1 s1. run_phase ?E (split_db list_store) True (int 3) 3 [] w r' [] = Inr (int 3, w1, r1, s1) \<and>
    wl_ready ?E w1 \<and> (lsm_laws list_store map_of list_valid \<and> list_valid s1) \<and>
    split_i.keeps_records w1 \<and> present w1 (map_of s1)"
    by (rule split_i.load_ready [OF w _ _ small_store(1)]) simp_all
  then show ?thesis by (auto simp: split_i.keeps_records_def mix_ops_def)
qed

theorem concurrent_run_succeeds_witness:
  "\<exists>w r s k j cf. wl_ready (sample_env (Fin 0)) w \<and>
     txn_run (sample_env (Fin 0)) (split_db list_store) (txn_start (split_db list_store) 2 1 w r s) k j cf \<and>
     k \<le> txn_width (write_width w) * 2 \<and> (\<forall>t \<in> set (tc_threads cf). t = Start 0) \<and>
     sum_list (tc_oks cf) = 2 \<and> present w (map_of (tc_db cf))"
proof -
  let ?E = "sample_env (Fin 0)" and ?D = "split_db list_store"
  define r where "r = \<lparr>canon_pos = 0, crand_pos = 0\<rparr>"
  obtain w s where w: "wl_ready ?E w" "list_valid s" "DELETE \<notin> mix_ops w" "nonempty_values w"
    "present w (map_of s)" using small_loaded by (elim exE conjE) (rule that)
  have ok: "lsm_laws list_store map_of list_valid \<and> list_valid s" using list_store_laws w(2) by simp
  have F: "False \<longrightarrow> split_i.keeps_records w" "False \<longrightarrow> present w (map_of s)" by simp_all
  obtain k j cf where k: "txn_run ?E ?D (txn_start ?D 2 1 w r s) k j cf" "\<forall>t \<in> set (tc_threads cf). t = Start 0"
    using split_i.txn_completes [OF split_i.txn_start_inv [OF w(1) ok F(2), of 2 1 r] F(1)] by metis
  have "uncompleted cf = 0" using k(2) by (auto simp: uncompleted_def)
  with concurrent_run_succeeds [OF list_store_laws w(2) small_store(3) w(1) k(1)] w(3-5)
  have "k \<le> txn_width (write_width w) * 2" "sum_list (tc_oks cf) = 2" "present w (map_of (tc_db cf))" by simp_all
  with k w(1) show ?thesis by (intro exI conjI)
qed

theorem run_schedules_are_interleavings_witness:
  "\<exists>w r s t k j. wl_ready (sample_env (Fin 0)) w \<and>
     run_schedule (sample_env (Fin 0)) (split_db list_store) False [1, 0]
       \<lparr>th_todo = [1, 1], th_oks = [0, 0], th_wl = w, th_rng = r, th_db = s\<rparr> = Inr t \<and>
     txn_run (sample_env (Fin 0)) (split_db list_store)
       (txn_start (split_db list_store) 2 1 w r s) k j (txn_conf_of t)"
proof -
  let ?E = "sample_env (Fin 0)" and ?D = "split_db list_store"
  define r where "r = \<lparr>canon_pos = 0, crand_pos = 0\<rparr>"
  obtain w s where w: "wl_ready ?E w" "list_valid s"
    using small_loaded by (elim exE conjE) (rule that)
  have inits: "(db_Init ?D ^^ n) s = s" for n s
    by (induction n) (simp_all add: split_db_def)
  define t0 where "t0 = \<lparr>th_todo = replicate 2 1, th_oks = replicate 2 0, th_wl = w, th_rng = r,
    th_db = (db_Init ?D ^^ 2) s\<rparr>"
  have i: "split_i.run_state map_of list_store list_valid ?E False w 0 (th_wl t0) (th_rng t0) (th_db t0)"
    using w list_store_laws unfolding split_i.run_state_def by (simp add: t0_def inits)
  have l: "length (th_oks t0) = length (th_todo t0)" "0 + sum_list (th_todo t0) = 2"
    "False \<longrightarrow> sum_list (th_oks t0) = int 0" "False \<longrightarrow> split_i.keeps_records w"
    by (simp_all add: t0_def sum_list_replicate)
  obtain t where t: "run_schedule ?E ?D False [1, 0] t0 = Inr t"
    using run_schedule_run [OF split_i.run_step [OF l(4)] i l(1-3), of "[1, 0]"] by blast
  obtain k j where "txn_run ?E ?D (txn_start ?D 2 1 w r s) k j (txn_conf_of t)"
    using run_schedules_are_interleavings [OF t [unfolded t0_def]] by blast
  moreover have "t0 = \<lparr>th_todo = [1, 1], th_oks = [0, 0], th_wl = w, th_rng = r, th_db = s\<rparr>"
    unfolding t0_def inits by (simp add: numeral_2_eq_2)
  ultimately show ?thesis using t w(1) by (intro exI conjI) simp_all
qed

end
