(* ===== verification/Concurrent_Main.thy ===== *)
theory Concurrent_Main
  imports Concurrent_Run
begin

text \<open>
  The phases of \<open>main\<close> one after the other, each with its threads interleaved step by
  step: \<open>Init\<close>, the load, and the run on what the load left behind.
\<close>

section \<open>What a finished load leaves\<close>

context kv_db
begin

lemma load_keeps_ready:
  assumes "wl_ready E w" "w_key_generator w = Counter_Gen c0" "ok s"
    and "load_run E D (load_start D nt per w r s) as c"
  shows "wl_ready E (lc_wl c)" "ok (lc_db c)" "same_run w (lc_wl c)"
  using load_inv_run [OF assms(4) load_inv_start [OF assms(1-3)]] unfolding load_inv_def by blast+

lemma load_leaves:
  assumes "wl_ready E w" "nonempty_values w" "DELETE \<notin> fst ` set (d_values (w_op_chooser w))"
    and "w_key_generator w = Counter_Gen (counter_new 0)" "w_insert_key_sequence w = counter_new (of_nat n)"
    and "1 \<le> n" "n \<le> 2147483647" "ok s" "nt * per = n"
    and "load_run E D (load_start D nt per w r s) as c" "load_done c"
  shows "sum_list (lc_oks c) = int n" "wl_ready E (lc_wl c)" "ok (lc_db c)" "keeps_records (lc_wl c)"
    and "present (lc_wl c) (content (lc_db c))"
proof -
  have inv: "load_inv E w 0 (content s) n as c"
    using load_inv_run [OF assms(10) load_inv_start [OF assms(1,4,8)]] assms(9) by (simp add: counter_new_def)
  then have l: "wl_ready E (lc_wl c)" "same_run w (lc_wl c)" "ok (lc_db c)"
    unfolding load_inv_def by blast+
  note e = load_end [OF inv assms(11)]
  show "sum_list (lc_oks c) = int n" "wl_ready E (lc_wl c)" "ok (lc_db c)" using e l by simp_all
  have "present w (content (lc_db c))" using loaded_present [OF assms(5-7,2)] e by blast
  then show "present (lc_wl c) (content (lc_db c))" using same_run_present [OF l(2)] by simp
  show "keeps_records (lc_wl c)"
    using assms(2,3) l(2) same_run_values [OF l(2)] by (simp add: keeps_records_def nonempty_values_def same_run_def)
qed

end

section \<open>Load and run\<close>

lemma concurrent_phases:
  assumes "plain_props p n" "draws_ok E" "requests_ok E p n"
    and "stod (GetProperty p DELETE_PROPORTION_PROPERTY DELETE_PROPORTION_DEFAULT) = Inr dp" "\<not> 0 < dp"
    and "lsm_laws A content valid" "valid s" "D = split_db A \<or> D = unified_db A"
    and "Init E p workload_new r = Inr (w, r')" "nt * per = n"
    and "load_run E D (load_start D nt per w r' s) as c1" "load_done c1"
    and "txn_run E D (txn_start D nt ops (lc_wl c1) (lc_rng c1) (lc_db c1)) k j c2"
  shows "sum_list (lc_oks c1) = int n \<and> k \<le> txn_width (write_width w) * (nt * ops) \<and>
    \<not> txn_endless E D c2 \<and>
    (\<forall>i < length (tc_threads c2). tc_threads c2 ! i = Start 0 \<or> (\<exists>c'. txn_step E D i c2 c')) \<and>
    sum_list (tc_oks c2) + int (uncompleted c2) = int (nt * ops) \<and>
    present (lc_wl c1) (content (tc_db c2))"
proof -
  have D: "D = split_db A" using assms(8) unified_is_split by auto
  have w: "wl_ready E w" "nonempty_values w" "w_key_generator w = Counter_Gen (counter_new 0)"
    "w_insert_key_sequence w = counter_new (of_nat n)"
    using plain_ready [OF assms(1,9,2,3)] by simp_all
  have n: "1 \<le> n" "n \<le> 2147483647" using assms(1) by (simp_all add: plain_props_def)
  have ok: "lsm_laws A content valid \<and> valid s" using assms(6,7) by simp
  note l = split_i.load_leaves [OF w(1,2) plain_keeps [OF assms(9,4,5)] w(3,4) n ok assms(10,11) [unfolded D] assms(12)]
  have "write_width (lc_wl c1) = write_width w"
    using same_run_values [OF split_i.load_keeps_ready(3) [OF w(1,3) ok assms(11) [unfolded D]]]
    by (simp add: write_width_def)
  with split_i.run_goes_on [OF l(2,3) assms(13) [unfolded D]]
    split_i.run_keeps_records [OF l(2-5) assms(13) [unfolded D]] l(1)
  show ?thesis by (simp add: D)
qed

text \<open>
  C6: the phases together on a plain property file that deletes nothing.  Hypotheses: the
  file is plain (a decimal record count of at least 1, the insert start 0, one of the
  shipped mixes, constant field lengths, uniform scan lengths), its requests satisfy
  \<open>requests_ok\<close> (uniform; or Zipf with the constants of \<open>requests_ok\<close>, where room for inserts
  needs the hottest key to be loaded and draws of it to recur; or latest), random doubles
  lie in the unit interval, the store meets \<open>lsm_laws\<close>, and the number of threads divides
  the record count.  After \<open>Init\<close>, after any interleaving of the load that has finished
  (its threads interleaved between fetching a key, building its record and storing it),
  and after any steps, in any order, of the threads of the run on what the load left
  (each call of a generator, each \<open>rand()\<close> and each database call one step): the load has
  stored \<open>recordcount\<close> records; the run has taken at most \<open>2 F + 6\<close> steps per transaction,
  rejected draws of keys not counted, for records of \<open>F \<ge> 1\<close> fields; it cannot go on for
  ever, and every thread that is not done can step, so none throws or gets stuck; all
  transactions completed so far have succeeded; and the records are all still there.
\<close>

theorem concurrent_load_then_run:
  assumes "plain_props p n" "draws_ok E" "requests_ok E p n"
    and "stod (GetProperty p DELETE_PROPORTION_PROPERTY DELETE_PROPORTION_DEFAULT) = Inr dp" "\<not> 0 < dp"
    and "lsm_laws A content valid" "valid s" "D = split_db A \<or> D = unified_db A"
    and "Init E p workload_new r = Inr (w, r')" "nt * per = n"
    and "load_run E D (load_start D nt per w r' s) as c1" "load_done c1"
    and "txn_run E D (txn_start D nt ops (lc_wl c1) (lc_rng c1) (lc_db c1)) k j c2"
  shows "sum_list (lc_oks c1) = int n \<and> k \<le> txn_width (write_width w) * (nt * ops) \<and>
    \<not> txn_endless E D c2 \<and>
    (\<forall>i < length (tc_threads c2). tc_threads c2 ! i = Start 0 \<or> (\<exists>c'. txn_step E D i c2 c')) \<and>
    sum_list (tc_oks c2) + int (uncompleted c2) = int (nt * ops) \<and>
    present (lc_wl c1) (content (tc_db c2))"
  by (rule concurrent_phases [OF assms])

section \<open>Three threads\<close>

theorem concurrent_load_then_run_witness:
  "\<exists>w r' as c1 k j c2.
     Init (sample_env (Fin 0)) (op_props sample_opts) workload_new \<lparr>canon_pos = 0, crand_pos = 0\<rparr> = Inr (w, r') \<and>
     load_run (sample_env (Fin 0)) (split_db list_store) (load_start (split_db list_store) 3 1 w r' []) as c1 \<and>
     load_done c1 \<and> sum_list (lc_oks c1) = 3 \<and>
     txn_run (sample_env (Fin 0)) (split_db list_store)
       (txn_start (split_db list_store) 3 2 (lc_wl c1) (lc_rng c1) (lc_db c1)) k j c2 \<and>
     sum_list (tc_oks c2) = 6 \<and> present (lc_wl c1) (map_of (tc_db c2))"
proof -
  let ?E = "sample_env (Fin 0)" and ?D = "split_db list_store" and ?r = "\<lparr>canon_pos = 0, crand_pos = 0\<rparr>"
  obtain w r' where i: "Init ?E (op_props sample_opts) workload_new ?r = Inr (w, r')" using sample_Init by blast
  have w: "wl_ready ?E w" "nonempty_values w" "w_key_generator w = Counter_Gen (counter_new 0)"
    "w_insert_key_sequence w = counter_new (of_nat 3)" using sample_ready [OF i] by simp_all
  obtain as c1 where l: "load_run ?E ?D (load_start ?D 3 1 w r' []) as c1" "load_done c1"
    using split_i.run_to_end [OF w(1,3) small_store(1)] by blast
  have three: "(1 :: nat) \<le> 3" "(3 :: nat) \<le> 2147483647" "3 * 1 = (3 :: nat)" by simp_all
  note lv = split_i.load_leaves [OF w(1,2) plain_keeps [OF i sample_deletes] w(3,4) three(1,2) small_store(1) three(3) l]
  have F: "False \<longrightarrow> split_i.keeps_records (lc_wl c1)" "False \<longrightarrow> present (lc_wl c1) (map_of (lc_db c1))" by simp_all
  obtain k j c2 where k: "txn_run ?E ?D (txn_start ?D 3 2 (lc_wl c1) (lc_rng c1) (lc_db c1)) k j c2"
    "\<forall>t \<in> set (tc_threads c2). t = Start 0"
    using split_i.txn_completes [OF split_i.txn_start_inv [OF lv(2,3) F(2), of 3 2 "lc_rng c1"] F(1)] by metis
  have "uncompleted c2 = 0" using k(2) by (auto simp: uncompleted_def)
  with concurrent_load_then_run [OF sample_plain sample_draws_ok sample_requests sample_deletes list_store_laws
      small_store(2,3) i three(3) l k(1)]
  have "sum_list (lc_oks c1) = 3" "sum_list (tc_oks c2) = 6" "present (lc_wl c1) (map_of (tc_db c2))" by simp_all
  with i l k(1) show ?thesis by (intro exI conjI)
qed

end
