(* ===== verification/Concurrent_Shipped.thy ===== *)
theory Concurrent_Shipped
  imports Engine_Runs Concurrent_Main
begin

text \<open>
  The shipped workload files with the threads interleaved step by step, on the engine of
  the GNU C++ library.
\<close>

section \<open>Both phases, deletes included\<close>

context kv_db
begin

lemma interleaved_phases:
  assumes "wl_ready E w" "nonempty_values w" "w_key_generator w = Counter_Gen (counter_new 0)"
    and "w_insert_key_sequence w = counter_new (of_nat n)" "1 \<le> n" "n \<le> 2147483647" "ok s"
    and "load_run E D (load_start D nt (n div nt) w r s) as c1"
  shows "(load_done c1 \<or> (\<exists>a c'. load_step E D c1 a c')) \<and>
    (load_done c1 \<longrightarrow> sum_list (lc_oks c1) = int (nt * (n div nt)) \<and>
      (\<forall>k j c2. txn_run E D (txn_start D nt (n div nt) (lc_wl c1) (lc_rng c1) (lc_db c1)) k j c2 \<longrightarrow>
        k \<le> txn_width (write_width w) * (nt * (n div nt)) \<and> \<not> txn_endless E D c2 \<and>
        (\<forall>i < length (tc_threads c2). tc_threads c2 ! i = Start 0 \<or> (\<exists>c'. txn_step E D i c2 c')) \<and>
        (nt dvd n \<and> DELETE \<notin> mix_ops w \<longrightarrow> sum_list (tc_oks c2) + int (uncompleted c2) = int n)))"
proof (intro conjI impI allI)
  note run = run_ends [OF assms(1,3,7,8)]
  show "load_done c1 \<or> (\<exists>a c'. load_step E D c1 a c')" using run by blast
  show "sum_list (lc_oks c1) = int (nt * (n div nt))" if "load_done c1" using run that by blast
  fix k j c2 assume dn: "load_done c1"
    and x: "txn_run E D (txn_start D nt (n div nt) (lc_wl c1) (lc_rng c1) (lc_db c1)) k j c2"
  note ready = load_keeps_ready [OF assms(1,3,7,8)]
  note g = run_goes_on [OF ready(1,2) x]
  have "write_width (lc_wl c1) = write_width w"
    using same_run_values [OF ready(3)] by (simp add: write_width_def)
  then show "k \<le> txn_width (write_width w) * (nt * (n div nt))" using g by simp
  show "\<not> txn_endless E D c2" using g by blast
  show "tc_threads c2 ! i = Start 0 \<or> (\<exists>c'. txn_step E D i c2 c')" if "i < length (tc_threads c2)" for i
    using g that by blast
  assume nd: "nt dvd n \<and> DELETE \<notin> mix_ops w"
  then have per: "nt * (n div nt) = n" and del: "DELETE \<notin> fst ` set (d_values (w_op_chooser w))"
    by (simp_all add: mix_ops_def)
  note lv = load_leaves [OF assms(1,2) del assms(3-7) per assms(8) dn]
  from run_keeps_records [OF lv(2-5) x]
  show "sum_list (tc_oks c2) + int (uncompleted c2) = int n" by (simp add: per)
qed

end

section \<open>The files\<close>

lemma file_ready:
  assumes "(f, items) \<in> set shipped_files" "db \<in> {''splitlsm'', ''unifiedlsm''}"
    and "canon E = engine_draw" "pow_close E" "pow_unit E"
  obtains n where "items_map items ''recordcount'' = Some (dec_string n)"
    "items_map items ''operationcount'' = Some (dec_string n)"
    "plain_props (file_props db t items path) n" "requests_ok E (file_props db t items path) n"
proof -
  obtain n len mix d where c: "core_fits items n len mix d" using shipped_fit [OF assms(1)] by blast
  obtain title rest where i: "items = core_file title (dec_string n) len mix rest"
    "rest \<in> {requests d, scan_requests d}" using core_fits_items [OF c] .
  have "items_map items ''recordcount'' = Some (dec_string n)" "items_map items ''operationcount'' = Some (dec_string n)"
    using i(2) by (auto simp: items_map_def i(1) core_file_def requests_def scan_requests_def)
  moreover have "requests_ok E (file_props db t items path) n"
    by (rule file_requests [OF c assms(2,5)])
      (use pow_close_ratio [OF assms(4,5)] engine_head_recurs [OF assms(3,4)] in simp_all)
  ultimately show ?thesis using that file_plain [OF c assms(2)] by blast
qed

text \<open>
  C3: each of the 18 workload files, on either store, with any number of threads.  The
  random doubles are those of the default engine of the GNU library, of \<open>std::pow\<close> it is
  assumed that it stays in the unit interval on it and is within one percent, and the
  store meets \<open>lsm_laws\<close>.  The threads of the load are interleaved between fetching a key,
  building its record and storing it, those of the run between any two calls of a
  generator, of \<open>rand()\<close> or of the database, so also inside the loop of
  \<open>NextTransactionKey\<close>; each such call is atomic.  Then \<open>Init\<close> succeeds; the load never
  gets stuck, and when it is done every insert has succeeded; the run never throws, fails
  an assertion or gets stuck, every thread that is not done can step, and no order of the
  steps goes on for ever, although the loops compete for draws; apart from rejected draws
  of keys it takes at most \<open>2 F + 6\<close> steps per transaction, for records of \<open>F \<ge> 1\<close> fields; if
  the threads share the records evenly and the file has no deletes, every completed
  transaction has succeeded.
\<close>

theorem shipped_files_interleaved:
  assumes "(f, items) \<in> set shipped_files" "db \<in> {''splitlsm'', ''unifiedlsm''}"
    and "canon E = engine_draw" "pow_close E" "pow_unit E"
    and "lsm_laws A content valid" "valid s" "D = split_db A \<or> D = unified_db A"
  shows "\<exists>n w r'. items_map items ''recordcount'' = Some (dec_string n) \<and>
    items_map items ''operationcount'' = Some (dec_string n) \<and>
    Init E (file_props db t items path) workload_new r = Inr (w, r') \<and>
    (\<forall>as c1. load_run E D (load_start D nt (n div nt) w r' s) as c1 \<longrightarrow>
      (load_done c1 \<or> (\<exists>a c'. load_step E D c1 a c')) \<and>
      (load_done c1 \<longrightarrow>
        sum_list (lc_oks c1) = int (nt * (n div nt)) \<and>
        (\<forall>k j c2. txn_run E D (txn_start D nt (n div nt) (lc_wl c1) (lc_rng c1) (lc_db c1)) k j c2 \<longrightarrow>
          k \<le> txn_width (write_width w) * (nt * (n div nt)) \<and> \<not> txn_endless E D c2 \<and>
          (\<forall>i < length (tc_threads c2). tc_threads c2 ! i = Start 0 \<or> (\<exists>c'. txn_step E D i c2 c')) \<and>
          (nt dvd n \<and> DELETE \<notin> mix_ops w \<longrightarrow> sum_list (tc_oks c2) + int (uncompleted c2) = int n))))"
proof -
  have D: "D = split_db A" using assms(8) unified_is_split by auto
  have ok: "lsm_laws A content valid \<and> valid s" using assms(6,7) by simp
  obtain n where n: "items_map items ''recordcount'' = Some (dec_string n)"
    "items_map items ''operationcount'' = Some (dec_string n)"
    "plain_props (file_props db t items path) n" "requests_ok E (file_props db t items path) n"
    by (rule file_ready [OF assms(1-5)])
  note e = engine_ok [OF assms(3)]
  obtain w r' where i: "Init E (file_props db t items path) workload_new r = Inr (w, r')"
    using plain_Init [OF n(3,4) e] by blast
  have w: "wl_ready E w" "nonempty_values w" "w_key_generator w = Counter_Gen (counter_new 0)"
    "w_insert_key_sequence w = counter_new (of_nat n)" using plain_ready [OF n(3) i e n(4)] by simp_all
  have n1: "1 \<le> n" "n \<le> 2147483647" using n(3) by (simp_all add: plain_props_def)
  show ?thesis by (intro exI conjI, rule n(1), rule n(2), rule i) (use split_i.interleaved_phases [OF w n1 ok, folded D] in blast)
qed

section \<open>Four threads\<close>

text \<open>A whole run of the scan workload: the load to its end, then the transactions to theirs.\<close>

theorem shipped_files_interleaved_witness:
  "\<exists>w r' as c1 k j c2.
     Init engine_env (file_props ''splitlsm'' ''4'' workloade_16kb ''x'') workload_new
       \<lparr>canon_pos = 0, crand_pos = 0\<rparr> = Inr (w, r') \<and>
     load_run engine_env (split_db list_store) (load_start (split_db list_store) 4 1638400 w r' []) as c1 \<and>
     load_done c1 \<and> sum_list (lc_oks c1) = 6553600 \<and>
     txn_run engine_env (split_db list_store)
       (txn_start (split_db list_store) 4 1638400 (lc_wl c1) (lc_rng c1) (lc_db c1)) k j c2 \<and>
     (\<forall>t \<in> set (tc_threads c2). t = Start 0) \<and> k \<le> txn_width (write_width w) * 6553600"
proof -
  let ?E = engine_env and ?D = "split_db list_store" and ?r = "\<lparr>canon_pos = 0, crand_pos = 0\<rparr>"
  let ?p = "file_props ''splitlsm'' ''4'' workloade_16kb ''x''"
  have db: "''splitlsm'' \<in> {''splitlsm'', ''unifiedlsm''}" by simp
  note e = engine_env_ok
  note all = shipped_files_interleaved [OF workloade_16kb_shipped db e list_store_laws small_store(2,3),
      of "''4''" "''x''" ?r 4]
  obtain n w r' where n: "items_map workloade_16kb ''recordcount'' = Some (dec_string n)"
    "Init ?E ?p workload_new ?r = Inr (w, r')"
    and run: "\<And>as c1 k j c2. load_run ?E ?D (load_start ?D 4 (n div 4) w r' []) as c1 \<Longrightarrow> load_done c1 \<Longrightarrow>
        sum_list (lc_oks c1) = int (4 * (n div 4)) \<and>
        (txn_run ?E ?D (txn_start ?D 4 (n div 4) (lc_wl c1) (lc_rng c1) (lc_db c1)) k j c2 \<longrightarrow>
          k \<le> txn_width (write_width w) * (4 * (n div 4)))"
    using all by blast
  have "n = 6553600" using n(1) by (simp only: workloade_16kb_records)
  then have q: "n div 4 = 1638400" by simp
  obtain m where m: "plain_props ?p m" "requests_ok ?E ?p m"
    by (rule file_ready [OF workloade_16kb_shipped db e])
  have w: "wl_ready ?E w" "w_key_generator w = Counter_Gen (counter_new 0)"
    using plain_ready [OF m(1) n(2) engine_ok [OF e(1)] m(2)] by simp_all
  obtain as c1 where l: "load_run ?E ?D (load_start ?D 4 1638400 w r' []) as c1" "load_done c1"
    using split_i.run_to_end [OF w small_store(1)] by blast
  note rd = split_i.load_keeps_ready [OF w small_store(1) l(1)]
  have F: "False \<longrightarrow> present (lc_wl c1) (map_of (lc_db c1))" "False \<longrightarrow> split_i.keeps_records (lc_wl c1)" by simp_all
  obtain k j c2 where k: "txn_run ?E ?D (txn_start ?D 4 1638400 (lc_wl c1) (lc_rng c1) (lc_db c1)) k j c2"
    "\<forall>t \<in> set (tc_threads c2). t = Start 0"
    using split_i.txn_completes [OF split_i.txn_start_inv [OF rd(1,2) F(1), of 4 1638400 "lc_rng c1"] F(2)]
    by metis
  from run [unfolded q, OF l, of k j c2] k(1)
  have "sum_list (lc_oks c1) = 6553600" "k \<le> txn_width (write_width w) * 6553600" by simp_all
  with n(2) l k show ?thesis by (intro exI conjI)
qed

end
