(* ===== verification/Client_Reads.thy ===== *)
theory Client_Reads
  imports Concurrent_Load
begin

text \<open>
  What the client reads: the field it asks for, and the keys, in a run of transactions.
\<close>

section \<open>Fields\<close>

lemma digit_not_f: "is_digit CHR ''f'' = False"
  by code_simp

lemma doubled_field: "''field'' @ ''field'' @ s \<noteq> ''field'' @ dec_string i"
proof
  assume "''field'' @ ''field'' @ s = ''field'' @ dec_string i"
  then have "CHR ''f'' \<in> set (dec_string i)" by (metis append_Cons list.set_intros(1) same_append_eq)
  then show False using dec_string_digits digit_not_f by blast
qed

lemma values_loop_names:
  "values_loop E is kvs w r = Inr (kvs', w', r') \<Longrightarrow>
   map fst kvs' = map fst kvs @ map (\<lambda>i. ''field'' @ dec_string i) is"
  by (induction "is" arbitrary: kvs w r) (auto simp: bind_r_eq_Inr)

text \<open>
  C40: a client that does not read all fields asks for a field that no record has: the
  name it passes to the database is none of those that \<open>BuildValues\<close> writes, since the
  prefix \<open>field\<close> is in front of it twice.
\<close>

theorem chosen_field_never_written:
  assumes "choose_fields E w r = Inr (Some fs, w1, r1)" "BuildValues E [] w' r' = Inr (kvs, w2, r2)"
  shows "set fs \<inter> fst ` set kvs = {} \<and> length fs = 1"
proof -
  obtain n :: u64 where f: "fs = [''field'' @ ''field'' @ dec_string (unat n)]"
    using assms(1) by (auto simp: choose_fields_def NextFieldName_def bind_r_eq_Inr split: if_splits)
  have k: "map fst kvs = map (\<lambda>i. ''field'' @ dec_string i) [0..<nat (w_field_count w')]"
    using values_loop_names [OF assms(2) [unfolded BuildValues_def]] by simp
  have "fst ` set kvs = set (map fst kvs)" by simp
  then have "fst ` set kvs = (\<lambda>i. ''field'' @ dec_string i) ` {0..<nat (w_field_count w')}"
    unfolding k by simp
  then show ?thesis using f doubled_field by auto
qed

section \<open>Keys\<close>

lemma delegate_settings:
  "delegate_loop E D False n oks w r s = Inr (oks', w', r', s') \<Longrightarrow> settings w' = settings w"
  by (induction n arbitrary: oks w r s) (auto simp: bind_r_eq_Inr dest!: DoTransaction_settings)

text \<open>
  no transaction ever picks a key that was inserted by a transaction: however many
  transactions have run, the keys they pick are those of numbers not beyond the newest
  key of the load, because nothing advances \<open>insert_key_sequence_\<close>.
\<close>

theorem run_inserts_never_read:
  assumes "delegate_loop E D False n 0 w r s = Inr (oks, w', r', s')"
    and "NextTransactionKey E w' r1 = Inr (key, w2, r2)"
    and "w_ordered_inserts w" "padding_ok w" "counter_last (w_insert_key_sequence w) < k"
  shows "BuildKeyName w k \<noteq> Inr key"
proof
  assume k: "BuildKeyName w k = Inr key"
  have st: "settings w' = settings w" using delegate_settings [OF assms(1)] .
  obtain m g where m: "key_loop E (w_insert_key_sequence w') (w_key_chooser w') r1 = Some (Inr (m, g, r2))"
    "BuildKeyName w' m = Inr key"
    using assms(2) by (auto simp: NextTransactionKey_def bind_r_eq_Inr split: option.splits)
  have "m \<le> counter_last (w_insert_key_sequence w')"
    using key_loop_Some [OF m(1)] by auto
  moreover have "w_insert_key_sequence w' = w_insert_key_sequence w" using st by (simp add: settings_def)
  moreover have "BuildKeyName w m = Inr key"
    using m(2) BuildKeyName_cong [of w w' m] st by (simp add: settings_def)
  then have "m = k" using key_name_eq_iff [OF assms(4), of m k] k assms(3) by simp
  ultimately show False using assms(5) by simp
qed

section \<open>A small client\<close>

context kv_db
begin

lemma delegate_ready:
  "wl_ready E w \<Longrightarrow> ok s \<Longrightarrow>
   \<exists>oks' w' r' s'. delegate_loop E D False n oks w r s = Inr (oks', w', r', s') \<and> wl_ready E w' \<and> ok s'"
proof (induction n arbitrary: oks w r s)
  case (Suc n)
  obtain b w1 r1 s1 where "DoTransaction E D w r s = Inr (b, w1, r1, s1)" "wl_ready E w1" "ok s1"
    using DoTransaction_good [OF Suc.prems, of r] by blast
  with Suc.IH show ?case by simp
qed simp

end

theorem chosen_field_never_written_witness:
  "\<exists>w r f w1 r1 kvs w2 r2. choose_fields (sample_env (Fin 0)) w r = Inr (Some [f], w1, r1) \<and>
     BuildValues (sample_env (Fin 0)) [] w r = Inr (kvs, w2, r2) \<and> f \<notin> fst ` set kvs \<and> kvs \<noteq> []"
proof -
  let ?E = "sample_env (Fin 0)" and ?r = "\<lparr>canon_pos = 0, crand_pos = 0\<rparr>"
  obtain w0 r0 where "Init ?E (op_props sample_opts) workload_new ?r = Inr (w0, r0)"
    using sample_Init by blast
  then have w0: "wl_ready ?E w0" "nonempty_values w0"
    using sample_ready by blast+
  define w where "w = w0\<lparr>w_read_all_fields := False\<rparr>"
  have w: "wl_ready ?E w" "nonempty_values w" "\<not> w_read_all_fields w"
    using w0 by (simp_all add: w_def wl_ready_def padding_ok_def nonempty_values_def value_len_def)
  obtain fs w1 r1 where f: "choose_fields ?E w ?r = Inr (fs, w1, r1)"
    using choose_fields_ready [OF w(1)] by blast
  then obtain g where g: "fs = Some [g]" using w(3) by (auto simp: choose_fields_def bind_r_eq_Inr)
  obtain kvs r2 where k: "BuildValues ?E [] w ?r = Inr (kvs, w, r2)"
    "1 \<le> w_field_count w \<longrightarrow> length (first_value kvs) = value_len w"
    using BuildValues_ready [OF w(1)] by blast
  have "kvs \<noteq> []" using k(2) w(2) by (auto simp: nonempty_values_def first_value_def)
  moreover have "g \<notin> fst ` set kvs"
    using chosen_field_never_written [OF f [unfolded g] k(1)] by simp
  ultimately show ?thesis using f g k(1) by blast
qed

theorem run_inserts_never_read_witness:
  "\<exists>w r oks w' r' s' key w2 r2 name.
     delegate_loop (sample_env (Fin 0)) (split_db list_store) False 2 0 w r [] = Inr (oks, w', r', s') \<and>
     NextTransactionKey (sample_env (Fin 0)) w' r' = Inr (key, w2, r2) \<and>
     BuildKeyName w 3 = Inr name \<and> name \<noteq> key"
proof -
  let ?E = "sample_env (Fin 0)" and ?r = "\<lparr>canon_pos = 0, crand_pos = 0\<rparr>" and ?D = "split_db list_store"
  obtain w0 r0 where i: "Init ?E (op_props sample_opts) workload_new ?r = Inr (w0, r0)"
    using sample_Init by blast
  then have w0: "wl_ready ?E w0" "w_insert_key_sequence w0 = counter_new 3"
    using sample_ready by force+
  define w where "w = w0\<lparr>w_ordered_inserts := True\<rparr>"
  have w: "wl_ready ?E w" "w_insert_key_sequence w = counter_new 3" "w_ordered_inserts w"
    using w0 by (simp_all add: w_def wl_ready_def padding_ok_def)
  obtain oks w' r' s' where d: "delegate_loop ?E ?D False 2 0 w ?r [] = Inr (oks, w', r', s')"
    "wl_ready ?E w'"
    using split_i.delegate_ready [OF w(1) small_store(1)] by blast
  obtain key w2 r2 where n: "NextTransactionKey ?E w' r' = Inr (key, w2, r2)"
    using NextTransactionKey_ready [OF d(2)] by blast
  have p: "padding_ok w" using w(1) by (simp add: wl_ready_def)
  obtain name where nm: "BuildKeyName w 3 = Inr name" using BuildKeyName_total [OF p] by blast
  have "counter_last (w_insert_key_sequence w) < 3" by (simp add: w(2) counter_last_def counter_new_def)
  from run_inserts_never_read [OF d(1) n w(3) p this] nm have "name \<noteq> key" by auto
  with d(1) n nm show ?thesis by blast
qed

end
