(* ===== verification/Hash_String.thy ===== *)
theory Hash_String
  imports Prelude "HOL-Library.AList" "HOL-Library.Multiset"
begin

text \<open>
  \<open>lib/string.h\<close> and \<open>lib/mem_alloc.h\<close>: C strings in memory, the allocator, and the class
  \<open>String\<close>, a pointer to a C string with its hash and length.
\<close>

section \<open>Memory\<close>

text \<open>
  A pointer is an address, 0 the null pointer.  Memory lists the C strings that can be
  read, each by the address of its first character and without its terminating NUL.
  Reading any other address is undefined.
\<close>

type_synonym addr = nat

type_synonym mem = "(addr \<times> string) list"

definition deref :: "mem \<Rightarrow> addr \<Rightarrow> stop + string" where
  "deref h a =
     (if a = 0 then Inl Undefined
      else case map_of h a of None \<Rightarrow> Inl Undefined | Some s \<Rightarrow> Inr s)"

text \<open>
  \<open>MemAlloc\<close> calls \<open>malloc\<close>, which picks the address: a parameter \<open>ma\<close> of the model, of which
  theorems assume that it returns a new address.  \<open>Copy\<close> fills the block at once.
\<close>

definition fresh_malloc :: "(mem \<Rightarrow> addr) \<Rightarrow> bool" where
  "fresh_malloc ma \<longleftrightarrow> (\<forall>h. ma h \<noteq> 0 \<and> map_of h (ma h) = None)"

definition MemAlloc_Malloc :: "(mem \<Rightarrow> addr) \<Rightarrow> mem \<Rightarrow> string \<Rightarrow> addr \<times> mem" where
  "MemAlloc_Malloc ma h s = (let a = ma h in (a, (a, s) # h))"

definition MemAlloc_Free :: "mem \<Rightarrow> addr \<Rightarrow> mem" where
  "MemAlloc_Free h a = AList.delete a h"

section \<open>The class \<open>String\<close>\<close>

record hstr =
  hs_hash :: u64
  hs_value :: addr
  hs_len :: u64

text \<open>A \<open>char\<close> is signed: \<open>c = *cstr++\<close> extends its sign to 64 bits.\<close>

definition char_to_u64 :: "char \<Rightarrow> u64" where
  "char_to_u64 c = scast (of_char c :: 8 word)"

definition sdbm_step :: "u64 \<Rightarrow> char \<Rightarrow> u64" where
  "sdbm_step hash c = char_to_u64 c + push_bit 6 hash + push_bit 16 hash - hash"

fun sdbm_loop :: "u64 \<Rightarrow> string \<Rightarrow> u64" where
  "sdbm_loop hash [] = hash"
| "sdbm_loop hash (c # cs) = sdbm_loop (sdbm_step hash c) cs"

definition SDBMHash :: "string \<Rightarrow> u64" where
  "SDBMHash cstr = sdbm_loop 0 cstr"

definition set_value :: "mem \<Rightarrow> addr \<Rightarrow> stop + hstr" where
  "set_value h v =
     bind_r (deref h v) (\<lambda>s. Inr \<lparr>hs_hash = SDBMHash s, hs_value = v, hs_len = of_nat (length s)\<rparr>)"

definition Copy :: "bool \<Rightarrow> (mem \<Rightarrow> addr) \<Rightarrow> mem \<Rightarrow> addr \<Rightarrow> stop + (hstr \<times> mem)" where
  "Copy nd ma h cstr =
     bind_r (cassert nd (cstr \<noteq> 0)) (\<lambda>_.
     bind_r (deref h cstr) (\<lambda>s.
     (let len = of_nat (length s); (str, h) = MemAlloc_Malloc ma h s in
     bind_r (set_value h str) (\<lambda>hstr.
     bind_r (cassert nd (hs_len hstr = len)) (\<lambda>_. Inr (hstr, h))))))"

definition Wrap :: "bool \<Rightarrow> mem \<Rightarrow> addr \<Rightarrow> stop + hstr" where
  "Wrap nd h cstr = bind_r (cassert nd (cstr \<noteq> 0)) (\<lambda>_. set_value h cstr)"

definition Free :: "mem \<Rightarrow> hstr \<Rightarrow> mem" where
  "Free h s = MemAlloc_Free h (hs_value s)"

definition hstr_eq :: "mem \<Rightarrow> hstr \<Rightarrow> hstr \<Rightarrow> stop + bool" where
  "hstr_eq h a b =
     (if hs_hash a \<noteq> hs_hash b then Inr False
      else bind_r (deref h (hs_value a)) (\<lambda>s. bind_r (deref h (hs_value b)) (\<lambda>t. Inr (s = t))))"

section \<open>Lemmas\<close>

lemma deref_Inr: "deref h a = Inr s \<longleftrightarrow> a \<noteq> 0 \<and> map_of h a = Some s"
  by (auto simp: deref_def split: option.splits)

lemma deref_not_0 [simp]: "deref h 0 = Inl Undefined"
  by (simp add: deref_def)

text \<open>A \<open>String\<close> that is up to date: it points to \<open>s\<close>, with its hash and length.\<close>

definition points_to :: "mem \<Rightarrow> hstr \<Rightarrow> string \<Rightarrow> bool" where
  "points_to h k s \<longleftrightarrow>
     deref h (hs_value k) = Inr s \<and> hs_hash k = SDBMHash s \<and> hs_len k = of_nat (length s)"

lemma points_to_unique: "points_to h k s \<Longrightarrow> points_to h k t \<Longrightarrow> s = t"
  by (simp add: points_to_def)

lemma Wrap_points:
  "deref h a = Inr s \<Longrightarrow> \<exists>k. Wrap nd h a = Inr k \<and> points_to h k s \<and> hs_value k = a"
  by (cases "a = 0") (simp_all add: Wrap_def set_value_def points_to_def)

lemma Wrap_null: "Wrap nd h 0 = Inl (if nd then Undefined else Assert_Fail)"
  by (simp add: Wrap_def cassert_def set_value_def)

lemma Copy_points:
  assumes "fresh_malloc ma" "deref h a = Inr s"
  shows "\<exists>k. Copy nd ma h a = Inr (k, (ma h, s) # h) \<and> points_to ((ma h, s) # h) k s \<and>
    hs_value k = ma h"
proof -
  have a: "a \<noteq> 0" using assms(2) by (auto simp: deref_Inr)
  have "ma h \<noteq> 0" using assms(1) unfolding fresh_malloc_def by blast
  then have "deref ((ma h, s) # h) (ma h) = Inr s" by (simp add: deref_def)
  with a assms(2) show ?thesis
    by (simp add: Copy_def MemAlloc_Malloc_def Let_def set_value_def points_to_def)
qed

lemma hstr_eq_points:
  "points_to h a s \<Longrightarrow> points_to h b t \<Longrightarrow> hstr_eq h a b = Inr (s = t)"
  by (auto simp: hstr_eq_def points_to_def)

lemma points_to_Cons:
  "points_to h k s \<Longrightarrow> map_of h a = None \<Longrightarrow> points_to ((a, t) # h) k s"
  by (auto simp: points_to_def deref_Inr)

lemma points_to_Free:
  "points_to h k s \<Longrightarrow> hs_value k \<noteq> hs_value f \<Longrightarrow> points_to (Free h f) k s"
  by (auto simp: points_to_def deref_Inr Free_def MemAlloc_Free_def delete_conv')

lemma deref_Free: "deref (Free h f) a = (if a = hs_value f then Inl Undefined else deref h a)"
  by (simp add: deref_def Free_def MemAlloc_Free_def delete_conv')

lemma sdbm_step_mult: "sdbm_step hash c = hash * 65599 + char_to_u64 c"
proof -
  have "push_bit 6 hash = hash * 64" "push_bit 16 hash = hash * 65536"
    by (simp_all add: push_bit_eq_mult)
  then show ?thesis by (simp add: sdbm_step_def algebra_simps)
qed

lemma sdbm_loop_append: "sdbm_loop h (s @ t) = sdbm_loop (sdbm_loop h s) t"
  by (induction s arbitrary: h) simp_all

lemma sdbm_loop_start: "sdbm_loop h s = h * 65599 ^ length s + sdbm_loop 0 s"
proof (induction s arbitrary: h)
  case (Cons c s)
  show ?case
    using Cons [of "sdbm_step h c"] Cons [of "sdbm_step 0 c"]
    by (simp add: sdbm_step_mult algebra_simps)
qed simp

text \<open>
  \<open>SDBMHash\<close> is the polynomial of the characters at 65599 modulo \<open>2 ^ 64\<close>, so the hash of
  a concatenation is computed from the hashes of its parts.
\<close>

theorem SDBMHash_append: "SDBMHash (s @ t) = SDBMHash s * 65599 ^ length t + SDBMHash t"
  unfolding SDBMHash_def sdbm_loop_append by (rule sdbm_loop_start)

end
