(* ===== verification/Hash_Tables.thy ===== *)
theory Hash_Tables
  imports Hash_String
begin

text \<open>
  \<open>lib/string_hashtable.h\<close> and its four implementations: the abstract class as a record of
  functions, \<open>StlHashtable\<close> over \<open>std::unordered_map\<close>, \<open>LockStlHashtable\<close> on top of it, and
  the two tables over containers of Intel's TBB, which are outside the repository.

  A container is a record of the operations the tables call, with the elements in
  iteration order; \<open>std::unordered_map\<close> is one instance, a TBB map is a parameter.  A
  value type is a pointer type, so a value is an option whose \<open>None\<close> is \<open>NULL\<close>.  Locks
  make each call one step; the state of a table is its container and the memory.
\<close>

section \<open>Containers\<close>

type_synonym 'v node = "hstr \<times> 'v option"

record ('t, 'v) container =
  ct_nodes :: "'t \<Rightarrow> 'v node list"
  ct_find :: "(hstr \<Rightarrow> hstr \<Rightarrow> stop + bool) \<Rightarrow> 't \<Rightarrow> hstr \<Rightarrow> stop + nat option"
  ct_insert :: "(hstr \<Rightarrow> hstr \<Rightarrow> stop + bool) \<Rightarrow> 't \<Rightarrow> 'v node \<Rightarrow> stop + (bool \<times> 't)"
  ct_set :: "'t \<Rightarrow> nat \<Rightarrow> 'v option \<Rightarrow> 't"
  ct_erase :: "'t \<Rightarrow> nat \<Rightarrow> 't"
  ct_size :: "'t \<Rightarrow> nat"

text \<open>
  \<open>std::unordered_map\<close>: the nodes in iteration order.  Where an insertion puts the new
  node, and how a rehash moves the others, is up to the library: \<open>ro\<close> is the order it
  leaves them in.
\<close>

fun umap_find :: "(hstr \<Rightarrow> hstr \<Rightarrow> stop + bool) \<Rightarrow> 'v node list \<Rightarrow> hstr \<Rightarrow> stop + nat option" where
  "umap_find eq [] k = Inr None"
| "umap_find eq ((s, v) # t) k =
     bind_r (eq s k) (\<lambda>b.
     if b then Inr (Some 0) else bind_r (umap_find eq t k) (\<lambda>i. Inr (map_option Suc i)))"

definition unordered_map :: "('v node list \<Rightarrow> 'v node list) \<Rightarrow> ('v node list, 'v) container" where
  "unordered_map ro =
     \<lparr>ct_nodes = \<lambda>t. t, ct_find = umap_find,
      ct_insert = \<lambda>eq t (s, v).
        bind_r (umap_find eq t s) (\<lambda>i. Inr (case i of None \<Rightarrow> (True, ro ((s, v) # t)) | Some _ \<Rightarrow> (False, t))),
      ct_set = \<lambda>t i v. t[i := (fst (t ! i), v)],
      ct_erase = \<lambda>t i. take i t @ drop (Suc i) t,
      ct_size = length\<rparr>"

section \<open>The class \<open>StringHashtable\<close>\<close>

record ('st, 'v) table_class =
  tc_Get :: "'st \<Rightarrow> addr \<Rightarrow> stop + 'v option"
  tc_Insert :: "'st \<Rightarrow> addr \<Rightarrow> 'v option \<Rightarrow> stop + (bool \<times> 'st)"
  tc_Update :: "'st \<Rightarrow> addr \<Rightarrow> 'v option \<Rightarrow> stop + ('v option \<times> 'st)"
  tc_Remove :: "'st \<Rightarrow> addr \<Rightarrow> stop + ('v option \<times> 'st)"
  tc_Entries :: "'st \<Rightarrow> addr \<Rightarrow> u64 \<Rightarrow> stop + (addr \<times> 'v option) list"
  tc_Size :: "'st \<Rightarrow> nat"

text \<open>The loop of \<open>Entries\<close>, from a position that may be the end.\<close>

definition entries_from :: "'v node list \<Rightarrow> nat option \<Rightarrow> u64 \<Rightarrow> (addr \<times> 'v option) list" where
  "entries_from nodes pos n =
     (case pos of
        None \<Rightarrow> []
      | Some i \<Rightarrow> map (\<lambda>(k, v). (hs_value k, v)) (take (unat n) (drop i nodes)))"

section \<open>\<open>StlHashtable\<close>\<close>

type_synonym 'v stl_state = "'v node list \<times> mem"

definition stl_find ::
  "('v node list \<Rightarrow> 'v node list) \<Rightarrow> bool \<Rightarrow> 'v stl_state \<Rightarrow> addr \<Rightarrow> stop + nat option" where
  "stl_find ro nd st key =
     (let (table, h) = st in
     bind_r (Wrap nd h key) (\<lambda>k. ct_find (unordered_map ro) (hstr_eq h) table k))"

definition stl_Get ::
  "('v node list \<Rightarrow> 'v node list) \<Rightarrow> bool \<Rightarrow> 'v stl_state \<Rightarrow> addr \<Rightarrow> stop + 'v option" where
  "stl_Get ro nd st key =
     bind_r (stl_find ro nd st key) (\<lambda>pos.
     Inr (case pos of None \<Rightarrow> None | Some i \<Rightarrow> snd (fst st ! i)))"

definition stl_Insert ::
  "('v node list \<Rightarrow> 'v node list) \<Rightarrow> (mem \<Rightarrow> addr) \<Rightarrow> bool \<Rightarrow> 'v stl_state \<Rightarrow> addr \<Rightarrow> 'v option \<Rightarrow>
    stop + (bool \<times> 'v stl_state)" where
  "stl_Insert ro ma nd st key v =
     (let (table, h) = st in
     if key = 0 then Inr (False, st)
     else bind_r (Copy nd ma h key) (\<lambda>(skey, h).
          bind_r (ct_insert (unordered_map ro) (hstr_eq h) table (skey, v)) (\<lambda>(b, table).
          Inr (b, (table, h)))))"

definition stl_Update ::
  "('v node list \<Rightarrow> 'v node list) \<Rightarrow> bool \<Rightarrow> 'v stl_state \<Rightarrow> addr \<Rightarrow> 'v option \<Rightarrow>
    stop + ('v option \<times> 'v stl_state)" where
  "stl_Update ro nd st key v =
     bind_r (stl_find ro nd st key) (\<lambda>pos.
     case pos of
       None \<Rightarrow> Inr (None, st)
     | Some i \<Rightarrow>
         (let (table, h) = st; old = snd (table ! i)
          in Inr (old, (ct_set (unordered_map ro) table i v, h))))"

definition stl_Remove ::
  "('v node list \<Rightarrow> 'v node list) \<Rightarrow> bool \<Rightarrow> 'v stl_state \<Rightarrow> addr \<Rightarrow> stop + ('v option \<times> 'v stl_state)" where
  "stl_Remove ro nd st key =
     bind_r (stl_find ro nd st key) (\<lambda>pos.
     case pos of
       None \<Rightarrow> Inr (None, st)
     | Some i \<Rightarrow>
         (let (table, h) = st; h = Free h (fst (table ! i)); old = snd (table ! i)
          in Inr (old, (ct_erase (unordered_map ro) table i, h))))"

definition stl_Entries ::
  "('v node list \<Rightarrow> 'v node list) \<Rightarrow> bool \<Rightarrow> 'v stl_state \<Rightarrow> addr \<Rightarrow> u64 \<Rightarrow>
    stop + (addr \<times> 'v option) list" where
  "stl_Entries ro nd st key n =
     bind_r (if key = 0 then Inr (Some 0) else stl_find ro nd st key) (\<lambda>pos.
     Inr (entries_from (fst st) pos n))"

definition stl_Size :: "('v node list \<Rightarrow> 'v node list) \<Rightarrow> 'v stl_state \<Rightarrow> nat" where
  "stl_Size ro st = ct_size (unordered_map ro) (fst st)"

definition stl_table ::
  "('v node list \<Rightarrow> 'v node list) \<Rightarrow> (mem \<Rightarrow> addr) \<Rightarrow> bool \<Rightarrow> ('v stl_state, 'v) table_class" where
  "stl_table ro ma nd =
     \<lparr>tc_Get = stl_Get ro nd, tc_Insert = stl_Insert ro ma nd, tc_Update = stl_Update ro nd,
      tc_Remove = stl_Remove ro nd, tc_Entries = stl_Entries ro nd, tc_Size = stl_Size ro\<rparr>"

section \<open>\<open>LockStlHashtable\<close>\<close>

text \<open>Each call takes the mutex, calls the base class and releases the mutex.\<close>

definition lock_Get ::
  "('v node list \<Rightarrow> 'v node list) \<Rightarrow> bool \<Rightarrow> 'v stl_state \<Rightarrow> addr \<Rightarrow> stop + 'v option" where
  "lock_Get ro nd st key = stl_Get ro nd st key"

definition lock_Insert ::
  "('v node list \<Rightarrow> 'v node list) \<Rightarrow> (mem \<Rightarrow> addr) \<Rightarrow> bool \<Rightarrow> 'v stl_state \<Rightarrow> addr \<Rightarrow> 'v option \<Rightarrow>
    stop + (bool \<times> 'v stl_state)" where
  "lock_Insert ro ma nd st key v = stl_Insert ro ma nd st key v"

definition lock_Update ::
  "('v node list \<Rightarrow> 'v node list) \<Rightarrow> bool \<Rightarrow> 'v stl_state \<Rightarrow> addr \<Rightarrow> 'v option \<Rightarrow>
    stop + ('v option \<times> 'v stl_state)" where
  "lock_Update ro nd st key v = stl_Update ro nd st key v"

definition lock_Remove ::
  "('v node list \<Rightarrow> 'v node list) \<Rightarrow> bool \<Rightarrow> 'v stl_state \<Rightarrow> addr \<Rightarrow> stop + ('v option \<times> 'v stl_state)" where
  "lock_Remove ro nd st key = stl_Remove ro nd st key"

definition lock_Entries ::
  "('v node list \<Rightarrow> 'v node list) \<Rightarrow> bool \<Rightarrow> 'v stl_state \<Rightarrow> addr \<Rightarrow> u64 \<Rightarrow>
    stop + (addr \<times> 'v option) list" where
  "lock_Entries ro nd st key n = stl_Entries ro nd st key n"

definition lock_Size :: "('v node list \<Rightarrow> 'v node list) \<Rightarrow> 'v stl_state \<Rightarrow> nat" where
  "lock_Size ro st = stl_Size ro st"

definition lock_stl_table ::
  "('v node list \<Rightarrow> 'v node list) \<Rightarrow> (mem \<Rightarrow> addr) \<Rightarrow> bool \<Rightarrow> ('v stl_state, 'v) table_class" where
  "lock_stl_table ro ma nd =
     \<lparr>tc_Get = lock_Get ro nd, tc_Insert = lock_Insert ro ma nd, tc_Update = lock_Update ro nd,
      tc_Remove = lock_Remove ro nd, tc_Entries = lock_Entries ro nd, tc_Size = lock_Size ro\<rparr>"

section \<open>\<open>TbbRandHashtable\<close>\<close>

definition rand_find ::
  "('t, 'v) container \<Rightarrow> bool \<Rightarrow> 't \<times> mem \<Rightarrow> addr \<Rightarrow> stop + nat option" where
  "rand_find C nd st key =
     bind_r (Wrap nd (snd st) key) (\<lambda>k. ct_find C (hstr_eq (snd st)) (fst st) k)"

definition rand_Get :: "('t, 'v) container \<Rightarrow> bool \<Rightarrow> 't \<times> mem \<Rightarrow> addr \<Rightarrow> stop + 'v option" where
  "rand_Get C nd st key =
     bind_r (rand_find C nd st key) (\<lambda>result.
     case result of None \<Rightarrow> Inr None | Some i \<Rightarrow> Inr (snd (ct_nodes C (fst st) ! i)))"

definition rand_Insert ::
  "('t, 'v) container \<Rightarrow> (mem \<Rightarrow> addr) \<Rightarrow> bool \<Rightarrow> 't \<times> mem \<Rightarrow> addr \<Rightarrow> 'v option \<Rightarrow>
    stop + (bool \<times> 't \<times> mem)" where
  "rand_Insert C ma nd st key v =
     (if key = 0 then Inr (False, st)
      else bind_r (Copy nd ma (snd st) key) (\<lambda>(skey, h).
           bind_r (ct_insert C (hstr_eq h) (fst st) (skey, v)) (\<lambda>(b, table). Inr (b, (table, h)))))"

definition rand_Update ::
  "('t, 'v) container \<Rightarrow> bool \<Rightarrow> 't \<times> mem \<Rightarrow> addr \<Rightarrow> 'v option \<Rightarrow> stop + ('v option \<times> 't \<times> mem)" where
  "rand_Update C nd st key v =
     bind_r (rand_find C nd st key) (\<lambda>result.
     Inr (case result of
            None \<Rightarrow> (None, st)
          | Some i \<Rightarrow> (snd (ct_nodes C (fst st) ! i), (ct_set C (fst st) i v, snd st))))"

definition rand_Remove ::
  "('t, 'v) container \<Rightarrow> bool \<Rightarrow> 't \<times> mem \<Rightarrow> addr \<Rightarrow> stop + ('v option \<times> 't \<times> mem)" where
  "rand_Remove C nd st key =
     bind_r (rand_find C nd st key) (\<lambda>result.
     Inr (case result of
            None \<Rightarrow> (None, st)
          | Some i \<Rightarrow>
              (let h = Free (snd st) (fst (ct_nodes C (fst st) ! i))
               in (snd (ct_nodes C (fst st) ! i), (ct_erase C (fst st) i, h)))))"

definition rand_Entries ::
  "('t, 'v) container \<Rightarrow> bool \<Rightarrow> 't \<times> mem \<Rightarrow> addr \<Rightarrow> u64 \<Rightarrow> stop + (addr \<times> 'v option) list" where
  "rand_Entries C nd st key n =
     bind_r (if key \<noteq> 0 then rand_find C nd st key else Inr (Some 0)) (\<lambda>pos.
     Inr (entries_from (ct_nodes C (fst st)) pos n))"

definition rand_Size :: "('t, 'v) container \<Rightarrow> 't \<times> mem \<Rightarrow> nat" where
  "rand_Size C st = ct_size C (fst st)"

definition tbb_rand_table ::
  "('t, 'v) container \<Rightarrow> (mem \<Rightarrow> addr) \<Rightarrow> bool \<Rightarrow> ('t \<times> mem, 'v) table_class" where
  "tbb_rand_table C ma nd =
     \<lparr>tc_Get = rand_Get C nd, tc_Insert = rand_Insert C ma nd, tc_Update = rand_Update C nd,
      tc_Remove = rand_Remove C nd, tc_Entries = rand_Entries C nd, tc_Size = rand_Size C\<rparr>"

section \<open>\<open>TbbScanHashtable\<close>\<close>

definition scan_find ::
  "('t, 'v) container \<Rightarrow> bool \<Rightarrow> 't \<times> mem \<Rightarrow> addr \<Rightarrow> stop + nat option" where
  "scan_find C nd st key =
     bind_r (Wrap nd (snd st) key) (\<lambda>k. ct_find C (hstr_eq (snd st)) (fst st) k)"

definition scan_Get :: "('t, 'v) container \<Rightarrow> bool \<Rightarrow> 't \<times> mem \<Rightarrow> addr \<Rightarrow> stop + 'v option" where
  "scan_Get C nd st key =
     bind_r (scan_find C nd st key) (\<lambda>it.
     case it of None \<Rightarrow> Inr None | Some i \<Rightarrow> Inr (snd (ct_nodes C (fst st) ! i)))"

definition scan_Insert ::
  "('t, 'v) container \<Rightarrow> (mem \<Rightarrow> addr) \<Rightarrow> bool \<Rightarrow> 't \<times> mem \<Rightarrow> addr \<Rightarrow> 'v option \<Rightarrow>
    stop + (bool \<times> 't \<times> mem)" where
  "scan_Insert C ma nd st key v =
     (if key = 0 then Inr (False, st)
      else bind_r (Copy nd ma (snd st) key) (\<lambda>(skey, h).
           bind_r (ct_insert C (hstr_eq h) (fst st) (skey, v)) (\<lambda>(b, table). Inr (b, (table, h)))))"

definition scan_Update ::
  "('t, 'v) container \<Rightarrow> bool \<Rightarrow> 't \<times> mem \<Rightarrow> addr \<Rightarrow> 'v option \<Rightarrow> stop + ('v option \<times> 't \<times> mem)" where
  "scan_Update C nd st key v =
     bind_r (scan_find C nd st key) (\<lambda>it.
     Inr (case it of
            None \<Rightarrow> (None, st)
          | Some i \<Rightarrow> (snd (ct_nodes C (fst st) ! i), (ct_set C (fst st) i v, snd st))))"

definition scan_Remove ::
  "('t, 'v) container \<Rightarrow> bool \<Rightarrow> 't \<times> mem \<Rightarrow> addr \<Rightarrow> stop + ('v option \<times> 't \<times> mem)" where
  "scan_Remove C nd st key =
     bind_r (scan_find C nd st key) (\<lambda>it.
     Inr (case it of
            None \<Rightarrow> (None, st)
          | Some i \<Rightarrow>
              (let h = Free (snd st) (fst (ct_nodes C (fst st) ! i))
               in (snd (ct_nodes C (fst st) ! i), (ct_erase C (fst st) i, h)))))"

definition scan_Entries ::
  "('t, 'v) container \<Rightarrow> bool \<Rightarrow> 't \<times> mem \<Rightarrow> addr \<Rightarrow> u64 \<Rightarrow> stop + (addr \<times> 'v option) list" where
  "scan_Entries C nd st key n =
     bind_r (if key \<noteq> 0 then scan_find C nd st key else Inr (Some 0)) (\<lambda>pos.
     Inr (entries_from (ct_nodes C (fst st)) pos n))"

definition scan_Size :: "('t, 'v) container \<Rightarrow> 't \<times> mem \<Rightarrow> nat" where
  "scan_Size C st = ct_size C (fst st)"

definition tbb_scan_table ::
  "('t, 'v) container \<Rightarrow> (mem \<Rightarrow> addr) \<Rightarrow> bool \<Rightarrow> ('t \<times> mem, 'v) table_class" where
  "tbb_scan_table C ma nd =
     \<lparr>tc_Get = scan_Get C nd, tc_Insert = scan_Insert C ma nd, tc_Update = scan_Update C nd,
      tc_Remove = scan_Remove C nd, tc_Entries = scan_Entries C nd, tc_Size = scan_Size C\<rparr>"

section \<open>One table for all\<close>

text \<open>
  The four classes differ in their container and their locks only: each is \<open>TbbScanHashtable\<close>
  on its container.
\<close>

lemma tables_alike:
  "tbb_rand_table C ma nd = tbb_scan_table C ma nd"
  "lock_stl_table ro ma nd = stl_table ro ma nd"
  "stl_table ro ma nd = tbb_scan_table (unordered_map ro) ma nd"
proof -
  have f: "rand_find = scan_find" by (intro ext) (simp add: rand_find_def scan_find_def)
  show "tbb_rand_table C ma nd = tbb_scan_table C ma nd"
    by (simp add: tbb_rand_table_def tbb_scan_table_def fun_eq_iff f
        rand_Get_def scan_Get_def rand_Insert_def scan_Insert_def rand_Update_def scan_Update_def
        rand_Remove_def scan_Remove_def rand_Entries_def scan_Entries_def rand_Size_def scan_Size_def)
  show "lock_stl_table ro ma nd = stl_table ro ma nd"
    by (simp add: lock_stl_table_def stl_table_def fun_eq_iff lock_Get_def lock_Insert_def
        lock_Update_def lock_Remove_def lock_Entries_def lock_Size_def)
  have g: "stl_find ro = scan_find (unordered_map ro)"
    by (intro ext) (simp add: stl_find_def scan_find_def split_def)
  have n: "ct_nodes (unordered_map ro) = (\<lambda>t. t)" by (simp add: unordered_map_def)
  show "stl_table ro ma nd = tbb_scan_table (unordered_map ro) ma nd"
    by (simp add: stl_table_def tbb_scan_table_def fun_eq_iff g n split_def Let_def
        stl_Get_def scan_Get_def stl_Insert_def scan_Insert_def stl_Update_def scan_Update_def
        stl_Remove_def scan_Remove_def stl_Entries_def scan_Entries_def stl_Size_def scan_Size_def
        cong: if_cong)
      (intro conjI allI bind_r_cong refl; simp add: n split: option.split)
qed

end
