(* ===== verification/Hash_Facts.thy ===== *)
theory Hash_Facts
  imports Hash_Tables
begin

text \<open>
  The hash tables behave as a map from strings to values.  The locale \<open>hash_container\<close>
  states what a table needs of its container; \<open>std::unordered_map\<close> has it for every order of
  its nodes.  The locale \<open>string_table\<close> is the contract of \<open>StringHashtable\<close>; the four
  classes meet it.
\<close>

section \<open>What a container promises\<close>

text \<open>\<open>eq\<close> answers for all keys of the container, by \<open>Q\<close>, whether they equal \<open>k\<close>.\<close>

definition decides :: "(hstr \<Rightarrow> hstr \<Rightarrow> stop + bool) \<Rightarrow> (hstr \<Rightarrow> bool) \<Rightarrow> hstr \<Rightarrow> 'v node list \<Rightarrow> bool" where
  "decides eq Q k nodes \<longleftrightarrow> (\<forall>(s, v) \<in> set nodes. eq s k = Inr (Q s))"

locale hash_container =
  fixes C :: "('t, 'v) container"
    and okc :: "'t \<Rightarrow> bool"
  assumes find_absent: "okc t \<Longrightarrow> decides eq Q k (ct_nodes C t) \<Longrightarrow>
      \<forall>(s, v) \<in> set (ct_nodes C t). \<not> Q s \<Longrightarrow> ct_find C eq t k = Inr None"
    and find_present: "okc t \<Longrightarrow> decides eq Q k (ct_nodes C t) \<Longrightarrow>
      (s, v) \<in> set (ct_nodes C t) \<Longrightarrow> Q s \<Longrightarrow>
      \<exists>i < length (ct_nodes C t). Q (fst (ct_nodes C t ! i)) \<and> ct_find C eq t k = Inr (Some i)"
    and insert_absent: "okc t \<Longrightarrow> decides eq Q k (ct_nodes C t) \<Longrightarrow>
      \<forall>(s, v) \<in> set (ct_nodes C t). \<not> Q s \<Longrightarrow>
      \<exists>t'. ct_insert C eq t (k, v) = Inr (True, t') \<and> okc t' \<and>
        mset (ct_nodes C t') = add_mset (k, v) (mset (ct_nodes C t))"
    and insert_present: "okc t \<Longrightarrow> decides eq Q k (ct_nodes C t) \<Longrightarrow>
      (s, w) \<in> set (ct_nodes C t) \<Longrightarrow> Q s \<Longrightarrow> ct_insert C eq t (k, v) = Inr (False, t)"
    and set_nodes: "okc t \<Longrightarrow> i < length (ct_nodes C t) \<Longrightarrow> okc (ct_set C t i v) \<and>
      ct_nodes C (ct_set C t i v) = (ct_nodes C t)[i := (fst (ct_nodes C t ! i), v)]"
    and erase_nodes: "okc t \<Longrightarrow> i < length (ct_nodes C t) \<Longrightarrow> okc (ct_erase C t i) \<and>
      add_mset (ct_nodes C t ! i) (mset (ct_nodes C (ct_erase C t i))) = mset (ct_nodes C t)"
    and size_nodes: "okc t \<Longrightarrow> ct_size C t = length (ct_nodes C t)"

text \<open>\<open>std::unordered_map\<close>, if a rehash keeps its nodes.\<close>

definition keeps_nodes :: "('v node list \<Rightarrow> 'v node list) \<Rightarrow> bool" where
  "keeps_nodes ro \<longleftrightarrow> (\<forall>t. mset (ro t) = mset t)"

lemma umap_find_absent:
  "decides eq Q k t \<Longrightarrow> \<forall>(s, v) \<in> set t. \<not> Q s \<Longrightarrow> umap_find eq t k = Inr None"
  by (induction eq t k rule: umap_find.induct) (auto simp: decides_def)

lemma umap_find_present:
  "decides eq Q k t \<Longrightarrow> (s, v) \<in> set t \<Longrightarrow> Q s \<Longrightarrow>
   \<exists>i < length t. Q (fst (t ! i)) \<and> umap_find eq t k = Inr (Some i)"
proof (induction t)
  case (Cons n t)
  obtain s1 v1 where n: "n = (s1, v1)" by (cases n)
  have e: "eq s1 k = Inr (Q s1)" "decides eq Q k t" using Cons.prems(1) n by (auto simp: decides_def)
  show ?case
  proof (cases "Q s1")
    case False
    then have "(s, v) \<in> set t" using Cons.prems(2,3) n by auto
    with Cons.IH [OF e(2) _ Cons.prems(3)] obtain i where
      "i < length t" "Q (fst (t ! i))" "umap_find eq t k = Inr (Some i)" by blast
    with e(1) False n show ?thesis by (intro exI [of _ "Suc i"]) simp
  qed (use e n in \<open>auto intro: exI [of _ 0]\<close>)
qed simp

interpretation umap_i: hash_container "unordered_map ro" "\<lambda>_. keeps_nodes ro"
  for ro :: "'v node list \<Rightarrow> 'v node list"
proof
  fix t :: "'v node list" and eq Q k s v w i
  assume ro: "keeps_nodes ro"
  let ?C = "unordered_map ro :: ('v node list, 'v) container"
  note d = unordered_map_def
  show "decides eq Q k (ct_nodes ?C t) \<Longrightarrow> \<forall>(s, v) \<in> set (ct_nodes ?C t). \<not> Q s \<Longrightarrow>
      ct_find ?C eq t k = Inr None"
    by (simp add: d umap_find_absent)
  show "decides eq Q k (ct_nodes ?C t) \<Longrightarrow> (s, v) \<in> set (ct_nodes ?C t) \<Longrightarrow> Q s \<Longrightarrow>
      \<exists>i < length (ct_nodes ?C t). Q (fst (ct_nodes ?C t ! i)) \<and> ct_find ?C eq t k = Inr (Some i)"
    by (simp add: d umap_find_present)
  show "decides eq Q k (ct_nodes ?C t) \<Longrightarrow> \<forall>(s, v) \<in> set (ct_nodes ?C t). \<not> Q s \<Longrightarrow>
      \<exists>t'. ct_insert ?C eq t (k, v) = Inr (True, t') \<and> keeps_nodes ro \<and>
        mset (ct_nodes ?C t') = add_mset (k, v) (mset (ct_nodes ?C t))"
    using ro by (simp add: d umap_find_absent) (simp add: keeps_nodes_def)
  show "decides eq Q k (ct_nodes ?C t) \<Longrightarrow> (s, w) \<in> set (ct_nodes ?C t) \<Longrightarrow> Q s \<Longrightarrow>
      ct_insert ?C eq t (k, v) = Inr (False, t)"
    using umap_find_present [of eq Q k t s w] by (auto simp: d)
  show "i < length (ct_nodes ?C t) \<Longrightarrow> keeps_nodes ro \<and>
      ct_nodes ?C (ct_set ?C t i v) = (ct_nodes ?C t)[i := (fst (ct_nodes ?C t ! i), v)]"
    using ro by (simp add: d)
  show "i < length (ct_nodes ?C t) \<Longrightarrow> keeps_nodes ro \<and>
      add_mset (ct_nodes ?C t ! i) (mset (ct_nodes ?C (ct_erase ?C t i))) = mset (ct_nodes ?C t)"
  proof -
    assume "i < length (ct_nodes ?C t)"
    then have "t = take i t @ t ! i # drop (Suc i) t" by (simp add: d id_take_nth_drop)
    then have "mset t = mset (take i t @ t ! i # drop (Suc i) t)" by (rule arg_cong)
    then show ?thesis using ro by (simp add: d)
  qed
  show "ct_size ?C t = length (ct_nodes ?C t)" by (simp add: d)
qed

section \<open>The contract of \<open>StringHashtable\<close>\<close>

text \<open>
  On the map \<open>content\<close> from strings to values, with the memory \<open>mem_of\<close> and the addresses
  \<open>ptrs\<close> of the table's own copies of keys.  A missing key and a \<open>NULL\<close> value read the same.
\<close>

definition value_of :: "'v option option \<Rightarrow> 'v option" where
  "value_of x = (case x of None \<Rightarrow> None | Some v \<Rightarrow> v)"

locale string_table =
  fixes T :: "('st, 'v) table_class"
    and nd :: bool
    and content :: "'st \<Rightarrow> string \<rightharpoonup> 'v option"
    and mem_of :: "'st \<Rightarrow> mem"
    and ptrs :: "'st \<Rightarrow> addr set"
    and ok :: "'st \<Rightarrow> bool"
  assumes get_law: "ok st \<Longrightarrow> deref (mem_of st) a = Inr s \<Longrightarrow>
      tc_Get T st a = Inr (value_of (content st s))"
    and insert_law: "ok st \<Longrightarrow> deref (mem_of st) a = Inr s \<Longrightarrow>
      \<exists>st' b. tc_Insert T st a v = Inr (content st s = None, st') \<and> ok st' \<and>
        content st' = (if content st s = None then (content st)(s \<mapsto> v) else content st) \<and>
        b \<noteq> 0 \<and> map_of (mem_of st) b = None \<and> mem_of st' = (b, s) # mem_of st \<and>
        ptrs st' = (if content st s = None then insert b (ptrs st) else ptrs st)"
    and update_law: "ok st \<Longrightarrow> deref (mem_of st) a = Inr s \<Longrightarrow>
      \<exists>st'. tc_Update T st a v = Inr (value_of (content st s), st') \<and> ok st' \<and>
        content st' = (if content st s = None then content st else (content st)(s \<mapsto> v)) \<and>
        mem_of st' = mem_of st \<and> ptrs st' = ptrs st"
    and remove_law: "ok st \<Longrightarrow> deref (mem_of st) a = Inr s \<Longrightarrow>
      \<exists>st'. tc_Remove T st a = Inr (value_of (content st s), st') \<and> ok st' \<and>
        content st' = (content st)(s := None) \<and>
        (if content st s = None then mem_of st' = mem_of st \<and> ptrs st' = ptrs st
         else \<exists>b \<in> ptrs st. map_of (mem_of st) b = Some s \<and>
           mem_of st' = AList.delete b (mem_of st) \<and> ptrs st' = ptrs st - {b})"
    and size_law: "ok st \<Longrightarrow> tc_Size T st = card (dom (content st)) \<and> finite (dom (content st))"
    and entries_law: "ok st \<Longrightarrow> \<exists>es. tc_Entries T st 0 n = Inr es \<and>
        length es = min (unat n) (card (dom (content st))) \<and> distinct (map fst es) \<and>
        (\<forall>(b, v) \<in> set es. b \<in> ptrs st \<and> (\<exists>s. map_of (mem_of st) b = Some s \<and> content st s = Some v))"
    and null_law: "ok st \<Longrightarrow> tc_Insert T st 0 v = Inr (False, st) \<and>
        tc_Get T st 0 = Inl (if nd then Undefined else Assert_Fail) \<and>
        tc_Update T st 0 v = Inl (if nd then Undefined else Assert_Fail) \<and>
        tc_Remove T st 0 = Inl (if nd then Undefined else Assert_Fail)"

section \<open>The state of a table\<close>

text \<open>
  The string a key points to.  In a good state every key is up to date and no two keys
  point to equal strings, so no two keys share an address either.
\<close>

definition key_str :: "mem \<Rightarrow> hstr \<Rightarrow> string" where
  "key_str h k = (case map_of h (hs_value k) of None \<Rightarrow> [] | Some s \<Rightarrow> s)"

definition nodes_ok :: "mem \<Rightarrow> 'v node list \<Rightarrow> bool" where
  "nodes_ok h ns \<longleftrightarrow> (\<forall>n \<in> set ns. points_to h (fst n) (key_str h (fst n))) \<and>
     distinct (map (\<lambda>n. key_str h (fst n)) ns)"

definition table_content :: "('t, 'v) container \<Rightarrow> 't \<times> mem \<Rightarrow> string \<rightharpoonup> 'v option" where
  "table_content C st = map_of (map (\<lambda>n. (key_str (snd st) (fst n), snd n)) (ct_nodes C (fst st)))"

definition table_ptrs :: "('t, 'v) container \<Rightarrow> 't \<times> mem \<Rightarrow> addr set" where
  "table_ptrs C st = hs_value ` fst ` set (ct_nodes C (fst st))"

definition table_ok ::
  "('t, 'v) container \<Rightarrow> ('t \<Rightarrow> bool) \<Rightarrow> (mem \<Rightarrow> addr) \<Rightarrow> 't \<times> mem \<Rightarrow> bool" where
  "table_ok C okc ma st \<longleftrightarrow> hash_container C okc \<and> fresh_malloc ma \<and> okc (fst st) \<and>
     nodes_ok (snd st) (ct_nodes C (fst st))"

lemma key_str_points: "points_to h k s \<Longrightarrow> key_str h k = s"
  by (simp add: points_to_def key_str_def deref_Inr)

lemma nodes_ok_points: "nodes_ok h ns \<Longrightarrow> n \<in> set ns \<Longrightarrow> points_to h (fst n) (key_str h (fst n))"
  by (simp add: nodes_ok_def)

lemma nodes_ok_mset:
  assumes "nodes_ok h ns" "mset ns' = mset ns"
  shows "nodes_ok h ns'"
proof -
  have "mset (map (\<lambda>n. key_str h (fst n)) ns') = mset (map (\<lambda>n. key_str h (fst n)) ns)"
    using assms(2) by simp
  then have "distinct (map (\<lambda>n. key_str h (fst n)) ns')"
    using assms(1) unfolding nodes_ok_def by (metis mset_eq_imp_distinct_iff)
  with assms show ?thesis using mset_eq_setD [OF assms(2)] by (simp add: nodes_ok_def)
qed

lemma nodes_inj:
  assumes "nodes_ok h ns" "m \<in> set ns" "n \<in> set ns" "key_str h (fst m) = key_str h (fst n)"
  shows "m = n"
  using assms by (auto simp: nodes_ok_def distinct_map inj_on_def)

lemma node_map_Some:
  assumes "distinct (map (\<lambda>n. key_str h (fst n)) ns)"
  shows "map_of (map (\<lambda>n. (key_str h (fst n), snd n)) ns) s = Some v \<longleftrightarrow>
    (\<exists>n \<in> set ns. key_str h (fst n) = s \<and> snd n = v)"
proof -
  have "distinct (map fst (map (\<lambda>n. (key_str h (fst n), snd n)) ns))"
    using assms by (simp add: comp_def)
  from map_of_eq_Some_iff [OF this] show ?thesis by auto
qed

lemma content_Some:
  "nodes_ok h (ct_nodes C t) \<Longrightarrow> table_content C (t, h) s = Some v \<longleftrightarrow>
     (\<exists>n \<in> set (ct_nodes C t). key_str h (fst n) = s \<and> snd n = v)"
  by (simp add: table_content_def nodes_ok_def node_map_Some)

lemma content_None:
  "table_content C (t, h) s = None \<longleftrightarrow> (\<forall>n \<in> set (ct_nodes C t). key_str h (fst n) \<noteq> s)"
  by (simp add: table_content_def map_of_eq_None_iff image_image) blast

lemma map_eqI: "(\<And>k v. m k = Some v \<longleftrightarrow> m' k = Some v) \<Longrightarrow> m = m'"
  by (rule ext) (metis option.exhaust)

lemma nodes_decide:
  assumes "nodes_ok h ns" "points_to h k s"
  shows "decides (hstr_eq h) (\<lambda>x. key_str h x = s) k ns"
  using nodes_ok_points [OF assms(1)] assms(2) by (force simp: decides_def hstr_eq_points)

text \<open>A new block in memory.\<close>

lemma key_str_Cons: "map_of h a = None \<Longrightarrow> points_to h k s \<Longrightarrow> key_str ((a, t) # h) k = key_str h k"
  by (auto simp: key_str_def points_to_def deref_Inr)

lemma nodes_ok_Cons:
  assumes "nodes_ok h ns" "map_of h a = None"
  shows "nodes_ok ((a, t) # h) ns" "\<forall>n \<in> set ns. key_str ((a, t) # h) (fst n) = key_str h (fst n)"
proof -
  show e: "\<forall>n \<in> set ns. key_str ((a, t) # h) (fst n) = key_str h (fst n)"
    using nodes_ok_points [OF assms(1)] key_str_Cons [OF assms(2)] by blast
  then have "map (\<lambda>n. key_str ((a, t) # h) (fst n)) ns = map (\<lambda>n. key_str h (fst n)) ns" by simp
  then have "distinct (map (\<lambda>n. key_str ((a, t) # h) (fst n)) ns)"
    using assms(1) by (simp only: nodes_ok_def)
  with assms e show "nodes_ok ((a, t) # h) ns"
    by (simp add: nodes_ok_def points_to_Cons)
qed

text \<open>A key's block freed, after its node has been taken out.\<close>

lemma nodes_ok_Free:
  assumes "nodes_ok h ns" "add_mset n (mset ns') = mset ns"
  shows "nodes_ok (Free h (fst n)) ns'" "\<forall>m \<in> set ns'. key_str (Free h (fst n)) (fst m) = key_str h (fst m)"
    "\<forall>m \<in> set ns'. key_str h (fst m) \<noteq> key_str h (fst n)" "set ns = insert n (set ns')"
proof -
  have m: "mset (n # ns') = mset ns" using assms(2) by simp
  have ok: "nodes_ok h (n # ns')" using nodes_ok_mset [OF assms(1) m] .
  show "set ns = insert n (set ns')" using mset_eq_setD [OF m] by simp
  show ne: "\<forall>m \<in> set ns'. key_str h (fst m) \<noteq> key_str h (fst n)"
    using ok by (auto simp: nodes_ok_def image_iff)
  have pt: "points_to h (fst m) (key_str h (fst m))" if "m \<in> set (n # ns')" for m
    using nodes_ok_points [OF ok that] .
  have av: "hs_value (fst m) \<noteq> hs_value (fst n)" if "m \<in> set ns'" for m
    using ne that by (auto simp: key_str_def)
  show e: "\<forall>m \<in> set ns'. key_str (Free h (fst n)) (fst m) = key_str h (fst m)"
    using av by (simp add: key_str_def Free_def MemAlloc_Free_def delete_conv')
  then have eq: "map (\<lambda>m. key_str (Free h (fst n)) (fst m)) ns' = map (\<lambda>m. key_str h (fst m)) ns'" by simp
  have "distinct (map (\<lambda>m. key_str h (fst m)) ns')" using ok by (simp add: nodes_ok_def)
  then have "distinct (map (\<lambda>m. key_str (Free h (fst n)) (fst m)) ns')" unfolding eq .
  with e pt av show "nodes_ok (Free h (fst n)) ns'"
    by (simp add: nodes_ok_def points_to_Free)
qed

section \<open>The operations meet the contract\<close>

lemma scan_find_Wrap:
  "deref (snd st) a = Inr s \<Longrightarrow>
   \<exists>k. points_to (snd st) k s \<and> scan_find C nd st a = ct_find C (hstr_eq (snd st)) (fst st) k"
  using Wrap_points [of "snd st" a s nd] by (auto simp: scan_find_def)

lemma scan_null: "scan_find C nd st 0 = Inl (if nd then Undefined else Assert_Fail)"
  by (simp add: scan_find_def Wrap_null)

lemma table_okD:
  assumes "table_ok C okc ma st"
  shows "hash_container C okc" "fresh_malloc ma" "okc (fst st)" "nodes_ok (snd st) (ct_nodes C (fst st))"
  using assms by (simp_all add: table_ok_def)

lemma table_find:
  assumes "table_ok C okc ma (t, h)" "deref h a = Inr s"
  shows "case table_content C (t, h) s of
      None \<Rightarrow> scan_find C nd (t, h) a = Inr None
    | Some v \<Rightarrow> \<exists>i < length (ct_nodes C t). scan_find C nd (t, h) a = Inr (Some i) \<and>
        key_str h (fst (ct_nodes C t ! i)) = s \<and> snd (ct_nodes C t ! i) = v"
proof -
  note d = table_okD [OF assms(1), simplified]
  obtain k where k: "points_to h k s" "scan_find C nd (t, h) a = ct_find C (hstr_eq h) t k"
    using scan_find_Wrap [of "(t, h)" a s] assms(2) by auto
  note dec = nodes_decide [OF d(4) k(1)]
  show ?thesis
  proof (cases "table_content C (t, h) s")
    case None
    then have "\<forall>(x, v) \<in> set (ct_nodes C t). key_str h x \<noteq> s" by (force simp: content_None)
    with None k(2) hash_container.find_absent [OF d(1,3) dec] show ?thesis by simp
  next
    case (Some v)
    then obtain x where x: "(x, v) \<in> set (ct_nodes C t)" "key_str h x = s"
      unfolding content_Some [OF d(4)] by auto
    obtain i where i: "i < length (ct_nodes C t)" "key_str h (fst (ct_nodes C t ! i)) = s"
      "ct_find C (hstr_eq h) t k = Inr (Some i)"
      using hash_container.find_present [OF d(1,3) dec x] by blast
    then have "ct_nodes C t ! i = (x, v)"
      using nodes_inj [OF d(4) _ x(1)] x(2) by simp
    with Some k(2) i show ?thesis by auto
  qed
qed

lemma scan_get_law:
  assumes "table_ok C okc ma st" "deref (snd st) a = Inr s"
  shows "scan_Get C nd st a = Inr (value_of (table_content C st s))"
proof -
  obtain t h where st: "st = (t, h)" by (cases st)
  show ?thesis
    using table_find [of C okc ma t h a s nd] assms st
    by (auto simp: scan_Get_def value_of_def split: option.splits)
qed

lemma scan_insert_law:
  assumes "table_ok C okc ma st" "deref (snd st) a = Inr s"
  shows "\<exists>st' b. scan_Insert C ma nd st a v = Inr (table_content C st s = None, st') \<and>
    table_ok C okc ma st' \<and>
    table_content C st' = (if table_content C st s = None then (table_content C st)(s \<mapsto> v)
      else table_content C st) \<and>
    b \<noteq> 0 \<and> map_of (snd st) b = None \<and> snd st' = (b, s) # snd st \<and>
    table_ptrs C st' = (if table_content C st s = None then insert b (table_ptrs C st) else table_ptrs C st)"
proof -
  obtain t h where st: "st = (t, h)" by (cases st)
  note d = table_okD [OF assms(1) [unfolded st], simplified]
  have a0: "a \<noteq> 0" and da: "deref h a = Inr s" using assms(2) st by (auto simp: deref_Inr)
  let ?b = "ma h" let ?h = "(?b, s) # h"
  have b: "?b \<noteq> 0" "map_of h ?b = None" using d(2) unfolding fresh_malloc_def by blast+
  obtain k where k: "Copy nd ma h a = Inr (k, ?h)" "points_to ?h k s" "hs_value k = ?b"
    using Copy_points [OF d(2) da] by blast
  note ok' = nodes_ok_Cons [OF d(4) b(2), of s]
  have same: "table_content C (t, ?h) = table_content C (t, h)"
    using ok'(2) by (simp add: table_content_def cong: map_cong)
  note dec = nodes_decide [OF ok'(1) k(2)]
  have run: "scan_Insert C ma nd st a v =
      bind_r (ct_insert C (hstr_eq ?h) t (k, v)) (\<lambda>(r, table). Inr (r, (table, ?h)))"
    using a0 k(1) st by (simp add: scan_Insert_def)
  show ?thesis
  proof (cases "table_content C (t, h) s")
    case None
    then have "\<forall>(x, v) \<in> set (ct_nodes C t). key_str ?h x \<noteq> s"
      using ok'(2) by (force simp: content_None)
    from hash_container.insert_absent [OF d(1,3) dec this] obtain t' where
      t': "ct_insert C (hstr_eq ?h) t (k, v) = Inr (True, t')" "okc t'"
      "mset (ct_nodes C t') = add_mset (k, v) (mset (ct_nodes C t))" by blast
    have m: "mset (ct_nodes C t') = mset ((k, v) # ct_nodes C t)" using t'(3) by simp
    have ks: "key_str ?h k = s" using key_str_points [OF k(2)] .
    have "s \<notin> (\<lambda>n. key_str ?h (fst n)) ` set (ct_nodes C t)"
      using None ok'(2) by (auto simp: content_None)
    then have okn: "nodes_ok ?h ((k, v) # ct_nodes C t)"
      using ok'(1) k(2) ks by (auto simp: nodes_ok_def)
    note okt = nodes_ok_mset [OF okn m]
    have sets: "set (ct_nodes C t') = insert (k, v) (set (ct_nodes C t))"
      using mset_eq_setD [OF m] by simp
    have "table_content C (t', ?h) = (table_content C (t, h))(s \<mapsto> v)"
    proof (rule map_eqI)
      fix x w
      show "table_content C (t', ?h) x = Some w \<longleftrightarrow> ((table_content C (t, h))(s \<mapsto> v)) x = Some w"
        using None ks ok'(2) unfolding content_Some [OF okt] sets same [symmetric]
        by (auto simp: content_Some [OF ok'(1)] content_None)
    qed
    moreover have "table_ptrs C (t', ?h) = insert ?b (table_ptrs C (t, h))"
      using k(3) by (simp add: table_ptrs_def sets)
    ultimately show ?thesis
      using run t'(1,2) None st b okt d by (intro exI [of _ "(t', ?h)"] exI [of _ ?b]) (simp add: table_ok_def)
  next
    case (Some w)
    then have "table_content C (t, ?h) s = Some w" by (simp add: same)
    then obtain x where "(x, w) \<in> set (ct_nodes C t)" "key_str ?h x = s"
      unfolding content_Some [OF ok'(1)] by auto
    from hash_container.insert_present [OF d(1,3) dec this]
    have "ct_insert C (hstr_eq ?h) t (k, v) = Inr (False, t)" .
    then show ?thesis
      using run Some st b ok'(1) same d
      by (intro exI [of _ "(t, ?h)"] exI [of _ ?b]) (simp add: table_ok_def table_ptrs_def)
  qed
qed

lemma nodes_split:
  assumes "nodes_ok h ns" "i < length ns"
  shows "\<exists>A. set ns = insert (ns ! i) A \<and> (\<forall>n. set (ns[i := n]) = insert n A) \<and>
    (\<forall>m \<in> A. key_str h (fst m) \<noteq> key_str h (fst (ns ! i)))"
proof -
  let ?l = "take i ns @ drop (Suc i) ns"
  have e: "ns = take i ns @ ns ! i # drop (Suc i) ns" using assms(2) by (rule id_take_nth_drop)
  then have "mset ns = mset (take i ns @ ns ! i # drop (Suc i) ns)" by (rule arg_cong)
  then have "add_mset (ns ! i) (mset ?l) = mset ns" by simp
  note f = nodes_ok_Free(3,4) [OF assms(1) this]
  have "set (ns[i := n]) = insert n (set ?l)" for n
    using assms(2) by (simp add: upd_conv_take_nth_drop)
  with f show ?thesis by blast
qed

lemma scan_update_law:
  assumes "table_ok C okc ma st" "deref (snd st) a = Inr s"
  shows "\<exists>st'. scan_Update C nd st a v = Inr (value_of (table_content C st s), st') \<and>
    table_ok C okc ma st' \<and>
    table_content C st' = (if table_content C st s = None then table_content C st
      else (table_content C st)(s \<mapsto> v)) \<and> snd st' = snd st \<and> table_ptrs C st' = table_ptrs C st"
proof -
  obtain t h where st: "st = (t, h)" by (cases st)
  note d = table_okD [OF assms(1) [unfolded st], simplified]
  note fnd = table_find [OF assms(1) [unfolded st], of a s nd]
  show ?thesis
  proof (cases "table_content C (t, h) s")
    case None
    with fnd assms st show ?thesis by (intro exI [of _ st]) (simp add: scan_Update_def value_of_def)
  next
    case (Some w)
    then obtain i where i: "i < length (ct_nodes C t)" "scan_find C nd (t, h) a = Inr (Some i)"
      "key_str h (fst (ct_nodes C t ! i)) = s" "snd (ct_nodes C t ! i) = w"
      using fnd assms(2) st by auto
    let ?t = "ct_set C t i v"
    have s: "okc ?t" "ct_nodes C ?t = (ct_nodes C t)[i := (fst (ct_nodes C t ! i), v)]"
      using hash_container.set_nodes [OF d(1,3) i(1)] by simp_all
    have f: "map fst (ct_nodes C ?t) = map fst (ct_nodes C t)"
      using i(1) by (simp add: s(2) map_update list_update_same_conv)
    have okt: "nodes_ok h (ct_nodes C ?t)"
    proof -
      have "map (\<lambda>n. key_str h (fst n)) (ct_nodes C ?t) = map (\<lambda>n. key_str h (fst n)) (ct_nodes C t)"
        using arg_cong [OF f, of "map (key_str h)"] by (simp add: comp_def)
      moreover have "fst ` set (ct_nodes C ?t) = fst ` set (ct_nodes C t)"
        using arg_cong [OF f, of set] by simp
      ultimately show ?thesis using d(4) unfolding nodes_ok_def by (metis (no_types, lifting) image_iff)
    qed
    obtain A where A: "set (ct_nodes C t) = insert (ct_nodes C t ! i) A"
      "set (ct_nodes C ?t) = insert (fst (ct_nodes C t ! i), v) A"
      "\<forall>m \<in> A. key_str h (fst m) \<noteq> s"
      using nodes_split [OF d(4) i(1)] i(3) unfolding s(2) by metis
    have "table_content C (?t, h) = (table_content C (t, h))(s \<mapsto> v)"
    proof (rule map_eqI)
      fix x u
      show "table_content C (?t, h) x = Some u \<longleftrightarrow> ((table_content C (t, h))(s \<mapsto> v)) x = Some u"
        using i(3) A(3) by (auto simp: content_Some [OF okt] content_Some [OF d(4)] A(1,2))
    qed
    moreover have "table_ptrs C (?t, h) = table_ptrs C (t, h)"
      using arg_cong [OF f, of set] by (simp add: table_ptrs_def)
    ultimately show ?thesis
      using i s(1) okt d Some st
      by (intro exI [of _ "(?t, h)"]) (simp add: scan_Update_def table_ok_def value_of_def)
  qed
qed

lemma scan_remove_law:
  assumes "table_ok C okc ma st" "deref (snd st) a = Inr s"
  shows "\<exists>st'. scan_Remove C nd st a = Inr (value_of (table_content C st s), st') \<and>
    table_ok C okc ma st' \<and> table_content C st' = (table_content C st)(s := None) \<and>
    (if table_content C st s = None then snd st' = snd st \<and> table_ptrs C st' = table_ptrs C st
     else \<exists>b \<in> table_ptrs C st. map_of (snd st) b = Some s \<and>
       snd st' = AList.delete b (snd st) \<and> table_ptrs C st' = table_ptrs C st - {b})"
proof -
  obtain t h where st: "st = (t, h)" by (cases st)
  note d = table_okD [OF assms(1) [unfolded st], simplified]
  note fnd = table_find [OF assms(1) [unfolded st], of a s nd]
  show ?thesis
  proof (cases "table_content C (t, h) s")
    case None
    moreover have "(table_content C (t, h))(s := None) = table_content C (t, h)"
      using None by (simp add: fun_upd_idem)
    ultimately show ?thesis
      using fnd assms st by (intro exI [of _ st]) (simp add: scan_Remove_def value_of_def)
  next
    case (Some w)
    then obtain i where i: "i < length (ct_nodes C t)" "scan_find C nd (t, h) a = Inr (Some i)"
      "key_str h (fst (ct_nodes C t ! i)) = s" "snd (ct_nodes C t ! i) = w"
      using fnd assms(2) st by auto
    let ?n = "ct_nodes C t ! i" and ?t = "ct_erase C t i"
    let ?h = "Free h (fst ?n)"
    have e: "okc ?t" "add_mset ?n (mset (ct_nodes C ?t)) = mset (ct_nodes C t)"
      using hash_container.erase_nodes [OF d(1,3) i(1)] by simp_all
    note f = nodes_ok_Free [OF d(4) e(2)]
    have pn: "points_to h (fst ?n) s" using nodes_ok_points [OF d(4) nth_mem [OF i(1)]] i(3) by simp
    have av: "hs_value (fst m) \<noteq> hs_value (fst ?n)" if "m \<in> set (ct_nodes C ?t)" for m
      using f(3) that by (auto simp: key_str_def)
    have "table_content C (?t, ?h) = (table_content C (t, h))(s := None)"
    proof (rule map_eqI)
      fix x u
      show "table_content C (?t, ?h) x = Some u \<longleftrightarrow> ((table_content C (t, h))(s := None)) x = Some u"
        using i(3) f(2,3) by (auto simp: content_Some [OF f(1)] content_Some [OF d(4)] f(4))
    qed
    moreover have "table_ptrs C (?t, ?h) = table_ptrs C (t, h) - {hs_value (fst ?n)}"
      using av f(4) by (auto simp: table_ptrs_def)
    moreover have "hs_value (fst ?n) \<in> table_ptrs C (t, h)" "map_of h (hs_value (fst ?n)) = Some s"
      using pn i(1) by (auto simp: table_ptrs_def points_to_def deref_Inr)
    ultimately show ?thesis
      using i e(1) f(1) d Some st
      by (intro exI [of _ "(?t, ?h)"])
        (auto simp: scan_Remove_def table_ok_def value_of_def Free_def MemAlloc_Free_def)
  qed
qed

lemma scan_size_law:
  assumes "table_ok C okc ma st"
  shows "scan_Size C st = card (dom (table_content C st)) \<and> finite (dom (table_content C st))"
proof -
  obtain t h where st: "st = (t, h)" by (cases st)
  note d = table_okD [OF assms [unfolded st], simplified]
  have "dom (table_content C (t, h)) = set (map (\<lambda>n. key_str h (fst n)) (ct_nodes C t))"
    by (simp add: table_content_def dom_map_of_conv_image_fst image_image)
  moreover have "card (set (map (\<lambda>n. key_str h (fst n)) (ct_nodes C t))) = length (ct_nodes C t)"
    using d(4) distinct_card unfolding nodes_ok_def by fastforce
  ultimately show ?thesis
    using hash_container.size_nodes [OF d(1,3)] st by (simp add: scan_Size_def)
qed

lemma scan_entries_law:
  assumes "table_ok C okc ma st"
  shows "\<exists>es. scan_Entries C nd st 0 n = Inr es \<and>
    length es = min (unat n) (card (dom (table_content C st))) \<and> distinct (map fst es) \<and>
    (\<forall>(b, v) \<in> set es. b \<in> table_ptrs C st \<and>
      (\<exists>s. map_of (snd st) b = Some s \<and> table_content C st s = Some v))"
proof -
  obtain t h where st: "st = (t, h)" by (cases st)
  note d = table_okD [OF assms [unfolded st], simplified]
  let ?es = "map (\<lambda>(k, v). (hs_value k, v)) (take (unat n) (ct_nodes C t))"
  have r: "scan_Entries C nd (t, h) 0 n = Inr ?es"
    by (simp add: scan_Entries_def entries_from_def)
  have l: "length (ct_nodes C t) = card (dom (table_content C (t, h)))"
    using scan_size_law [OF assms] hash_container.size_nodes [OF d(1,3)] st by (simp add: scan_Size_def)
  have "key_str h = (\<lambda>k. case map_of h (hs_value k) of None \<Rightarrow> [] | Some s \<Rightarrow> s)"
    by (simp add: key_str_def fun_eq_iff)
  then have "map (\<lambda>n. key_str h (fst n)) (ct_nodes C t) =
      map (\<lambda>a. case map_of h a of None \<Rightarrow> [] | Some s \<Rightarrow> s) (map (\<lambda>n. hs_value (fst n)) (ct_nodes C t))"
    by simp
  then have "distinct (map (\<lambda>n. hs_value (fst n)) (ct_nodes C t))"
    using d(4) distinct_map unfolding nodes_ok_def by metis
  then have "distinct (take (unat n) (map (\<lambda>n. hs_value (fst n)) (ct_nodes C t)))"
    by (rule distinct_take)
  then have dis: "distinct (map fst ?es)"
    by (simp add: take_map comp_def split_def)
  have "b \<in> table_ptrs C (t, h) \<and> (\<exists>s. map_of h b = Some s \<and> table_content C (t, h) s = Some v)"
    if m: "(b, v) \<in> set ?es" for b v
  proof -
    obtain k where k: "(k, v) \<in> set (ct_nodes C t)" "b = hs_value k"
      using m by (auto dest: in_set_takeD)
    have "points_to h k (key_str h k)" using nodes_ok_points [OF d(4) k(1)] by simp
    then have "map_of h b = Some (key_str h k)" using k(2) by (simp add: points_to_def deref_Inr)
    moreover have "table_content C (t, h) (key_str h k) = Some v"
      using k(1) unfolding content_Some [OF d(4)] by force
    moreover have "b \<in> table_ptrs C (t, h)" using k by (force simp: table_ptrs_def)
    ultimately show ?thesis by blast
  qed
  then have "\<forall>(b, v) \<in> set ?es. b \<in> table_ptrs C (t, h) \<and>
      (\<exists>s. map_of h b = Some s \<and> table_content C (t, h) s = Some v)" by blast
  moreover have "length ?es = min (unat n) (card (dom (table_content C (t, h))))"
    using l by simp
  ultimately show ?thesis using r dis unfolding st snd_conv by blast
qed

lemma scan_null_law:
  "scan_Insert C ma nd st 0 v = Inr (False, st) \<and>
   scan_Get C nd st 0 = Inl (if nd then Undefined else Assert_Fail) \<and>
   scan_Update C nd st 0 v = Inl (if nd then Undefined else Assert_Fail) \<and>
   scan_Remove C nd st 0 = Inl (if nd then Undefined else Assert_Fail)"
  by (simp add: scan_Insert_def scan_Get_def scan_Update_def scan_Remove_def scan_null)

interpretation scan_i: string_table "tbb_scan_table C ma nd" nd "table_content C" snd "table_ptrs C"
    "table_ok C okc ma" for C :: "('t, 'v) container" and okc ma nd
proof
  fix st :: "'t \<times> mem" and a s v n
  let ?T = "tbb_scan_table C ma nd"
  have sel: "tc_Get ?T = scan_Get C nd" "tc_Insert ?T = scan_Insert C ma nd" "tc_Update ?T = scan_Update C nd"
    "tc_Remove ?T = scan_Remove C nd" "tc_Entries ?T = scan_Entries C nd" "tc_Size ?T = scan_Size C"
    by (simp_all add: tbb_scan_table_def)
  assume ok: "table_ok C okc ma st"
  note laws = scan_size_law [OF ok] scan_entries_law [OF ok] scan_null_law
  note key_laws = scan_get_law [OF ok] scan_insert_law [OF ok] scan_update_law [OF ok]
    scan_remove_law [OF ok]
  show "tc_Size ?T st = card (dom (table_content C st)) \<and> finite (dom (table_content C st))"
    unfolding sel by (rule laws)
  show "\<exists>es. tc_Entries ?T st 0 n = Inr es \<and>
      length es = min (unat n) (card (dom (table_content C st))) \<and> distinct (map fst es) \<and>
      (\<forall>(b, v) \<in> set es. b \<in> table_ptrs C st \<and>
        (\<exists>s. map_of (snd st) b = Some s \<and> table_content C st s = Some v))"
    unfolding sel by (rule laws)
  show "tc_Insert ?T st 0 v = Inr (False, st) \<and>
      tc_Get ?T st 0 = Inl (if nd then Undefined else Assert_Fail) \<and>
      tc_Update ?T st 0 v = Inl (if nd then Undefined else Assert_Fail) \<and>
      tc_Remove ?T st 0 = Inl (if nd then Undefined else Assert_Fail)"
    unfolding sel by (rule laws)
  assume a: "deref (snd st) a = Inr s"
  show "tc_Get ?T st a = Inr (value_of (table_content C st s))"
    unfolding sel by (rule key_laws [OF a])
  show "\<exists>st' b. tc_Insert ?T st a v = Inr (table_content C st s = None, st') \<and> table_ok C okc ma st' \<and>
      table_content C st' = (if table_content C st s = None then (table_content C st)(s \<mapsto> v)
        else table_content C st) \<and>
      b \<noteq> 0 \<and> map_of (snd st) b = None \<and> snd st' = (b, s) # snd st \<and>
      table_ptrs C st' = (if table_content C st s = None then insert b (table_ptrs C st) else table_ptrs C st)"
    unfolding sel by (rule key_laws [OF a])
  show "\<exists>st'. tc_Update ?T st a v = Inr (value_of (table_content C st s), st') \<and> table_ok C okc ma st' \<and>
      table_content C st' = (if table_content C st s = None then table_content C st
        else (table_content C st)(s \<mapsto> v)) \<and> snd st' = snd st \<and> table_ptrs C st' = table_ptrs C st"
    unfolding sel by (rule key_laws [OF a])
  show "\<exists>st'. tc_Remove ?T st a = Inr (value_of (table_content C st s), st') \<and> table_ok C okc ma st' \<and>
      table_content C st' = (table_content C st)(s := None) \<and>
      (if table_content C st s = None then snd st' = snd st \<and> table_ptrs C st' = table_ptrs C st
       else \<exists>b \<in> table_ptrs C st. map_of (snd st) b = Some s \<and>
         snd st' = AList.delete b (snd st) \<and> table_ptrs C st' = table_ptrs C st - {b})"
    unfolding sel by (rule key_laws [OF a])
qed

interpretation rand_i: string_table "tbb_rand_table C ma nd" nd "table_content C" snd "table_ptrs C"
    "table_ok C okc ma" for C okc ma nd
  unfolding tables_alike(1) by (rule scan_i.string_table_axioms)

interpretation stl_i: string_table "stl_table ro ma nd" nd "table_content (unordered_map ro)" snd
    "table_ptrs (unordered_map ro)" "table_ok (unordered_map ro) (\<lambda>_. keeps_nodes ro) ma" for ro ma nd
  unfolding tables_alike(3) by (rule scan_i.string_table_axioms)

interpretation lock_i: string_table "lock_stl_table ro ma nd" nd "table_content (unordered_map ro)" snd
    "table_ptrs (unordered_map ro)" "table_ok (unordered_map ro) (\<lambda>_. keeps_nodes ro) ma" for ro ma nd
  unfolding tables_alike(2) by (rule stl_i.string_table_axioms)

section \<open>Runs of calls\<close>

datatype 'v table_call =
    Get_Of addr
  | Insert_Of addr "'v option"
  | Update_Of addr "'v option"
  | Remove_Of addr
  | Size_Of

datatype 'v table_answer = Value "'v option" | Flag bool | Count nat

fun call_key :: "'v table_call \<Rightarrow> addr option" where
  "call_key (Get_Of a) = Some a"
| "call_key (Insert_Of a v) = Some a"
| "call_key (Update_Of a v) = Some a"
| "call_key (Remove_Of a) = Some a"
| "call_key Size_Of = None"

fun table_step ::
  "('st, 'v) table_class \<Rightarrow> 'st \<Rightarrow> 'v table_call \<Rightarrow> stop + ('v table_answer \<times> 'st)" where
  "table_step T st (Get_Of a) = bind_r (tc_Get T st a) (\<lambda>v. Inr (Value v, st))"
| "table_step T st (Insert_Of a v) = bind_r (tc_Insert T st a v) (\<lambda>(b, st). Inr (Flag b, st))"
| "table_step T st (Update_Of a v) = bind_r (tc_Update T st a v) (\<lambda>(v, st). Inr (Value v, st))"
| "table_step T st (Remove_Of a) = bind_r (tc_Remove T st a) (\<lambda>(v, st). Inr (Value v, st))"
| "table_step T st Size_Of = Inr (Count (tc_Size T st), st)"

fun table_run ::
  "('st, 'v) table_class \<Rightarrow> 'st \<Rightarrow> 'v table_call list \<Rightarrow> stop + ('v table_answer list \<times> 'st)" where
  "table_run T st [] = Inr ([], st)"
| "table_run T st (c # cs) =
     bind_r (table_step T st c) (\<lambda>(x, st).
     bind_r (table_run T st cs) (\<lambda>(xs, st). Inr (x # xs, st)))"

text \<open>The same calls on a map, where \<open>str\<close> gives the strings the callers' keys point to.\<close>

fun map_step ::
  "(addr \<Rightarrow> string) \<Rightarrow> (string \<rightharpoonup> 'v option) \<Rightarrow> 'v table_call \<Rightarrow> 'v table_answer \<times> (string \<rightharpoonup> 'v option)" where
  "map_step str m (Get_Of a) = (Value (value_of (m (str a))), m)"
| "map_step str m (Insert_Of a v) =
     (Flag (m (str a) = None), if m (str a) = None then m(str a \<mapsto> v) else m)"
| "map_step str m (Update_Of a v) =
     (Value (value_of (m (str a))), if m (str a) = None then m else m(str a \<mapsto> v))"
| "map_step str m (Remove_Of a) = (Value (value_of (m (str a))), m(str a := None))"
| "map_step str m Size_Of = (Count (card (dom m)), m)"

fun map_run ::
  "(addr \<Rightarrow> string) \<Rightarrow> (string \<rightharpoonup> 'v option) \<Rightarrow> 'v table_call list \<Rightarrow>
    'v table_answer list \<times> (string \<rightharpoonup> 'v option)" where
  "map_run str m [] = ([], m)"
| "map_run str m (c # cs) =
     (let (x, m) = map_step str m c; (xs, m) = map_run str m cs in (x # xs, m))"

definition readable :: "(addr \<Rightarrow> string) \<Rightarrow> addr set \<Rightarrow> mem \<Rightarrow> addr set \<Rightarrow> bool" where
  "readable str K h P \<longleftrightarrow> (\<forall>a \<in> K. deref h a = Inr (str a) \<and> a \<notin> P)"

definition blocks :: "mem \<Rightarrow> nat" where
  "blocks h = card (dom (map_of h))"

text \<open>The inserts that found their key present.\<close>

fun failed_insert :: "'v table_answer \<Rightarrow> nat" where
  "failed_insert (Flag b) = of_bool (\<not> b)"
| "failed_insert _ = 0"

lemma readable_Cons:
  assumes "readable str K h P" "map_of h b = None" "P' \<subseteq> insert b P"
  shows "readable str K ((b, s) # h) P'"
  using assms by (fastforce simp: readable_def deref_Inr)

lemma readable_delete:
  assumes "readable str K h P" "b \<in> P" "P' \<subseteq> P"
  shows "readable str K (AList.delete b h) P'"
  using assms by (fastforce simp: readable_def deref_Inr delete_conv')

lemma blocks_Cons: "map_of h b = None \<Longrightarrow> blocks ((b, s) # h) = Suc (blocks h)"
  by (simp add: blocks_def finite_dom_map_of domIff)

lemma blocks_delete: "map_of h b = Some s \<Longrightarrow> Suc (blocks (AList.delete b h)) = blocks h"
  using card_Suc_Diff1 [of "dom (map_of h)" b]
  by (simp add: blocks_def delete_conv' finite_dom_map_of domIff)

lemma card_dom_del: "finite (dom m) \<Longrightarrow> m k = Some v \<Longrightarrow> Suc (card (dom (m(k := None)))) = card (dom m)"
  using card_Suc_Diff1 [of "dom m" k] by (simp add: domIff)

context string_table
begin

lemma step_refines:
  assumes "ok st" "readable str K (mem_of st) (ptrs st)" "\<forall>a. call_key c = Some a \<longrightarrow> a \<in> K"
  shows "\<exists>st'. table_step T st c = Inr (fst (map_step str (content st) c), st') \<and> ok st' \<and>
    content st' = snd (map_step str (content st) c) \<and> readable str K (mem_of st') (ptrs st') \<and>
    blocks (mem_of st') + card (dom (content st)) =
      blocks (mem_of st) + card (dom (content st')) + failed_insert (fst (map_step str (content st) c))"
proof -
  note fin = size_law [OF assms(1)]
  have key: "deref (mem_of st) a = Inr (str a)" if "call_key c = Some a" for a
    using that assms(2,3) by (simp add: readable_def)
  show ?thesis
  proof (cases c)
    case (Get_Of a)
    then show ?thesis using get_law [OF assms(1) key [of a]] assms by simp
  next
    case (Insert_Of a v)
    obtain st' b where i: "tc_Insert T st a v = Inr (content st (str a) = None, st')" "ok st'"
      "content st' = (if content st (str a) = None then (content st)(str a \<mapsto> v) else content st)"
      "map_of (mem_of st) b = None" "mem_of st' = (b, str a) # mem_of st"
      "ptrs st' = (if content st (str a) = None then insert b (ptrs st) else ptrs st)"
      using insert_law [OF assms(1) key [of a], of v] Insert_Of by auto
    have "readable str K (mem_of st') (ptrs st')"
      unfolding i(5) using readable_Cons [OF assms(2) i(4)] i(6) by (auto split: if_splits)
    moreover have "blocks (mem_of st') = Suc (blocks (mem_of st))"
      unfolding i(5) by (rule blocks_Cons [OF i(4)])
    ultimately show ?thesis
      using i(1-3) Insert_Of fin by (auto simp: card_insert_if domIff)
  next
    case (Update_Of a v)
    obtain st' where i: "tc_Update T st a v = Inr (value_of (content st (str a)), st')" "ok st'"
      "content st' = (if content st (str a) = None then content st else (content st)(str a \<mapsto> v))"
      "mem_of st' = mem_of st" "ptrs st' = ptrs st"
      using update_law [OF assms(1) key [of a], of v] Update_Of by auto
    have "dom (content st') = dom (content st)" using i(3) by (auto split: if_splits)
    then show ?thesis using i assms(2) Update_Of by simp
  next
    case (Remove_Of a)
    obtain st' where i: "tc_Remove T st a = Inr (value_of (content st (str a)), st')" "ok st'"
      "content st' = (content st)(str a := None)"
      "if content st (str a) = None then mem_of st' = mem_of st \<and> ptrs st' = ptrs st
       else \<exists>b \<in> ptrs st. map_of (mem_of st) b = Some (str a) \<and>
         mem_of st' = AList.delete b (mem_of st) \<and> ptrs st' = ptrs st - {b}"
      using remove_law [OF assms(1) key [of a]] Remove_Of by auto
    show ?thesis
    proof (cases "content st (str a)")
      case None
      then have "content st' = content st" using i(3) by (simp add: fun_upd_idem)
      then show ?thesis using i None assms(2) Remove_Of by simp
    next
      case (Some w)
      then obtain b where b: "b \<in> ptrs st" "map_of (mem_of st) b = Some (str a)"
        "mem_of st' = AList.delete b (mem_of st)" "ptrs st' = ptrs st - {b}" using i(4) by auto
      have "readable str K (mem_of st') (ptrs st')"
        unfolding b(3) using readable_delete [OF assms(2) b(1)] b(4) by auto
      moreover have "Suc (blocks (mem_of st')) = blocks (mem_of st)"
        unfolding b(3) by (rule blocks_delete [OF b(2)])
      moreover have "Suc (card (dom (content st'))) = card (dom (content st))"
        unfolding i(3) using card_dom_del [of "content st" "str a" w] Some fin by blast
      ultimately show ?thesis using i(1-3) Remove_Of by auto
    qed
  next
    case Size_Of
    then show ?thesis using fin assms by simp
  qed
qed

lemma run_refines:
  assumes "ok st" "readable str K (mem_of st) (ptrs st)" "\<forall>c \<in> set cs. \<forall>a. call_key c = Some a \<longrightarrow> a \<in> K"
  shows "\<exists>st'. table_run T st cs = Inr (fst (map_run str (content st) cs), st') \<and> ok st' \<and>
    content st' = snd (map_run str (content st) cs) \<and>
    blocks (mem_of st') + card (dom (content st)) =
      blocks (mem_of st) + card (dom (content st')) +
      sum_list (map failed_insert (fst (map_run str (content st) cs)))"
  using assms
proof (induction cs arbitrary: st)
  case (Cons c cs)
  obtain st1 where s: "table_step T st c = Inr (fst (map_step str (content st) c), st1)" "ok st1"
    "content st1 = snd (map_step str (content st) c)" "readable str K (mem_of st1) (ptrs st1)"
    "blocks (mem_of st1) + card (dom (content st)) =
      blocks (mem_of st) + card (dom (content st1)) + failed_insert (fst (map_step str (content st) c))"
    using step_refines [OF Cons.prems(1,2), of c] Cons.prems(3) by auto
  have "\<forall>c \<in> set cs. \<forall>a. call_key c = Some a \<longrightarrow> a \<in> K" using Cons.prems(3) by simp
  from Cons.IH [OF s(2,4) this] s show ?case
    by (auto simp: Let_def split_def)
qed simp

end

section \<open>The four tables\<close>

lemma empty_table_ok:
  assumes "hash_container C okc" "okc t" "ct_nodes C t = []" "fresh_malloc ma"
  shows "table_ok C okc ma (t, h)" "table_content C (t, h) = Map.empty" "table_ptrs C (t, h) = {}"
  using assms by (simp_all add: table_ok_def nodes_ok_def table_content_def table_ptrs_def)

text \<open>
  C20: a \<open>StlHashtable\<close> and a \<open>LockStlHashtable\<close> that start empty answer any sequence of \<open>Get\<close>,
  \<open>Insert\<close>, \<open>Update\<close>, \<open>Remove\<close> and \<open>Size\<close> as a map from strings to values does, where
  \<open>Insert\<close> keeps a value that is there and \<open>Update\<close> does not add one, in whatever order the
  container keeps its nodes and wherever \<open>malloc\<close> puts the copies of the keys.
\<close>

theorem stl_tables_refine_map:
  assumes "keeps_nodes ro" "fresh_malloc ma" "T = stl_table ro ma nd \<or> T = lock_stl_table ro ma nd"
    and "\<forall>c \<in> set cs. \<forall>a. call_key c = Some a \<longrightarrow> deref h a = Inr (str a)"
  shows "\<exists>st. table_run T ([], h) cs = Inr (fst (map_run str Map.empty cs), st) \<and>
    table_content (unordered_map ro) st = snd (map_run str Map.empty cs)"
proof -
  have n: "ct_nodes (unordered_map ro) [] = []" by (simp add: unordered_map_def)
  note e = empty_table_ok [OF umap_i.hash_container_axioms assms(1) n assms(2), of h]
  let ?K = "{a. \<exists>c \<in> set cs. call_key c = Some a}"
  have r: "readable str ?K (snd ([], h)) (table_ptrs (unordered_map ro) ([], h))"
    using assms(4) by (auto simp: readable_def e(3))
  have k: "\<forall>c \<in> set cs. \<forall>a. call_key c = Some a \<longrightarrow> a \<in> ?K" by blast
  show ?thesis
    using assms(3) stl_i.run_refines [OF e(1) r k] lock_i.run_refines [OF e(1) r k] unfolding e(2) by blast
qed

text \<open>
  C21: the two TBB tables do so too, if the TBB container keeps the laws of \<open>hash_container\<close>:
  its documented lookup, insertion and erasure by key equality.
\<close>

theorem tbb_tables_refine_map:
  assumes "hash_container C okc" "okc t" "ct_nodes C t = []" "fresh_malloc ma"
    and "T = tbb_rand_table C ma nd \<or> T = tbb_scan_table C ma nd"
    and "\<forall>c \<in> set cs. \<forall>a. call_key c = Some a \<longrightarrow> deref h a = Inr (str a)"
  shows "\<exists>st. table_run T (t, h) cs = Inr (fst (map_run str Map.empty cs), st) \<and>
    table_content C st = snd (map_run str Map.empty cs)"
proof -
  note e = empty_table_ok [OF assms(1-4), of h]
  let ?K = "{a. \<exists>c \<in> set cs. call_key c = Some a}"
  have r: "readable str ?K (snd (t, h)) (table_ptrs C (t, h))"
    using assms(6) by (auto simp: readable_def e(3))
  have k: "\<forall>c \<in> set cs. \<forall>a. call_key c = Some a \<longrightarrow> a \<in> ?K" by blast
  show ?thesis
    using assms(5) rand_i.run_refines [OF e(1) r k] scan_i.run_refines [OF e(1) r k] unfolding e(2) by blast
qed

text \<open>
  C22: an \<open>Insert\<close> whose key is present leaks: it copies the key before it looks, and nothing
  frees the copy.  After any run the blocks allocated beyond those at the start are
  the entries of the table and one for each failed insert.
\<close>

theorem failed_inserts_leak:
  assumes "keeps_nodes ro" "fresh_malloc ma"
    and "\<forall>c \<in> set cs. \<forall>a. call_key c = Some a \<longrightarrow> deref h a = Inr (str a)"
  shows "\<exists>answers st. table_run (stl_table ro ma nd) ([], h) cs = Inr (answers, st) \<and>
    (answers, stl_Size ro st) = apsnd (\<lambda>m. card (dom m)) (map_run str Map.empty cs) \<and>
    blocks (snd st) = blocks h + stl_Size ro st + sum_list (map failed_insert answers)"
proof -
  have n: "ct_nodes (unordered_map ro) [] = []" by (simp add: unordered_map_def)
  note e = empty_table_ok [OF umap_i.hash_container_axioms assms(1) n assms(2), of h]
  let ?K = "{a. \<exists>c \<in> set cs. call_key c = Some a}"
  have r: "readable str ?K (snd ([], h)) (table_ptrs (unordered_map ro) ([], h))"
    using assms(3) by (auto simp: readable_def e(3))
  have k: "\<forall>c \<in> set cs. \<forall>a. call_key c = Some a \<longrightarrow> a \<in> ?K" by blast
  obtain st where st: "table_run (stl_table ro ma nd) ([], h) cs = Inr (fst (map_run str Map.empty cs), st)"
    "table_ok (unordered_map ro) (\<lambda>_. keeps_nodes ro) ma st"
    "table_content (unordered_map ro) st = snd (map_run str Map.empty cs)"
    "blocks (snd st) = blocks h + card (dom (table_content (unordered_map ro) st)) +
       sum_list (map failed_insert (fst (map_run str Map.empty cs)))"
    using stl_i.run_refines [OF e(1) r k, of nd] unfolding e(2) by auto
  have "stl_Size ro st = card (dom (table_content (unordered_map ro) st))"
    using stl_i.size_law [OF st(2), of nd] by (simp add: stl_table_def)
  with st show ?thesis
    by (intro exI [of _ "fst (map_run str Map.empty cs)"] exI [of _ st]) (simp add: apsnd_def map_prod_def split_def)
qed

text \<open>
  \<open>Insert\<close> checks for a null key and returns false; \<open>Get\<close>, \<open>Update\<close> and \<open>Remove\<close> do not, and
  abort on one, or read through it in a build without assertions.
\<close>

theorem null_keys:
  "(stl_Insert ro ma nd st 0 v = Inr (False, st) \<and>
    stl_Get ro nd st 0 = Inl (if nd then Undefined else Assert_Fail) \<and>
    stl_Update ro nd st 0 v = Inl (if nd then Undefined else Assert_Fail) \<and>
    stl_Remove ro nd st 0 = Inl (if nd then Undefined else Assert_Fail)) \<and>
   (scan_Insert C ma nd st' 0 v = Inr (False, st') \<and>
    scan_Get C nd st' 0 = Inl (if nd then Undefined else Assert_Fail) \<and>
    scan_Update C nd st' 0 v = Inl (if nd then Undefined else Assert_Fail) \<and>
    scan_Remove C nd st' 0 = Inl (if nd then Undefined else Assert_Fail))"
  by (simp add: scan_null_law stl_Insert_def stl_Get_def stl_Update_def stl_Remove_def stl_find_def
      Wrap_null split_def Let_def)

section \<open>A small run\<close>

text \<open>An allocator that returns the address after the last one.\<close>

definition bump_malloc :: "mem \<Rightarrow> addr" where
  "bump_malloc h = Suc (foldr (\<lambda>b m. max (fst b) m) h 0)"

lemma bump_above: "(a, s) \<in> set h \<Longrightarrow> a < bump_malloc h"
proof -
  have "(a, s) \<in> set h \<Longrightarrow> a \<le> foldr (\<lambda>b m. max (fst b) m) h 0"
    by (induction h) (auto simp: le_max_iff_disj)
  then show "(a, s) \<in> set h \<Longrightarrow> a < bump_malloc h" by (simp add: bump_malloc_def less_Suc_eq_le)
qed

lemma bump_fresh: "fresh_malloc bump_malloc"
proof -
  have "map_of h (bump_malloc h) = None" for h
  proof (rule ccontr)
    assume "map_of h (bump_malloc h) \<noteq> None"
    then obtain s where "(bump_malloc h, s) \<in> set h" by (auto dest: map_of_SomeD)
    then show False using bump_above by blast
  qed
  then show ?thesis by (simp add: fresh_malloc_def) (simp add: bump_malloc_def)
qed

lemma front_keeps: "keeps_nodes (\<lambda>t. t)"
  by (simp add: keeps_nodes_def)

definition small_mem :: mem where
  "small_mem = [(1, ''a''), (2, ''b''), (3, ''a'')]"

definition small_str :: "addr \<Rightarrow> string" where
  "small_str a = (if a = 2 then ''b'' else ''a'')"

definition small_calls :: "nat table_call list" where
  "small_calls =
     [Insert_Of 1 (Some 5), Insert_Of 3 (Some 6), Get_Of 3, Update_Of 2 (Some 7),
      Insert_Of 2 None, Size_Of, Remove_Of 1, Get_Of 3]"

lemma small_readable: "\<forall>c \<in> set small_calls. \<forall>a. call_key c = Some a \<longrightarrow> deref small_mem a = Inr (small_str a)"
  by (simp add: small_calls_def small_mem_def small_str_def deref_def)

lemma small_map_run:
  "map_run small_str Map.empty small_calls =
     ([Flag True, Flag False, Value (Some 5), Value None, Flag True, Count 2, Value (Some 5), Value None],
      [''b'' \<mapsto> None])"
  by (simp add: small_calls_def small_str_def value_of_def fun_eq_iff)

theorem stl_tables_refine_map_witness:
  "\<exists>st. table_run (lock_stl_table (\<lambda>t. t) bump_malloc False) ([], small_mem) small_calls =
     Inr ([Flag True, Flag False, Value (Some 5), Value None, Flag True, Count 2, Value (Some 5), Value None], st)"
proof -
  have "lock_stl_table (\<lambda>t. t) bump_malloc False = stl_table (\<lambda>t. t) bump_malloc False \<or>
    lock_stl_table (\<lambda>t. t) bump_malloc False = lock_stl_table (\<lambda>t. t) bump_malloc False" by simp
  from stl_tables_refine_map [OF front_keeps bump_fresh this small_readable] show ?thesis
    by (auto simp: small_map_run)
qed

theorem tbb_tables_refine_map_witness:
  "\<exists>st. table_run (tbb_scan_table (unordered_map rev) bump_malloc True) ([], small_mem) small_calls =
     Inr ([Flag True, Flag False, Value (Some 5), Value None, Flag True, Count 2, Value (Some 5), Value None], st)"
proof -
  have k: "keeps_nodes rev" by (simp add: keeps_nodes_def)
  have n: "ct_nodes (unordered_map rev) [] = []" by (simp add: unordered_map_def)
  have "tbb_scan_table (unordered_map rev) bump_malloc True = tbb_rand_table (unordered_map rev) bump_malloc True \<or>
    tbb_scan_table (unordered_map rev) bump_malloc True = tbb_scan_table (unordered_map rev) bump_malloc True"
    by simp
  from tbb_tables_refine_map [OF umap_i.hash_container_axioms k n bump_fresh this small_readable] show ?thesis
    by (auto simp: small_map_run)
qed

theorem failed_inserts_leak_witness:
  "\<exists>st. table_run (stl_table (\<lambda>t. t) bump_malloc False) ([], small_mem) small_calls =
     Inr ([Flag True, Flag False, Value (Some 5), Value None, Flag True, Count 2, Value (Some 5), Value None], st) \<and>
   blocks (snd st) = 5 \<and> stl_Size (\<lambda>t. t) st = 1"
proof -
  have "blocks small_mem = 3" by (simp add: blocks_def small_mem_def)
  with failed_inserts_leak [OF front_keeps bump_fresh small_readable, of False] show ?thesis
    by (auto simp: small_map_run)
qed

end
