(* ===== verification/Lock_Steps.thy ===== *)
theory Lock_Steps
  imports Hash_Facts
begin

text \<open>
  \<open>lib/lock_stl_hashtable.h\<close> with its mutex: threads that share one \<open>LockStlHashtable\<close> and
  interleave inside its calls.  A call takes the mutex (the constructor of
  \<open>std::lock_guard\<close>), runs the body of the base class statement by statement, and releases
  the mutex when it returns.  Every run is equivalent to one in which the calls happen
  one after the other, in the order in which they return.
\<close>

section \<open>The body of a call\<close>

text \<open>
  Where a call is: after \<open>find\<close>, after the copy of the key, after \<open>String::Free\<close>, after
  \<open>V old = pos->second\<close>, or with its answer, before the destructor of the guard.  A position
  in the container is an index, good only as long as nobody else changes the container.
\<close>

datatype 'v pc =
    Entered
  | Found "nat option"
  | Copied hstr
  | Freed nat
  | Kept_Old nat "'v option"
  | Answered "'v table_answer"

fun body_step ::
  "('v node list \<Rightarrow> 'v node list) \<Rightarrow> (mem \<Rightarrow> addr) \<Rightarrow> bool \<Rightarrow> 'v table_call \<Rightarrow> 'v pc \<Rightarrow> 'v stl_state \<Rightarrow>
    stop + ('v pc \<times> 'v stl_state)" where
  "body_step ro ma nd (Get_Of a) Entered st = bind_r (stl_find ro nd st a) (\<lambda>pos. Inr (Found pos, st))"
| "body_step ro ma nd (Get_Of a) (Found None) st = Inr (Answered (Value None), st)"
| "body_step ro ma nd (Get_Of a) (Found (Some i)) st = Inr (Answered (Value (snd (fst st ! i))), st)"
| "body_step ro ma nd (Insert_Of a v) Entered st =
     (if a = 0 then Inr (Answered (Flag False), st)
      else bind_r (Copy nd ma (snd st) a) (\<lambda>(k, h). Inr (Copied k, (fst st, h))))"
| "body_step ro ma nd (Insert_Of a v) (Copied k) st =
     bind_r (ct_insert (unordered_map ro) (hstr_eq (snd st)) (fst st) (k, v)) (\<lambda>(b, table).
     Inr (Answered (Flag b), (table, snd st)))"
| "body_step ro ma nd (Update_Of a v) Entered st = bind_r (stl_find ro nd st a) (\<lambda>pos. Inr (Found pos, st))"
| "body_step ro ma nd (Update_Of a v) (Found None) st = Inr (Answered (Value None), st)"
| "body_step ro ma nd (Update_Of a v) (Found (Some i)) st = Inr (Kept_Old i (snd (fst st ! i)), st)"
| "body_step ro ma nd (Update_Of a v) (Kept_Old i old) st =
     Inr (Answered (Value old), (ct_set (unordered_map ro) (fst st) i v, snd st))"
| "body_step ro ma nd (Remove_Of a) Entered st = bind_r (stl_find ro nd st a) (\<lambda>pos. Inr (Found pos, st))"
| "body_step ro ma nd (Remove_Of a) (Found None) st = Inr (Answered (Value None), st)"
| "body_step ro ma nd (Remove_Of a) (Found (Some i)) st =
     Inr (Freed i, (fst st, Free (snd st) (fst (fst st ! i))))"
| "body_step ro ma nd (Remove_Of a) (Freed i) st = Inr (Kept_Old i (snd (fst st ! i)), st)"
| "body_step ro ma nd (Remove_Of a) (Kept_Old i old) st =
     Inr (Answered (Value old), (ct_erase (unordered_map ro) (fst st) i, snd st))"
| "body_step ro ma nd Size_Of Entered st = Inr (Answered (Count (stl_Size ro st)), st)"
| "body_step ro ma nd call pc st = Inl Undefined"

text \<open>The statements left, counting the release of the mutex.\<close>

fun statements_left :: "'v pc \<Rightarrow> nat" where
  "statements_left Entered = 5"
| "statements_left (Found pos) = 4"
| "statements_left (Copied k) = 3"
| "statements_left (Freed i) = 3"
| "statements_left (Kept_Old i old) = 2"
| "statements_left (Answered x) = 1"

lemma body_step_left:
  "body_step ro ma nd call pc st = Inr (pc', st') \<Longrightarrow> statements_left pc' < statements_left pc"
  by (cases "(ro, ma, nd, call, pc, st)" rule: body_step.cases)
    (auto simp: bind_r_eq_Inr split: if_splits prod.splits)

lemma body_step_Answered [simp]: "body_step ro ma nd call (Answered x) st = Inl Undefined"
  by (cases call) simp_all

text \<open>The rest of a body, run to its end.\<close>

function body_rest ::
  "('v node list \<Rightarrow> 'v node list) \<Rightarrow> (mem \<Rightarrow> addr) \<Rightarrow> bool \<Rightarrow> 'v table_call \<Rightarrow> 'v pc \<Rightarrow> 'v stl_state \<Rightarrow>
    stop + ('v table_answer \<times> 'v stl_state)" where
  "body_rest ro ma nd call pc st =
     (case pc of
        Answered x \<Rightarrow> Inr (x, st)
      | _ \<Rightarrow> bind_r (body_step ro ma nd call pc st) (\<lambda>(pc, st). body_rest ro ma nd call pc st))"
  by pat_completeness auto
termination
  by (relation "measure (\<lambda>(_, _, _, _, pc, _). statements_left pc)")
    (auto dest: body_step_left)

declare body_rest.simps [simp del]

lemma body_rest_Answered [simp]: "body_rest ro ma nd call (Answered x) st = Inr (x, st)"
  by (simp add: body_rest.simps)

lemma body_rest_step:
  "body_step ro ma nd call pc st = Inr (pc', st') \<Longrightarrow>
    body_rest ro ma nd call pc st = body_rest ro ma nd call pc' st'"
  unfolding body_rest.simps [of ro ma nd call pc st] by (cases pc) simp_all

lemma body_rest_stops:
  "body_step ro ma nd call pc st = Inl e \<Longrightarrow> \<forall>x. pc \<noteq> Answered x \<Longrightarrow> body_rest ro ma nd call pc st = Inl e"
  unfolding body_rest.simps [of ro ma nd call pc st] by (cases pc) simp_all

text \<open>Alone, the statements of a body are the call.\<close>

lemma body_is_call:
  "body_rest ro ma nd call Entered st = table_step (lock_stl_table ro ma nd) st call"
proof -
  obtain t h where st: "st = (t, h)" by (cases st)
  show ?thesis
    by (cases call)
      (auto simp: st body_rest.simps lock_stl_table_def lock_Get_def lock_Insert_def lock_Update_def
        lock_Remove_def lock_Size_def stl_Get_def stl_Insert_def stl_Update_def stl_Remove_def bind_r_assoc
        Let_def split_def intro!: bind_r_cong split: option.splits)
qed

section \<open>Threads\<close>

datatype 'v lock_thread =
    Outside "'v table_call list"
  | Inside "'v table_call" "'v pc" "'v table_call list"

text \<open>The log has the calls that have returned, by whom and with which answer.\<close>

record 'v lock_conf =
  lk_threads :: "'v lock_thread list"
  lk_mutex :: "nat option"
  lk_table :: "'v stl_state"
  lk_log :: "(nat \<times> 'v table_call \<times> 'v table_answer) list"

inductive lock_step ::
  "('v node list \<Rightarrow> 'v node list) \<Rightarrow> (mem \<Rightarrow> addr) \<Rightarrow> bool \<Rightarrow> 'v lock_conf \<Rightarrow> 'v lock_conf \<Rightarrow> bool"
  for ro ma nd where
    step_lock:
      "\<lbrakk>i < length (lk_threads c); lk_threads c ! i = Outside (call # calls); lk_mutex c = None\<rbrakk> \<Longrightarrow>
       lock_step ro ma nd c
         (c\<lparr>lk_threads := (lk_threads c)[i := Inside call Entered calls], lk_mutex := Some i\<rparr>)"
  | step_body:
      "\<lbrakk>i < length (lk_threads c); lk_threads c ! i = Inside call pc calls;
        body_step ro ma nd call pc (lk_table c) = Inr (pc', st)\<rbrakk> \<Longrightarrow>
       lock_step ro ma nd c
         (c\<lparr>lk_threads := (lk_threads c)[i := Inside call pc' calls], lk_table := st\<rparr>)"
  | step_unlock:
      "\<lbrakk>i < length (lk_threads c); lk_threads c ! i = Inside call (Answered x) calls\<rbrakk> \<Longrightarrow>
       lock_step ro ma nd c
         (c\<lparr>lk_threads := (lk_threads c)[i := Outside calls], lk_mutex := None,
            lk_log := lk_log c @ [(i, call, x)]\<rparr>)"

inductive lock_run ::
  "('v node list \<Rightarrow> 'v node list) \<Rightarrow> (mem \<Rightarrow> addr) \<Rightarrow> bool \<Rightarrow> 'v lock_conf \<Rightarrow> nat \<Rightarrow> 'v lock_conf \<Rightarrow> bool"
  for ro ma nd c where
    locks_none: "lock_run ro ma nd c 0 c"
  | locks_more: "lock_run ro ma nd c n c' \<Longrightarrow> lock_step ro ma nd c' c'' \<Longrightarrow> lock_run ro ma nd c (Suc n) c''"

definition lock_start :: "'v table_call list list \<Rightarrow> mem \<Rightarrow> 'v lock_conf" where
  "lock_start progs h =
     \<lparr>lk_threads = map Outside progs, lk_mutex = None, lk_table = ([], h), lk_log = []\<rparr>"

definition lock_done :: "'v lock_conf \<Rightarrow> bool" where
  "lock_done c \<longleftrightarrow> list_all (\<lambda>t. t = Outside []) (lk_threads c)"

definition logged_calls :: "'v lock_conf \<Rightarrow> 'v table_call list" where
  "logged_calls c = map (\<lambda>(_, call, _). call) (lk_log c)"

definition logged_answers :: "'v lock_conf \<Rightarrow> 'v table_answer list" where
  "logged_answers c = map (\<lambda>(_, _, x). x) (lk_log c)"

definition calls_of :: "nat \<Rightarrow> 'v lock_conf \<Rightarrow> 'v table_call list" where
  "calls_of i c = map (\<lambda>(_, call, _). call) (filter (\<lambda>(j, _). j = i) (lk_log c))"

fun calls_left :: "'v lock_thread \<Rightarrow> 'v table_call list" where
  "calls_left (Outside calls) = calls"
| "calls_left (Inside call pc calls) = call # calls"

fun inside :: "'v lock_thread \<Rightarrow> bool" where
  "inside (Outside calls) \<longleftrightarrow> False"
| "inside (Inside call pc calls) \<longleftrightarrow> True"

fun lock_cost :: "'v lock_thread \<Rightarrow> nat" where
  "lock_cost (Outside calls) = 6 * length calls"
| "lock_cost (Inside call pc calls) = statements_left pc + 6 * length calls"

definition lock_work :: "'v lock_conf \<Rightarrow> nat" where
  "lock_work c = sum_list (map lock_cost (lk_threads c))"

inductive_cases lock_stepE: "lock_step ro ma nd c c'"

section \<open>The invariant\<close>

text \<open>
  The logged calls, run one after the other on the initial table, give the logged answers;
  the table is as they leave it, or the thread that holds the mutex is on its way through
  the body of one more call; no other thread is inside one.
\<close>

definition holder_ok ::
  "('v node list \<Rightarrow> 'v node list) \<Rightarrow> (mem \<Rightarrow> addr) \<Rightarrow> bool \<Rightarrow> 'v lock_conf \<Rightarrow> 'v stl_state \<Rightarrow> bool" where
  "holder_ok ro ma nd c st \<longleftrightarrow>
     (case lk_mutex c of
        None \<Rightarrow> lk_table c = st
      | Some j \<Rightarrow> j < length (lk_threads c) \<and>
          (\<exists>call pc calls. lk_threads c ! j = Inside call pc calls \<and>
             body_rest ro ma nd call pc (lk_table c) = table_step (lock_stl_table ro ma nd) st call))"

definition lock_inv ::
  "('v node list \<Rightarrow> 'v node list) \<Rightarrow> (mem \<Rightarrow> addr) \<Rightarrow> bool \<Rightarrow> 'v stl_state \<Rightarrow> 'v table_call list list \<Rightarrow>
    'v lock_conf \<Rightarrow> bool" where
  "lock_inv ro ma nd st0 progs c \<longleftrightarrow>
     length (lk_threads c) = length progs \<and>
     (\<forall>i < length progs. calls_of i c @ calls_left (lk_threads c ! i) = progs ! i) \<and>
     (\<forall>i < length progs. inside (lk_threads c ! i) \<longrightarrow> lk_mutex c = Some i) \<and>
     (\<exists>st. table_run (lock_stl_table ro ma nd) st0 (logged_calls c) = Inr (logged_answers c, st) \<and>
        holder_ok ro ma nd c st)"

lemma table_run_snoc:
  assumes "table_run T st cs = Inr (xs, st1)" "table_step T st1 c = Inr (x, st2)"
  shows "table_run T st (cs @ [c]) = Inr (xs @ [x], st2)"
  using assms by (induction cs arbitrary: st xs) (auto simp: bind_r_eq_Inr)

lemma table_run_stop:
  assumes "table_run T st cs = Inr (xs, st1)" "table_step T st1 c = Inl e"
  shows "table_run T st (cs @ [c]) = Inl e"
  using assms by (induction cs arbitrary: st xs) (auto simp: bind_r_eq_Inr)

lemma lock_start_inv: "lock_inv ro ma nd ([], h) progs (lock_start progs h)"
  by (simp add: lock_inv_def lock_start_def holder_ok_def logged_calls_def logged_answers_def calls_of_def)

lemma lock_step_inv:
  assumes "lock_step ro ma nd c c'" "lock_inv ro ma nd st0 progs c"
  shows "lock_inv ro ma nd st0 progs c'"
proof -
  obtain st where len: "length (lk_threads c) = length progs"
    and order: "\<And>i. i < length progs \<Longrightarrow> calls_of i c @ calls_left (lk_threads c ! i) = progs ! i"
    and excl: "\<And>i. i < length progs \<Longrightarrow> inside (lk_threads c ! i) \<Longrightarrow> lk_mutex c = Some i"
    and run: "table_run (lock_stl_table ro ma nd) st0 (logged_calls c) = Inr (logged_answers c, st)"
    and hold: "holder_ok ro ma nd c st"
    using assms(2) by (auto simp: lock_inv_def)
  from assms(1) show ?thesis
  proof cases
    case (step_lock i call calls)
    have "inside (lk_threads c' ! j) \<longrightarrow> lk_mutex c' = Some j" if "j < length progs" for j
      using excl [OF that] step_lock that len by (cases "i = j") auto
    moreover have "calls_of j c' @ calls_left (lk_threads c' ! j) = progs ! j" if "j < length progs" for j
      using order [OF that] step_lock that len by (cases "i = j") (auto simp: calls_of_def)
    moreover have "holder_ok ro ma nd c' st"
      using hold step_lock len by (simp add: holder_ok_def body_is_call)
    ultimately show ?thesis
      using run len step_lock(1) by (auto simp: lock_inv_def logged_calls_def logged_answers_def)
  next
    case (step_body i call pc calls pc' st')
    have m: "lk_mutex c = Some i" using excl [of i] step_body len by simp
    have "inside (lk_threads c' ! j) \<longrightarrow> lk_mutex c' = Some j" if "j < length progs" for j
      using excl [OF that] m step_body that len by (cases "i = j") auto
    moreover have "calls_of j c' @ calls_left (lk_threads c' ! j) = progs ! j" if "j < length progs" for j
      using order [OF that] step_body that len by (cases "i = j") (auto simp: calls_of_def)
    moreover have "holder_ok ro ma nd c' st"
      using hold m step_body body_rest_step [OF step_body(4)] by (simp add: holder_ok_def)
    ultimately show ?thesis
      using run len step_body(1) by (auto simp: lock_inv_def logged_calls_def logged_answers_def)
  next
    case (step_unlock i call x calls)
    have m: "lk_mutex c = Some i" using excl [of i] step_unlock len by simp
    have "inside (lk_threads c' ! j) \<longrightarrow> lk_mutex c' = Some j" if "j < length progs" for j
      using excl [OF that] m step_unlock that len by (cases "i = j") auto
    moreover have "calls_of j c' @ calls_left (lk_threads c' ! j) = progs ! j" if "j < length progs" for j
      using order [OF that] step_unlock that len by (cases "i = j") (auto simp: calls_of_def)
    moreover have "table_step (lock_stl_table ro ma nd) st call = Inr (x, lk_table c)"
      using hold m step_unlock by (simp add: holder_ok_def)
    moreover note table_run_snoc [OF run this]
    ultimately show ?thesis
      using len step_unlock(1) by (auto simp: lock_inv_def logged_calls_def logged_answers_def holder_ok_def)
  qed
qed

lemma lock_run_inv:
  "lock_run ro ma nd (lock_start progs h) n c \<Longrightarrow> lock_inv ro ma nd ([], h) progs c"
  by (induction rule: lock_run.induct) (auto intro: lock_start_inv lock_step_inv)

section \<open>Progress\<close>

lemma sum_list_update_less:
  "i < length xs \<Longrightarrow> f y < f (xs ! i) \<Longrightarrow> sum_list (map f (xs[i := y])) < (sum_list (map f xs) :: nat)"
  by (induction xs arbitrary: i) (auto split: nat.splits)

lemma lock_step_work: "lock_step ro ma nd c c' \<Longrightarrow> lock_work c' < lock_work c"
  by (erule lock_stepE) (auto simp: lock_work_def intro!: sum_list_update_less dest: body_step_left)

lemma lock_run_work: "lock_run ro ma nd c n c' \<Longrightarrow> n + lock_work c' \<le> lock_work c"
  by (induction rule: lock_run.induct) (auto dest!: lock_step_work)

lemma lock_start_work: "lock_work (lock_start progs h) = 6 * sum_list (map length progs)"
  by (induction progs) (simp_all add: lock_work_def lock_start_def)

text \<open>
  Any sequence of calls with readable keys returns, so a body inside the mutex never stops,
  and when nobody holds the mutex any thread with a call left can take it.
\<close>

lemma lock_calls_known:
  assumes "lock_inv ro ma nd st0 progs c" "i < length progs" "call \<in> set (calls_left (lk_threads c ! i))"
  shows "\<exists>p \<in> set progs. call \<in> set p"
proof -
  have "calls_of i c @ calls_left (lk_threads c ! i) = progs ! i"
    using assms(1,2) by (simp add: lock_inv_def)
  then have "call \<in> set (progs ! i)" using assms(3) by (metis UnCI set_append)
  with assms(2) show ?thesis using nth_mem by blast
qed

lemma logged_known:
  assumes "lock_inv ro ma nd st0 progs c" "\<forall>(i, _) \<in> set (lk_log c). i < length progs" "call \<in> set (logged_calls c)"
  shows "\<exists>p \<in> set progs. call \<in> set p"
proof -
  obtain i x where i: "(i, call, x) \<in> set (lk_log c)" using assms(3) by (auto simp: logged_calls_def)
  then have l: "i < length progs" using assms(2) by auto
  have "call \<in> set (calls_of i c)" using i by (force simp: calls_of_def)
  moreover have "calls_of i c @ calls_left (lk_threads c ! i) = progs ! i"
    using assms(1) l by (simp add: lock_inv_def)
  ultimately have "call \<in> set (progs ! i)" by (metis UnCI set_append)
  with l show ?thesis using nth_mem by blast
qed

lemma lock_run_length: "lock_run ro ma nd c n c' \<Longrightarrow> length (lk_threads c') = length (lk_threads c)"
  by (induction rule: lock_run.induct) (auto elim!: lock_stepE)

lemma lock_run_log:
  "lock_run ro ma nd c n c' \<Longrightarrow> \<forall>(i, _) \<in> set (lk_log c). i < length (lk_threads c) \<Longrightarrow>
    \<forall>(i, _) \<in> set (lk_log c'). i < length (lk_threads c')"
  by (induction rule: lock_run.induct) (auto elim!: lock_stepE)

text \<open>The key strings of all threads can be read at the start.\<close>

definition keys_readable :: "(addr \<Rightarrow> string) \<Rightarrow> 'v table_call list list \<Rightarrow> mem \<Rightarrow> bool" where
  "keys_readable str progs h \<longleftrightarrow>
     (\<forall>p \<in> set progs. \<forall>c \<in> set p. \<forall>a. call_key c = Some a \<longrightarrow> deref h a = Inr (str a))"

lemma calls_as_map:
  assumes "keeps_nodes ro" "fresh_malloc ma" "keys_readable str progs h" "\<forall>c \<in> set cs. \<exists>p \<in> set progs. c \<in> set p"
  shows "\<exists>st. table_run (lock_stl_table ro ma nd) ([], h) cs = Inr (fst (map_run str Map.empty cs), st) \<and>
    table_content (unordered_map ro) st = snd (map_run str Map.empty cs)"
proof -
  have n: "ct_nodes (unordered_map ro) [] = []" by (simp add: unordered_map_def)
  note e = empty_table_ok [OF umap_i.hash_container_axioms assms(1) n assms(2), of h]
  let ?K = "{a. \<exists>c \<in> set cs. call_key c = Some a}"
  have "readable str ?K (snd ([], h)) (table_ptrs (unordered_map ro) ([], h))"
    using assms(3,4) by (fastforce simp: readable_def e(3) keys_readable_def)
  then show ?thesis using lock_i.run_refines [OF e(1), of str ?K cs] unfolding e(2) by blast
qed

lemma lock_progress:
  assumes "keeps_nodes ro" "fresh_malloc ma" "keys_readable str progs h"
    and "lock_run ro ma nd (lock_start progs h) n c" "\<not> lock_done c"
  shows "\<exists>c'. lock_step ro ma nd c c'"
proof -
  have inv: "lock_inv ro ma nd ([], h) progs c" using lock_run_inv [OF assms(4)] .
  have len: "length (lk_threads c) = length progs" using inv by (simp add: lock_inv_def)
  have log: "\<forall>(i, _) \<in> set (lk_log c). i < length progs"
    using lock_run_log [OF assms(4)] lock_run_length [OF assms(4)] by (simp add: lock_start_def)
  obtain st where run: "table_run (lock_stl_table ro ma nd) ([], h) (logged_calls c) = Inr (logged_answers c, st)"
    and hold: "holder_ok ro ma nd c st" using inv by (auto simp: lock_inv_def)
  show ?thesis
  proof (cases "lk_mutex c")
    case None
    obtain i where i: "i < length progs" "lk_threads c ! i \<noteq> Outside []"
      using assms(5) len by (auto simp: lock_done_def list_all_length)
    moreover have "\<not> inside (lk_threads c ! i)" using inv i(1) None by (auto simp: lock_inv_def)
    ultimately obtain call calls where "lk_threads c ! i = Outside (call # calls)"
      by (cases "lk_threads c ! i") (auto simp: neq_Nil_conv)
    with i(1) len None show ?thesis using step_lock [of i c call calls ro ma nd] by auto
  next
    case (Some j)
    then obtain call pc calls where j: "j < length progs" "lk_threads c ! j = Inside call pc calls"
      "body_rest ro ma nd call pc (lk_table c) = table_step (lock_stl_table ro ma nd) st call"
      using hold len by (auto simp: holder_ok_def)
    have "\<forall>k \<in> set (logged_calls c @ [call]). \<exists>p \<in> set progs. k \<in> set p"
      using logged_known [OF inv log] lock_calls_known [OF inv j(1)] j(2) by auto
    from calls_as_map [OF assms(1-3) this, of nd] run
    obtain x st' where t: "table_step (lock_stl_table ro ma nd) st call = Inr (x, st')"
      by (cases "table_step (lock_stl_table ro ma nd) st call") (auto simp: table_run_stop)
    show ?thesis
    proof (cases "\<exists>x. pc = Answered x")
      case True
      then show ?thesis using step_unlock [of j c call _ calls ro ma nd] j(1,2) len by auto
    next
      case False
      then obtain pc' st2 where "body_step ro ma nd call pc (lk_table c) = Inr (pc', st2)"
        using body_rest_stops [of ro ma nd call pc "lk_table c"] j(3) t
        by (cases "body_step ro ma nd call pc (lk_table c)") auto
      then show ?thesis using step_body [of j c call pc calls ro ma nd pc' st2] j(1,2) len by auto
    qed
  qed
qed

section \<open>Linearizability\<close>

lemma lock_run_linear:
  assumes "keeps_nodes ro" "fresh_malloc ma" "keys_readable str progs h"
    and "lock_run ro ma nd (lock_start progs h) n c"
  shows "logged_answers c = fst (map_run str Map.empty (logged_calls c)) \<and>
    (lock_done c \<longrightarrow> table_content (unordered_map ro) (lk_table c) = snd (map_run str Map.empty (logged_calls c)))"
proof -
  have inv: "lock_inv ro ma nd ([], h) progs c" using lock_run_inv [OF assms(4)] .
  have log: "\<forall>(i, _) \<in> set (lk_log c). i < length progs"
    using lock_run_log [OF assms(4)] lock_run_length [OF assms(4)] by (simp add: lock_start_def)
  obtain st where run: "table_run (lock_stl_table ro ma nd) ([], h) (logged_calls c) = Inr (logged_answers c, st)"
    and hold: "holder_ok ro ma nd c st" and len: "length (lk_threads c) = length progs"
    using inv by (auto simp: lock_inv_def)
  have "\<forall>k \<in> set (logged_calls c). \<exists>p \<in> set progs. k \<in> set p" using logged_known [OF inv log] by blast
  from calls_as_map [OF assms(1-3) this, of nd] run
  have a: "logged_answers c = fst (map_run str Map.empty (logged_calls c))"
    "table_content (unordered_map ro) st = snd (map_run str Map.empty (logged_calls c))" by auto
  have "lk_table c = st" if "lock_done c"
    using that hold by (auto simp: lock_done_def list_all_length holder_ok_def split: option.splits)
  with a show ?thesis by simp
qed

lemma lock_run_order:
  assumes "lock_run ro ma nd (lock_start progs h) n c" "i < length progs"
  shows "calls_of i c @ calls_left (lk_threads c ! i) = progs ! i"
  using lock_run_inv [OF assms(1)] assms(2) by (simp add: lock_inv_def)

lemma lock_run_exclusive:
  assumes "lock_run ro ma nd (lock_start progs h) n c" "i < length progs" "inside (lk_threads c ! i)"
  shows "lk_mutex c = Some i"
  using lock_run_inv [OF assms(1)] assms(2,3) by (simp add: lock_inv_def)

text \<open>
  C12: a \<open>LockStlHashtable\<close> shared by threads is linearizable: however the threads interleave
  inside \<open>Get\<close>, \<open>Insert\<close>, \<open>Update\<close>, \<open>Remove\<close> and \<open>Size\<close>, at most one is inside a call, the
  calls that have returned gave the answers of a map to which they are applied one after
  the other, in the order of their return and so in the order of each thread's program;
  no call stops, no thread waits for ever, every run ends after at most six steps per
  call, and then the table holds what that map holds.
\<close>

theorem lock_table_linearizable:
  assumes "keeps_nodes ro" "fresh_malloc ma" "keys_readable str progs h"
    and "lock_run ro ma nd (lock_start progs h) n c"
  shows "logged_answers c = fst (map_run str Map.empty (logged_calls c)) \<and>
    (\<forall>i < length progs. calls_of i c @ calls_left (lk_threads c ! i) = progs ! i) \<and>
    (\<forall>i < length progs. inside (lk_threads c ! i) \<longrightarrow> lk_mutex c = Some i) \<and>
    n \<le> 6 * sum_list (map length progs) \<and>
    (\<not> lock_done c \<longrightarrow> (\<exists>c'. lock_step ro ma nd c c')) \<and>
    (lock_done c \<longrightarrow>
      table_content (unordered_map ro) (lk_table c) = snd (map_run str Map.empty (logged_calls c)))"
  using lock_run_linear [OF assms] lock_run_order [OF assms(4)] lock_run_exclusive [OF assms(4)]
    lock_run_work [OF assms(4)] lock_progress [OF assms] unfolding lock_start_work by auto

section \<open>Two threads\<close>

text \<open>Two threads remove the same key, which one of them has inserted: one of them gets the value.\<close>

definition two_progs :: "nat table_call list list" where
  "two_progs = [[Insert_Of 1 (Some 5), Remove_Of 1], [Remove_Of 1]]"

lemma two_readable: "keys_readable small_str two_progs small_mem"
  by (simp add: keys_readable_def two_progs_def small_mem_def small_str_def deref_def)

lemma lock_run_extends:
  assumes "keeps_nodes ro" "fresh_malloc ma" "keys_readable str progs h"
    and "lock_run ro ma nd (lock_start progs h) n c"
  shows "\<exists>m c'. lock_run ro ma nd (lock_start progs h) m c' \<and> lock_done c'"
  using assms(4)
proof (induction "lock_work c" arbitrary: n c rule: less_induct)
  case less
  show ?case
  proof (cases "lock_done c")
    case False
    then obtain c' where c': "lock_step ro ma nd c c'" using lock_progress [OF assms(1-3) less.prems] by blast
    from less.hyps [OF lock_step_work [OF c'] locks_more [OF less.prems c']] show ?thesis .
  qed (use less.prems in blast)
qed

theorem lock_table_linearizable_witness:
  "\<exists>n c. lock_run (\<lambda>t. t) bump_malloc False (lock_start two_progs small_mem) n c \<and> lock_done c \<and> n \<le> 18 \<and>
     logged_answers c = fst (map_run small_str Map.empty (logged_calls c)) \<and>
     calls_of 0 c = [Insert_Of 1 (Some 5), Remove_Of 1] \<and> calls_of 1 c = [Remove_Of 1]"
proof -
  obtain n c where r: "lock_run (\<lambda>t. t) bump_malloc False (lock_start two_progs small_mem) n c" "lock_done c"
    using lock_run_extends [OF front_keeps bump_fresh two_readable locks_none] by blast
  have l: "lk_threads c ! i = Outside []" if "i < 2" for i
    using r(2) lock_run_length [OF r(1)] that
    by (auto simp: lock_done_def list_all_length lock_start_def two_progs_def)
  from lock_table_linearizable [OF front_keeps bump_fresh two_readable r(1)] r l [of 0] l [of 1]
  show ?thesis by (auto simp: two_progs_def less_Suc_eq)
qed

text \<open>
  Without the mutex the same bodies go wrong: two threads that have both found the only key
  both remove it, so both get its value, which no order of two calls gives.
\<close>

definition one_entry :: "nat stl_state" where
  "one_entry = ([(\<lparr>hs_hash = SDBMHash ''a'', hs_value = 9, hs_len = 1\<rparr>, Some 5)], (9, ''a'') # small_mem)"

definition remove_step :: "nat pc \<times> nat stl_state \<Rightarrow> stop + (nat pc \<times> nat stl_state)" where
  "remove_step = (\<lambda>(pc, st). body_step (\<lambda>t. t) bump_malloc False (Remove_Of 1) pc st)"

lemma unlocked_removes:
  "bind_r (remove_step (Entered, one_entry)) (\<lambda>(p, st).
   bind_r (remove_step (Entered, st)) (\<lambda>(q, st).
   bind_r (remove_step (p, st)) (\<lambda>(p, st). bind_r (remove_step (q, st)) (\<lambda>(q, st).
   bind_r (remove_step (p, st)) (\<lambda>(p, st). bind_r (remove_step (q, st)) (\<lambda>(q, st).
   bind_r (remove_step (p, st)) (\<lambda>(p, st). bind_r (remove_step (q, st)) (\<lambda>(q, st).
   Inr (p, q))))))))) = Inr (Answered (Value (Some 5)), Answered (Value (Some 5)))"
  "bind_r (table_run (lock_stl_table (\<lambda>t. t) bump_malloc False) one_entry [Remove_Of 1, Remove_Of 1])
     (\<lambda>(xs, st). Inr xs) = Inr [Value (Some 5), Value None]"
  by code_simp+

end
